(* ===== verification/Prelude.thy ===== *)
theory Prelude
  imports Complex_Main "HOL-Library.Word"
begin

text \<open>
  What every component shares: the JavaScript values and errors the sources use, the
  32-bit integer operators, the \<open>Uint8Array\<close> cursor that the generated code and the
  packages write and read through, and the generic lemmas on lists and words.

  A byte of a \<open>Uint8Array\<close> or \<open>Buffer\<close> is an \<open>8 word\<close>, a UTF-16 code unit a
  \<open>16 word\<close>, a string a list of code units, and the operand of a JavaScript bitwise
  operator a \<open>32 word\<close> (the operators convert their operands by ToInt32 first). A
  number is an exact rational, NaN or an infinity: the sources only compare numbers,
  test them for being integers and reduce them to 32 bits, which agrees with IEEE
  arithmetic for every integer of magnitude below \<open>2 ^ 53\<close>.
\<close>

unbundle bit_operations_syntax

named_theorems bit_consts \<open>which bits the masks of the sources have\<close>
named_theorems cursor \<open>how a write cursor and a read cursor move\<close>

type_synonym byte = "8 word"
type_synonym code_unit = "16 word"
type_synonym js_string = "16 word list"

text \<open>An ASCII literal of the source as a JavaScript string and as bytes.\<close>

definition js :: "string \<Rightarrow> js_string" where
  "js s = map of_char s"

definition ascii :: "string \<Rightarrow> byte list" where
  "ascii s = map of_char s"

lemma js_Nil [simp]: "js [] = []" and js_Cons [simp]: "js (c # s) = of_char c # js s"
  by (simp_all add: js_def)

lemma ascii_Nil [simp]: "ascii [] = []" and ascii_Cons [simp]: "ascii (c # s) = of_char c # ascii s"
  by (simp_all add: ascii_def)

section \<open>Errors as values\<close>

text \<open>
  The exceptions the modelled code can end with. \<open>ValidationError\<close> carries the
  reason the source's message states and the property it names.
\<close>

datatype validation =
    ExpectedBoolean js_string
  | ExpectedInt32 js_string
  | BoundaryCheck js_string
  | ExpectedString js_string
  | StringTooLong js_string
  | ExpectedArray js_string
  | ExpectedInt32Element js_string
  | UnexpectedEndOfBuffer

datatype js_error = ValidationError validation | JsTypeError | JsRangeError | JsSyntaxError

fun bind_res :: "'e + 'a \<Rightarrow> ('a \<Rightarrow> 'e + 'b) \<Rightarrow> 'e + 'b" where
  "bind_res (Inl e) f = Inl e"
| "bind_res (Inr x) f = f x"

lemma bind_res_Inr_iff: "bind_res m f = Inr y \<longleftrightarrow> (\<exists>x. m = Inr x \<and> f x = Inr y)"
  by (cases m) auto

lemma bind_res_assoc: "bind_res (bind_res m f) g = bind_res m (\<lambda>x. bind_res (f x) g)"
  by (cases m) auto

text \<open>A statement list runs from left to right and stops at the first exception.\<close>

fun run_stmts :: "('s \<Rightarrow> 'st \<Rightarrow> 'e + 'st) \<Rightarrow> 's list \<Rightarrow> 'st \<Rightarrow> 'e + 'st" where
  "run_stmts ex [] st = Inr st"
| "run_stmts ex (s # ss) st = bind_res (ex s st) (run_stmts ex ss)"

lemma run_stmts_append:
  "run_stmts ex (xs @ ys) st = bind_res (run_stmts ex xs st) (run_stmts ex ys)"
proof (induction xs arbitrary: st)
  case (Cons x xs)
  then show ?case by (cases "ex x st") auto
qed simp

section \<open>Numbers and values\<close>

datatype js_num = Fin rat | NaN | PosInf | NegInf

text \<open>
  An array of the program's data is the list of the numbers its elements coerce to
  (ToNumber): the code uses elements as numbers only.
\<close>

datatype js_val =
    JUndef
  | JNull
  | JBool bool
  | JNum js_num
  | JStr js_string
  | JArr "js_num list"

abbreviation jint :: "int \<Rightarrow> js_num" where
  "jint i \<equiv> Fin (of_int i)"

definition trunc_rat :: "rat \<Rightarrow> int" where
  "trunc_rat r = (if 0 \<le> r then \<lfloor>r\<rfloor> else \<lceil>r\<rceil>)"

text \<open>ToInt32, read as a word; ToInt32 of NaN and of the infinities is 0.\<close>

fun to_int32 :: "js_num \<Rightarrow> 32 word" where
  "to_int32 (Fin r) = word_of_int (trunc_rat r)"
| "to_int32 NaN = 0"
| "to_int32 PosInf = 0"
| "to_int32 NegInf = 0"

fun num_ge0 :: "js_num \<Rightarrow> bool" where
  "num_ge0 (Fin r) = (0 \<le> r)"
| "num_ge0 PosInf = True"
| "num_ge0 NaN = False"
| "num_ge0 NegInf = False"

text \<open>\<open>-x - 1\<close>.\<close>

fun neg_minus_one :: "js_num \<Rightarrow> js_num" where
  "neg_minus_one (Fin r) = Fin (- r - 1)"
| "neg_minus_one NaN = NaN"
| "neg_minus_one PosInf = NegInf"
| "neg_minus_one NegInf = PosInf"

lemma trunc_rat_of_int [simp]: "trunc_rat (of_int i) = i"
  by (simp add: trunc_rat_def)

lemma trunc_rat_neg [simp]: "trunc_rat (- of_int i - 1) = - i - 1"
  using trunc_rat_of_int [of "- i - 1"] by simp

lemma to_int32_jint [simp]: "to_int32 (jint i) = word_of_int i"
  by simp

lemma num_ge0_jint [simp]: "num_ge0 (jint i) \<longleftrightarrow> 0 \<le> i"
  by simp

lemma neg_minus_one_jint [simp]: "neg_minus_one (jint i) = jint (- i - 1)"
  by simp

text \<open>ToBoolean.\<close>

fun truthy :: "js_val \<Rightarrow> bool" where
  "truthy JUndef = False"
| "truthy JNull = False"
| "truthy (JBool b) = b"
| "truthy (JNum n) = (n \<noteq> Fin 0 \<and> n \<noteq> NaN)"
| "truthy (JStr s) = (s \<noteq> [])"
| "truthy (JArr _) = True"

section \<open>Bits\<close>

text \<open>A word below \<open>2 ^ k\<close> has no bit at or above \<open>k\<close>.\<close>

lemma not_bit_above:
  fixes w :: "'a::len word"
  assumes "uint w < 2 ^ k" and "k \<le> n"
  shows "\<not> bit w n"
proof -
  have "take_bit k (uint w) = uint w"
    using assms(1) by (simp add: take_bit_int_eq_self)
  then have "bit (uint w) n \<longleftrightarrow> bit (take_bit k (uint w)) n" by simp
  with assms(2) have "\<not> bit (uint w) n" by (simp add: bit_take_bit_iff)
  then show ?thesis using bit_imp_le_length [of w n] by (auto simp: bit_uint_iff)
qed

text \<open>
  The masks of the sources: a run of \<open>k\<close> ones starting at bit \<open>m\<close>. The simplifier
  reads a bit of a word numeral off the integer numeral, so the facts are about integers.
\<close>

lemma bit_run:
  assumes "w = push_bit m (mask k)"
  shows "bit (w :: int) n \<longleftrightarrow> m \<le> n \<and> n < m + k"
  using assms by (auto simp: bit_simps)

lemma bit_masks [bit_consts]:
  "bit (0x3 :: int) n \<longleftrightarrow> n < 2"
  "bit (0x7 :: int) n \<longleftrightarrow> n < 3"
  "bit (0xf :: int) n \<longleftrightarrow> n < 4"
  "bit (0x1f :: int) n \<longleftrightarrow> n < 5"
  "bit (0x3f :: int) n \<longleftrightarrow> n < 6"
  "bit (0x7f :: int) n \<longleftrightarrow> n < 7"
  "bit (0xff :: int) n \<longleftrightarrow> n < 8"
  "bit (0x3ff :: int) n \<longleftrightarrow> n < 10"
  using bit_run [of "0x3" 0 2 n]
    bit_run [of "0x7" 0 3 n]
    bit_run [of "0xf" 0 4 n]
    bit_run [of "0x1f" 0 5 n]
    bit_run [of "0x3f" 0 6 n]
    bit_run [of "0x7f" 0 7 n]
    bit_run [of "0xff" 0 8 n]
    bit_run [of "0x3ff" 0 10 n]
  by (simp_all add: mask_eq_exp_minus_1 numeral_2_eq_2)

lemma bit_prefixes [bit_consts]:
  "bit (0x80 :: int) n \<longleftrightarrow> 7 \<le> n \<and> n < 8"
  "bit (0xc0 :: int) n \<longleftrightarrow> 6 \<le> n \<and> n < 8"
  "bit (0xe0 :: int) n \<longleftrightarrow> 5 \<le> n \<and> n < 8"
  "bit (0xf0 :: int) n \<longleftrightarrow> 4 \<le> n \<and> n < 8"
  using bit_run [of "0x80" 7 1 n]
    bit_run [of "0xc0" 6 2 n]
    bit_run [of "0xe0" 5 3 n]
    bit_run [of "0xf0" 4 4 n]
  by (simp_all add: mask_eq_exp_minus_1 push_bit_eq_mult)

text \<open>Shifts, masks and disjoint unions of words, read as natural numbers.\<close>

lemma unat_or_disjoint:
  fixes x y :: "'a::len word"
  assumes "x AND y = 0"
  shows "unat (x OR y) = unat x + unat y"
proof -
  have "unat x AND unat y = unat (x AND y)" by (rule unsigned_and_eq [symmetric])
  then have "unat x AND unat y = 0" using assms by simp
  then have "unat x + unat y = unat x OR unat y" by (rule disjunctive_add_eq_or)
  then show ?thesis by (simp add: unsigned_or_eq)
qed

lemma unat_less_no_bit:
  fixes y :: "'a::len word"
  assumes "unat y < 2 ^ k" and "k \<le> n"
  shows "\<not> bit y n"
proof (rule not_bit_above [OF _ assms(2)])
  have "int (unat y) < int (2 ^ k)" using assms(1) by (simp only: of_nat_less_iff)
  then show "uint y < 2 ^ k" by simp
qed

lemma unat_push_bit_or:
  fixes x y :: "32 word"
  assumes y: "unat y < 2 ^ k" and x: "unat x * 2 ^ k < 2 ^ 32"
  shows "unat (push_bit k x OR y) = unat x * 2 ^ k + unat y"
proof -
  have "push_bit k x AND y = 0"
    using unat_less_no_bit [OF y] by (auto intro!: bit_word_eqI simp: bit_simps)
  moreover have "unat (push_bit k x) = unat x * 2 ^ k"
    using x by (simp add: unsigned_push_bit_eq take_bit_nat_eq_self push_bit_nat_def)
  ultimately show ?thesis by (simp add: unat_or_disjoint)
qed

lemma unat_and_mask: "unat (w AND mask k) = unat w mod 2 ^ k" for w :: "'a::len word"
  by (simp add: take_bit_eq_mask [symmetric] unsigned_take_bit_eq take_bit_nat_def)

lemma unat_drop: "unat (drop_bit k w) = unat w div 2 ^ k" for w :: "'a::len word"
  by (simp add: unsigned_drop_bit_eq take_bit_nat_eq_self drop_bit_nat_def)

section \<open>Writing through a cursor\<close>

text \<open>
  \<open>buf[_offset++] = x\<close> on a \<open>Uint8Array\<close>: the value is reduced modulo 256, and a
  store outside the array is ignored, so the array never changes its length.
\<close>

record cursor =
  cbuf :: "byte list"
  coff :: nat

definition put :: "byte \<Rightarrow> cursor \<Rightarrow> cursor" where
  "put b c = c\<lparr>cbuf := (cbuf c)[coff c := b], coff := Suc (coff c)\<rparr>"

fun put_bytes :: "byte list \<Rightarrow> cursor \<Rightarrow> cursor" where
  "put_bytes [] c = c"
| "put_bytes (b # bs) c = put_bytes bs (put b c)"

text \<open>\<open>(x >>> k) & 0xff\<close>, and the four stores that write a 32-bit value big-endian.\<close>

definition byte_at :: "nat \<Rightarrow> 32 word \<Rightarrow> byte" where
  "byte_at k w = ucast (drop_bit k w AND 0xff)"

definition be32 :: "32 word \<Rightarrow> byte list" where
  "be32 w = [byte_at 24 w, byte_at 16 w, byte_at 8 w, byte_at 0 w]"

definition be16 :: "32 word \<Rightarrow> byte list" where
  "be16 w = [byte_at 8 w, byte_at 0 w]"

lemma bit_byte_at [bit_consts]: "bit (byte_at k w) n \<longleftrightarrow> n < 8 \<and> bit w (k + n)"
  by (auto simp: byte_at_def bit_ucast_iff bit_simps bit_consts simp del: unsigned_and_eq)

lemma length_be32 [simp]: "length (be32 w) = 4" and length_be16 [simp]: "length (be16 w) = 2"
  by (simp_all add: be32_def be16_def)

lemma put_bytes_append [cursor]: "put_bytes (xs @ ys) c = put_bytes ys (put_bytes xs c)"
  by (induction xs arbitrary: c) auto

lemma coff_put_bytes [simp]: "coff (put_bytes bs c) = coff c + length bs"
  by (induction bs arbitrary: c) (auto simp: put_def)

lemma length_cbuf_put_bytes [simp]: "length (cbuf (put_bytes bs c)) = length (cbuf c)"
  by (induction bs arbitrary: c) (auto simp: put_def)

text \<open>Bytes written where there is room replace as many bytes and nothing else.\<close>

lemma put_bytes_fits:
  assumes "length bs \<le> length rest"
  shows "put_bytes bs \<lparr>cbuf = pre @ rest, coff = length pre\<rparr> =
    \<lparr>cbuf = pre @ bs @ drop (length bs) rest, coff = length pre + length bs\<rparr>"
  using assms
proof (induction bs arbitrary: pre rest)
  case (Cons b bs)
  then obtain r rest' where rest: "rest = r # rest'" and fits: "length bs \<le> length rest'"
    by (cases rest) auto
  have "put b \<lparr>cbuf = pre @ rest, coff = length pre\<rparr> =
      \<lparr>cbuf = (pre @ [b]) @ rest', coff = length (pre @ [b])\<rparr>"
    by (simp add: put_def rest)
  with Cons.IH [OF fits, of "pre @ [b]"] show ?case by (simp add: rest)
qed simp

corollary put_bytes_fill:
  assumes "length buf = length bs"
  shows "put_bytes bs \<lparr>cbuf = buf, coff = 0\<rparr> = \<lparr>cbuf = bs, coff = length bs\<rparr>"
  using put_bytes_fits [of bs buf "[]"] assms by simp

section \<open>Reading through a cursor\<close>

text \<open>
  \<open>buf[_offset++]\<close>: a read past the end gives \<open>undefined\<close> (\<open>None\<close>), which a
  bitwise operator takes as 0. The offset itself becomes NaN (\<open>None\<close>) once
  \<open>undefined\<close> has been added to it, and every later read is \<open>undefined\<close>.
\<close>

type_synonym offset = "nat option"

definition read_at :: "byte list \<Rightarrow> offset \<Rightarrow> byte option" where
  "read_at buf off =
     (case off of None \<Rightarrow> None | Some i \<Rightarrow> if i < length buf then Some (buf ! i) else None)"

definition advance :: "nat \<Rightarrow> offset \<Rightarrow> offset" where
  "advance n off = map_option (\<lambda>i. i + n) off"

definition bits_of :: "byte option \<Rightarrow> 32 word" where
  "bits_of b = (case b of None \<Rightarrow> 0 | Some x \<Rightarrow> ucast x)"

definition read_be16 :: "byte list \<Rightarrow> offset \<Rightarrow> 32 word" where
  "read_be16 buf off =
     push_bit 8 (bits_of (read_at buf off)) OR bits_of (read_at buf (advance 1 off))"

definition read_be32 :: "byte list \<Rightarrow> offset \<Rightarrow> 32 word" where
  "read_be32 buf off =
     push_bit 24 (bits_of (read_at buf off)) OR
     push_bit 16 (bits_of (read_at buf (advance 1 off))) OR
     push_bit 8 (bits_of (read_at buf (advance 2 off))) OR
     bits_of (read_at buf (advance 3 off))"

lemma read_at_Some [cursor]: "read_at buf (Some i) = (if i < length buf then Some (buf ! i) else None)"
  and read_at_None [simp]: "read_at buf None = None"
  by (simp_all add: read_at_def)

lemma advance_simps [simp]: "advance n (Some i) = Some (i + n)" "advance n None = None"
  by (simp_all add: advance_def)

lemma bits_of_simps [simp]: "bits_of None = 0" "bits_of (Some b) = ucast b"
  by (simp_all add: bits_of_def)

lemma read_at_append [cursor]:
  "read_at (pre @ x # post) (Some (length pre)) = Some x"
  by (simp add: read_at_def)

lemma read_at_append_off [cursor]:
  assumes "k < length xs"
  shows "read_at (pre @ xs @ post) (Some (length pre + k)) = Some (xs ! k)"
  using assms by (simp add: read_at_def nth_append)

lemma be32_bits:
  "push_bit 24 (ucast (byte_at 24 w) :: 32 word) OR push_bit 16 (ucast (byte_at 16 w)) OR
   push_bit 8 (ucast (byte_at 8 w)) OR ucast (byte_at 0 w) = w"
proof (rule bit_word_eqI)
  fix n assume "n < LENGTH(32)"
  then consider "n < 8" | "8 \<le> n" "n < 16" | "16 \<le> n" "n < 24" | "24 \<le> n" "n < 32"
    by fastforce
  then show "bit (push_bit 24 (ucast (byte_at 24 w) :: 32 word) OR push_bit 16 (ucast (byte_at 16 w)) OR
     push_bit 8 (ucast (byte_at 8 w)) OR ucast (byte_at 0 w)) n = bit w n"
    by cases (auto simp: bit_simps bit_consts)
qed

lemma be16_bits:
  assumes "uint w < 2 ^ 16"
  shows "push_bit 8 (ucast (byte_at 8 w) :: 32 word) OR ucast (byte_at 0 w) = w"
proof (rule bit_word_eqI)
  fix n assume "n < LENGTH(32)"
  then consider "n < 8" | "8 \<le> n" "n < 16" | "16 \<le> n" "n < 32"
    by fastforce
  then show "bit (push_bit 8 (ucast (byte_at 8 w) :: 32 word) OR ucast (byte_at 0 w)) n = bit w n"
    using not_bit_above [OF assms, of n]
    by cases (auto simp: bit_simps bit_consts)
qed

lemma read_be32_append [cursor]:
  "read_be32 (pre @ be32 w @ post) (Some (length pre)) = w"
  using read_at_append_off [of 0 "be32 w" pre post] read_at_append_off [of 1 "be32 w" pre post]
    read_at_append_off [of 2 "be32 w" pre post] read_at_append_off [of 3 "be32 w" pre post]
  by (simp add: read_be32_def) (simp add: be32_def be32_bits)

lemma read_be16_append [cursor]:
  assumes "uint w < 2 ^ 16"
  shows "read_be16 (pre @ be16 w @ post) (Some (length pre)) = w"
  using read_at_append_off [of 0 "be16 w" pre post] read_at_append_off [of 1 "be16 w" pre post]
  by (simp add: read_be16_def) (simp add: be16_def be16_bits [OF assms])

section \<open>Lists\<close>

text \<open>The part of a list between two indices, as \<open>subarray\<close> and \<open>slice\<close> give it.\<close>

definition slice :: "nat \<Rightarrow> nat \<Rightarrow> 'a list \<Rightarrow> 'a list" where
  "slice i j xs = take (j - i) (drop i xs)"

lemma length_slice [simp]: "length (slice i j xs) = min (j - i) (length xs - i)"
  by (simp add: slice_def)

lemma nth_slice: "i + k < j \<Longrightarrow> i + k < length xs \<Longrightarrow> slice i j xs ! k = xs ! (i + k)"
  by (simp add: slice_def)

lemma slice_append_mid [simp]:
  "slice (length xs) (length xs + length ys) (xs @ ys @ zs) = ys"
  by (simp add: slice_def)

lemma slice_empty [simp]: "slice i i xs = []"
  by (simp add: slice_def)

section \<open>Little-endian numbers\<close>

fun le_nat :: "byte list \<Rightarrow> nat" where
  "le_nat [] = 0"
| "le_nat (b # bs) = unat b + 256 * le_nat bs"

fun le_bytes :: "nat \<Rightarrow> nat \<Rightarrow> byte list" where
  "le_bytes 0 n = []"
| "le_bytes (Suc w) n = of_nat (n mod 256) # le_bytes w (n div 256)"

lemma le_nat_bytes: "le_nat (le_bytes w n) = n mod 256 ^ w"
proof (induction w arbitrary: n)
  case (Suc w)
  then show ?case by (simp add: unat_of_nat mod_mult2_eq)
qed simp

lemma length_le_bytes [simp]: "length (le_bytes w n) = w"
  by (induction w arbitrary: n) simp_all

lemma le_nat_le_bytes: "n < 256 ^ w \<Longrightarrow> le_nat (le_bytes w n) = n"
  by (simp add: le_nat_bytes)

end
