(* ===== verification/Js_Text.thy ===== *)
theory Js_Text
  imports Prelude
begin

text \<open>
  The text operations of the language that the sources call: the scalar values of a
  UTF-16 string (an unpaired surrogate reads as U+FFFD, as \<open>Buffer.from(s, 'utf8')\<close>
  does), their UTF-8 bytes, and the decoder behind \<open>Buffer.toString('utf8')\<close>, which
  replaces every maximal ill-formed part by U+FFFD. They are written with \<open>div\<close> and
  \<open>mod\<close> on natural numbers, independently of the bit operations of the program, so
  that the program's own UTF-8 routines can be compared with them.
\<close>

section \<open>UTF-16\<close>

definition high_surrogate :: "code_unit \<Rightarrow> bool" where
  "high_surrogate c \<longleftrightarrow> 0xd800 \<le> c \<and> c < 0xdc00"

definition low_surrogate :: "code_unit \<Rightarrow> bool" where
  "low_surrogate c \<longleftrightarrow> 0xdc00 \<le> c \<and> c < 0xe000"

definition join_surrogates :: "code_unit \<Rightarrow> code_unit \<Rightarrow> nat" where
  "join_surrogates h l = 0x10000 + (unat h - 0xd800) * 0x400 + (unat l - 0xdc00)"

fun scalars :: "js_string \<Rightarrow> nat list" where
  "scalars [] = []"
| "scalars [c] = [if high_surrogate c \<or> low_surrogate c then 0xfffd else unat c]"
| "scalars (c # d # cs) =
     (if high_surrogate c \<and> low_surrogate d then join_surrogates c d # scalars cs
      else (if high_surrogate c \<or> low_surrogate c then 0xfffd else unat c) # scalars (d # cs))"

definition units_of_scalar :: "nat \<Rightarrow> js_string" where
  "units_of_scalar n =
     (if n < 0x10000 then [of_nat n]
      else [of_nat (0xd800 + (n - 0x10000) div 0x400), of_nat (0xdc00 + (n - 0x10000) mod 0x400)])"

text \<open>The string with every unpaired surrogate replaced by U+FFFD.\<close>

definition to_well_formed :: "js_string \<Rightarrow> js_string" where
  "to_well_formed s = concat (map units_of_scalar (scalars s))"

fun well_formed :: "js_string \<Rightarrow> bool" where
  "well_formed [] = True"
| "well_formed [c] = (\<not> high_surrogate c \<and> \<not> low_surrogate c)"
| "well_formed (c # d # cs) =
     (if high_surrogate c \<and> low_surrogate d then well_formed cs
      else \<not> high_surrogate c \<and> \<not> low_surrogate c \<and> well_formed (d # cs))"

definition scalar_value :: "nat \<Rightarrow> bool" where
  "scalar_value n \<longleftrightarrow> n < 0x110000 \<and> \<not> (0xd800 \<le> n \<and> n < 0xe000)"

lemma surrogate_unat:
  "high_surrogate c \<longleftrightarrow> 0xd800 \<le> unat c \<and> unat c < 0xdc00"
  "low_surrogate c \<longleftrightarrow> 0xdc00 \<le> unat c \<and> unat c < 0xe000"
  by (simp_all add: high_surrogate_def low_surrogate_def word_le_nat_alt word_less_nat_alt)

lemma unat_unit_less: "unat (c :: code_unit) < 0x10000"
  using unsigned_less [of c, where ?'a = nat] by simp

lemma scalar_value_unit:
  assumes "\<not> high_surrogate c" and "\<not> low_surrogate c"
  shows "scalar_value (unat c)"
proof -
  have "\<not> (0xd800 \<le> unat c \<and> unat c < 0xe000)"
    using assms unfolding surrogate_unat by linarith
  then show ?thesis using unat_unit_less [of c] by (simp add: scalar_value_def)
qed

lemma scalar_value_replacement [simp]: "scalar_value 0xfffd"
  by (simp add: scalar_value_def)

lemma join_surrogates_bounds:
  assumes "high_surrogate h" and "low_surrogate l"
  shows "0x10000 \<le> join_surrogates h l" and "join_surrogates h l < 0x110000"
proof -
  have "unat h - 0xd800 \<le> 0x3ff" and "unat l - 0xdc00 \<le> 0x3ff"
    using assms by (auto simp: surrogate_unat)
  then show "0x10000 \<le> join_surrogates h l" and "join_surrogates h l < 0x110000"
    by (simp_all add: join_surrogates_def)
qed

lemma scalar_value_join:
  "high_surrogate h \<Longrightarrow> low_surrogate l \<Longrightarrow> scalar_value (join_surrogates h l)"
  using join_surrogates_bounds [of h l] by (simp add: scalar_value_def)

lemma scalars_are_scalar_values: "\<forall>n \<in> set (scalars s). scalar_value n"
  by (induction s rule: scalars.induct) (auto simp: scalar_value_unit scalar_value_join)

lemma units_of_unit [simp]: "units_of_scalar (unat (c :: code_unit)) = [c]"
  using unat_unit_less [of c] by (simp add: units_of_scalar_def)

lemma units_of_join:
  assumes "high_surrogate h" and "low_surrogate l"
  shows "units_of_scalar (join_surrogates h l) = [h, l]"
proof -
  define a where "a = unat h - 0xd800"
  define b where "b = unat l - 0xdc00"
  have h: "unat h = 0xd800 + a" and l: "unat l = 0xdc00 + b" and b: "b < 0x400"
    using assms by (auto simp: surrogate_unat a_def b_def)
  have "join_surrogates h l = 0x10000 + (a * 0x400 + b)"
    by (simp add: join_surrogates_def a_def b_def)
  then have "units_of_scalar (join_surrogates h l) = [of_nat (0xd800 + a), of_nat (0xdc00 + b)]"
    using b by (simp add: units_of_scalar_def)
  then show ?thesis by (simp only: h [symmetric] l [symmetric]) simp
qed

lemma to_well_formed_id: "well_formed s \<Longrightarrow> to_well_formed s = s"
  unfolding to_well_formed_def
  by (induction s rule: well_formed.induct) (auto simp: units_of_join split: if_splits)

section \<open>UTF-8 encoding\<close>

definition encode_scalar :: "nat \<Rightarrow> byte list" where
  "encode_scalar n =
     (if n < 0x80 then [of_nat n]
      else if n < 0x800 then [of_nat (0xc0 + n div 0x40), of_nat (0x80 + n mod 0x40)]
      else if n < 0x10000 then
        [of_nat (0xe0 + n div 0x1000), of_nat (0x80 + n div 0x40 mod 0x40), of_nat (0x80 + n mod 0x40)]
      else
        [of_nat (0xf0 + n div 0x40000), of_nat (0x80 + n div 0x1000 mod 0x40),
         of_nat (0x80 + n div 0x40 mod 0x40), of_nat (0x80 + n mod 0x40)])"

definition utf8_encode :: "js_string \<Rightarrow> byte list" where
  "utf8_encode s = concat (map encode_scalar (scalars s))"

lemma encode_scalar_nonempty [simp]: "encode_scalar n \<noteq> []"
  by (simp add: encode_scalar_def)

lemma length_encode_scalar:
  "length (encode_scalar n) = (if n < 0x80 then 1 else if n < 0x800 then 2 else if n < 0x10000 then 3 else 4)"
  by (simp add: encode_scalar_def)

lemma utf8_encode_simps:
  "utf8_encode [] = []"
  "\<not> high_surrogate c \<Longrightarrow> \<not> low_surrogate c \<Longrightarrow>
     utf8_encode (c # cs) = encode_scalar (unat c) @ utf8_encode cs"
  "high_surrogate c \<Longrightarrow> low_surrogate d \<Longrightarrow>
     utf8_encode (c # d # cs) = encode_scalar (join_surrogates c d) @ utf8_encode cs"
  "high_surrogate c \<Longrightarrow> \<not> low_surrogate d \<Longrightarrow>
     utf8_encode (c # d # cs) = encode_scalar 0xfffd @ utf8_encode (d # cs)"
  "high_surrogate c \<Longrightarrow> utf8_encode [c] = encode_scalar 0xfffd"
  "low_surrogate c \<Longrightarrow> utf8_encode (c # cs) = encode_scalar 0xfffd @ utf8_encode cs"
proof -
  have "\<not> high_surrogate c" if "low_surrogate c"
    using that unfolding surrogate_unat by linarith
  then show "low_surrogate c \<Longrightarrow> utf8_encode (c # cs) = encode_scalar 0xfffd @ utf8_encode cs"
    by (cases cs) (auto simp: utf8_encode_def)
  show "\<not> high_surrogate c \<Longrightarrow> \<not> low_surrogate c \<Longrightarrow>
     utf8_encode (c # cs) = encode_scalar (unat c) @ utf8_encode cs"
    by (cases cs) (auto simp: utf8_encode_def)
qed (simp_all add: utf8_encode_def)

text \<open>The cases of the UTF-8 routines: what a string can start with.\<close>

lemma unit_cases:
  obtains (one) "unat u < 0x80" | (two) "0x80 \<le> unat u" "unat u < 0x800"
    | (pair) d ds where "high_surrogate u" "us = d # ds" "low_surrogate d"
    | (high) d ds where "high_surrogate u" "us = d # ds" "\<not> low_surrogate d"
    | (last) "high_surrogate u" "us = []"
    | (low) "low_surrogate u"
    | (three) "0x800 \<le> unat u" "\<not> high_surrogate u" "\<not> low_surrogate u"
proof -
  have "unat u < 0x80 \<or> 0x80 \<le> unat u \<and> unat u < 0x800 \<or> high_surrogate u \<or>
      low_surrogate u \<or> 0x800 \<le> unat u \<and> \<not> high_surrogate u \<and> \<not> low_surrogate u"
    by linarith
  then show thesis using that by (metis list.exhaust)
qed

lemma not_surrogate_below: "unat u < 0x800 \<Longrightarrow> \<not> high_surrogate u \<and> \<not> low_surrogate u"
  by (simp add: surrogate_unat)

text \<open>A string of ASCII units is its own UTF-8 encoding.\<close>

lemma scalars_ascii: "\<forall>c \<in> set s. unat c < 0x80 \<Longrightarrow> scalars s = map unat s"
  by (induction s rule: scalars.induct) (auto simp: surrogate_unat)

lemma utf8_encode_ascii:
  assumes "\<forall>c \<in> set s. unat c < 0x80"
  shows "utf8_encode s = map ucast s"
proof -
  have "encode_scalar (unat c) = [ucast c]" if "c \<in> set s" for c
    using assms that by (simp add: encode_scalar_def)
  then have "concat (map encode_scalar (map unat s)) = map ucast s"
    by (induction s) auto
  then show ?thesis
    using scalars_ascii [OF assms] by (simp add: utf8_encode_def)
qed

section \<open>UTF-8 decoding\<close>

definition continuation :: "byte \<Rightarrow> bool" where
  "continuation b \<longleftrightarrow> 0x80 \<le> b \<and> b < 0xc0"

text \<open>
  The second byte a lead byte allows (the lead bytes \<open>E0\<close>, \<open>ED\<close>, \<open>F0\<close> and \<open>F4\<close>
  allow fewer than the others: no overlong forms, no surrogates, nothing past U+10FFFF).
\<close>

definition second_ok :: "byte \<Rightarrow> byte \<Rightarrow> bool" where
  "second_ok b c \<longleftrightarrow>
     (if b = 0xe0 then 0xa0 \<le> c \<and> c < 0xc0
      else if b = 0xed then 0x80 \<le> c \<and> c < 0xa0
      else if b = 0xf0 then 0x90 \<le> c \<and> c < 0xc0
      else if b = 0xf4 then 0x80 \<le> c \<and> c < 0x90
      else continuation c)"

definition payload6 :: "byte \<Rightarrow> nat" where
  "payload6 b = unat b mod 0x40"

fun decode_scalars :: "byte list \<Rightarrow> nat list" where
  "decode_scalars [] = []"
| "decode_scalars (b # bs) =
     (if b < 0x80 then unat b # decode_scalars bs
      else if 0xc2 \<le> b \<and> b < 0xe0 then
        (case bs of
           c # bs1 \<Rightarrow>
             if continuation c
             then ((unat b - 0xc0) * 0x40 + payload6 c) # decode_scalars bs1
             else 0xfffd # decode_scalars bs
         | [] \<Rightarrow> [0xfffd])
      else if 0xe0 \<le> b \<and> b < 0xf0 then
        (case bs of
           c # bs1 \<Rightarrow>
             if second_ok b c then
               (case bs1 of
                  d # bs2 \<Rightarrow>
                    if continuation d
                    then ((unat b - 0xe0) * 0x1000 + payload6 c * 0x40 + payload6 d) # decode_scalars bs2
                    else 0xfffd # decode_scalars bs1
                | [] \<Rightarrow> [0xfffd])
             else 0xfffd # decode_scalars bs
         | [] \<Rightarrow> [0xfffd])
      else if 0xf0 \<le> b \<and> b < 0xf5 then
        (case bs of
           c # bs1 \<Rightarrow>
             if second_ok b c then
               (case bs1 of
                  d # bs2 \<Rightarrow>
                    if continuation d then
                      (case bs2 of
                         e # bs3 \<Rightarrow>
                           if continuation e
                           then ((unat b - 0xf0) * 0x40000 + payload6 c * 0x1000
                                  + payload6 d * 0x40 + payload6 e) # decode_scalars bs3
                           else 0xfffd # decode_scalars bs2
                       | [] \<Rightarrow> [0xfffd])
                    else 0xfffd # decode_scalars bs1
                | [] \<Rightarrow> [0xfffd])
             else 0xfffd # decode_scalars bs
         | [] \<Rightarrow> [0xfffd])
      else 0xfffd # decode_scalars bs)"

definition utf8_decode :: "byte list \<Rightarrow> js_string" where
  "utf8_decode bs = concat (map units_of_scalar (decode_scalars bs))"

text \<open>The decoder reads back what the encoder wrote, whatever follows it.\<close>

lemma unat_of_byte: "k < 256 \<Longrightarrow> unat (of_nat k :: byte) = k"
  by (simp add: unat_of_nat)

lemma continuation_of_nat: "k < 0x40 \<Longrightarrow> continuation (of_nat (0x80 + k))"
  by (simp only: continuation_def word_le_nat_alt word_less_nat_alt unat_of_byte) simp

lemma payload6_of_nat: "k < 0x40 \<Longrightarrow> payload6 (of_nat (0x80 + k)) = k"
  using mod_mult_self2 [of k "0x40" 2]
  by (simp add: payload6_def unat_of_byte add.commute del: of_nat_add)

text \<open>The base-64 digits of a scalar value.\<close>

lemma div_0x1000: "n div 0x1000 = n div 0x40 div (0x40 :: nat)"
  using div_mult2_eq [of n "0x40" "0x40"] by simp

lemma div_0x40000: "n div 0x40000 = n div 0x1000 div (0x40 :: nat)"
  using div_mult2_eq [of n "0x1000" "0x40"] by simp

lemma mod_0x40: "q mod 0x40 = q - 0x40 * (q div (0x40 :: nat))"
  by (simp add: minus_mult_div_eq_mod)

lemma digits_three: "n div 0x1000 * 0x1000 + n div 0x40 mod 0x40 * 0x40 + n mod 0x40 = (n :: nat)"
  using mult_div_mod_eq [of "0x40" n] mult_div_mod_eq [of "0x40" "n div 0x40"]
  unfolding div_0x1000 by linarith

lemma digits_four:
  "n div 0x40000 * 0x40000 + n div 0x1000 mod 0x40 * 0x1000 + n div 0x40 mod 0x40 * 0x40
     + n mod 0x40 = (n :: nat)"
  using digits_three [of n] mult_div_mod_eq [of "0x40" "n div 0x1000"]
  unfolding div_0x40000 by linarith

lemma decode_two:
  assumes "0x80 \<le> n" and "n < 0x800"
  shows "decode_scalars (encode_scalar n @ bs) = n # decode_scalars bs"
proof -
  let ?b = "of_nat (0xc0 + n div 0x40) :: byte"
  have b: "unat ?b = 0xc0 + n div 0x40" using assms by (intro unat_of_byte) linarith
  have "\<not> ?b < 0x80" "0xc2 \<le> ?b" "?b < 0xe0"
    using assms unfolding word_le_nat_alt word_less_nat_alt b by auto
  moreover have "encode_scalar n = [?b, of_nat (0x80 + n mod 0x40)]"
    using assms by (simp add: encode_scalar_def)
  ultimately show ?thesis
    using b by (simp add: continuation_of_nat payload6_of_nat del: of_nat_add)
qed

lemma decode_three:
  assumes "0x800 \<le> n" and "n < 0x10000" and "\<not> (0xd800 \<le> n \<and> n < 0xe000)"
  shows "decode_scalars (encode_scalar n @ bs) = n # decode_scalars bs"
proof -
  let ?b = "of_nat (0xe0 + n div 0x1000) :: byte"
  let ?c = "of_nat (0x80 + n div 0x40 mod 0x40) :: byte"
  have b: "unat ?b = 0xe0 + n div 0x1000" using assms by (intro unat_of_byte) linarith
  have c: "unat ?c = 0x80 + n div 0x40 mod 0x40" by (intro unat_of_byte) simp
  have lead: "\<not> ?b < 0x80" "\<not> ?b < 0xe0" "0xe0 \<le> ?b" "?b < 0xf0"
    using assms unfolding word_le_nat_alt word_less_nat_alt b by auto
  have ne: "?b \<noteq> 0xf0" "?b \<noteq> 0xf4"
    using assms unfolding word_unat_eq_iff b by auto
  have e0: "0xa0 \<le> ?c" if "?b = 0xe0"
  proof -
    from that have "n div 0x1000 = 0" unfolding word_unat_eq_iff b by simp
    then have "0x20 \<le> n div 0x40 mod 0x40"
      using assms(1) unfolding div_0x1000 mod_0x40 by linarith
    then show ?thesis unfolding word_le_nat_alt c by simp
  qed
  have ed: "?c < 0xa0" if "?b = 0xed"
  proof -
    from that have "n div 0x1000 = 13" unfolding word_unat_eq_iff b by simp
    then have "n div 0x40 mod 0x40 < 0x20"
      using assms(3) unfolding div_0x1000 mod_0x40 by linarith
    then show ?thesis unfolding word_less_nat_alt c by simp
  qed
  from e0 ed have "second_ok ?b ?c"
    using continuation_of_nat [of "n div 0x40 mod 0x40"] ne
    by (simp add: second_ok_def continuation_def del: of_nat_add)
  moreover have "encode_scalar n = [?b, ?c, of_nat (0x80 + n mod 0x40)]"
    using assms by (simp add: encode_scalar_def)
  ultimately show ?thesis
    using b lead digits_three [of n] by (simp add: continuation_of_nat payload6_of_nat del: of_nat_add)
qed

lemma decode_four:
  assumes "0x10000 \<le> n" and "n < 0x110000"
  shows "decode_scalars (encode_scalar n @ bs) = n # decode_scalars bs"
proof -
  let ?b = "of_nat (0xf0 + n div 0x40000) :: byte"
  let ?c = "of_nat (0x80 + n div 0x1000 mod 0x40) :: byte"
  have b: "unat ?b = 0xf0 + n div 0x40000" using assms by (intro unat_of_byte) linarith
  have c: "unat ?c = 0x80 + n div 0x1000 mod 0x40" by (intro unat_of_byte) simp
  have lead: "\<not> ?b < 0x80" "\<not> ?b < 0xe0" "\<not> ?b < 0xf0" "0xf0 \<le> ?b" "?b < 0xf5"
    using assms unfolding word_le_nat_alt word_less_nat_alt b by auto
  have ne: "?b \<noteq> 0xe0" "?b \<noteq> 0xed"
    using assms unfolding word_unat_eq_iff b by auto
  have f0: "0x90 \<le> ?c" if "?b = 0xf0"
  proof -
    from that have "n div 0x40000 = 0" unfolding word_unat_eq_iff b by simp
    then have "0x10 \<le> n div 0x1000 mod 0x40"
      using assms(1) unfolding div_0x40000 mod_0x40 by linarith
    then show ?thesis unfolding word_le_nat_alt c by simp
  qed
  have f4: "?c < 0x90" if "?b = 0xf4"
  proof -
    from that have "n div 0x40000 = 4" unfolding word_unat_eq_iff b by simp
    then have "n div 0x1000 mod 0x40 < 0x10"
      using assms(2) unfolding div_0x40000 mod_0x40 by linarith
    then show ?thesis unfolding word_less_nat_alt c by simp
  qed
  from f0 f4 have "second_ok ?b ?c"
    using continuation_of_nat [of "n div 0x1000 mod 0x40"] ne
    by (simp add: second_ok_def continuation_def del: of_nat_add)
  moreover have "encode_scalar n =
      [?b, ?c, of_nat (0x80 + n div 0x40 mod 0x40), of_nat (0x80 + n mod 0x40)]"
    using assms by (simp add: encode_scalar_def)
  ultimately show ?thesis
    using b lead digits_four [of n] by (simp add: continuation_of_nat payload6_of_nat del: of_nat_add)
qed

lemma decode_encode_scalar:
  assumes "scalar_value n"
  shows "decode_scalars (encode_scalar n @ bs) = n # decode_scalars bs"
proof -
  consider "n < 0x80" | "0x80 \<le> n" "n < 0x800" | "0x800 \<le> n" "n < 0x10000"
    | "0x10000 \<le> n" "n < 0x110000"
    using assms by (fastforce simp: scalar_value_def)
  then show ?thesis
  proof cases
    case 1
    then have "unat (of_nat n :: byte) = n" by (intro unat_of_byte) simp
    with 1 show ?thesis by (simp add: encode_scalar_def word_less_nat_alt)
  qed (use assms in \<open>simp_all add: decode_two decode_three decode_four scalar_value_def\<close>)
qed

lemma decode_scalars_encode:
  "\<forall>n \<in> set ns. scalar_value n \<Longrightarrow>
   decode_scalars (concat (map encode_scalar ns) @ bs) = ns @ decode_scalars bs"
  by (induction ns) (auto simp: decode_encode_scalar)

lemma utf8_decode_encode: "utf8_decode (utf8_encode s) = to_well_formed s"
  using decode_scalars_encode [OF scalars_are_scalar_values, of s "[]"]
  by (simp add: utf8_decode_def utf8_encode_def to_well_formed_def)

end
