(* ===== verification/Cbor_Utf8.thy ===== *)
theory Cbor_Utf8
  imports Js_Text
begin

text \<open>
  The three static helpers that \<open>core/src/plugins/babel-plugin-cbor-aot.js\<close> injects in
  every class: \<open>_utf8ByteLength\<close>, \<open>_writeString\<close> and \<open>_readString\<close>. The lemmas show
  that the length is the number of bytes written, that the bytes are the UTF-8 encoding
  of the language, and that reading them gives the string back.
\<close>

section \<open>The helpers\<close>

text \<open>\<open>_utf8ByteLength(str)\<close>.\<close>

fun utf8_byte_length :: "js_string \<Rightarrow> nat" where
  "utf8_byte_length [] = 0"
| "utf8_byte_length (c # cs) =
     (if c < 0x80 then 1 + utf8_byte_length cs
      else if c < 0x800 then 2 + utf8_byte_length cs
      else if 0xd800 \<le> c \<and> c < 0xdc00 then
        (case cs of
           c2 # cs' \<Rightarrow>
             if 0xdc00 \<le> c2 \<and> c2 < 0xe000 then 4 + utf8_byte_length cs'
             else 3 + utf8_byte_length cs
         | [] \<Rightarrow> 3 + utf8_byte_length cs)
      else if 0xdc00 \<le> c \<and> c < 0xe000 then 3 + utf8_byte_length cs
      else 3 + utf8_byte_length cs)"

text \<open>
  \<open>_writeString(str, buf, offset)\<close>: the loop stores through the cursor; the method
  returns the number of bytes it advanced by.
\<close>

fun write_string_loop :: "js_string \<Rightarrow> cursor \<Rightarrow> cursor" where
  "write_string_loop [] st = st"
| "write_string_loop (u # us) st =
     (let c = ucast u :: 32 word in
      if c < 0x80 then write_string_loop us (put (ucast c) st)
      else if c < 0x800 then
        write_string_loop us
          (put (ucast (0x80 OR (c AND 0x3f)))
          (put (ucast (0xc0 OR drop_bit 6 c)) st))
      else if 0xd800 \<le> c \<and> c < 0xdc00 then
        (case us of
           u2 # us' \<Rightarrow>
             if 0xdc00 \<le> u2 \<and> u2 < 0xe000 then
               (let c2 = ucast u2;
                    c' = 0x10000 + (push_bit 10 (c AND 0x3ff) OR (c2 AND 0x3ff))
                in write_string_loop us'
                     (put (ucast (0x80 OR (c' AND 0x3f)))
                     (put (ucast (0x80 OR (drop_bit 6 c' AND 0x3f)))
                     (put (ucast (0x80 OR (drop_bit 12 c' AND 0x3f)))
                     (put (ucast (0xf0 OR drop_bit 18 c')) st)))))
             else write_string_loop us (put 0xbd (put 0xbf (put 0xef st)))
         | [] \<Rightarrow> write_string_loop us (put 0xbd (put 0xbf (put 0xef st))))
      else if 0xdc00 \<le> c \<and> c < 0xe000 then
        write_string_loop us (put 0xbd (put 0xbf (put 0xef st)))
      else
        write_string_loop us
          (put (ucast (0x80 OR (c AND 0x3f)))
          (put (ucast (0x80 OR (drop_bit 6 c AND 0x3f)))
          (put (ucast (0xe0 OR drop_bit 12 c)) st))))"

definition write_string :: "js_string \<Rightarrow> byte list \<Rightarrow> nat \<Rightarrow> byte list \<times> nat" where
  "write_string str buf offset =
     (let st = write_string_loop str \<lparr>cbuf = buf, coff = offset\<rparr> in (cbuf st, coff st - offset))"

text \<open>
  \<open>_readString(buffer, start, length)\<close>. The loop reads its continuation bytes without
  looking at \<open>end\<close>; a stray continuation byte adds nothing to the result.
\<close>

function read_string_loop :: "byte list \<Rightarrow> nat \<Rightarrow> nat \<Rightarrow> js_string \<Rightarrow> js_string" where
  "read_string_loop buffer start end' res =
     (if start < end' then
        (let t = bits_of (read_at buffer (Some start));
             b1 = bits_of (read_at buffer (Some (start + 1))) AND 0x3f;
             b2 = bits_of (read_at buffer (Some (start + 2))) AND 0x3f;
             b3 = bits_of (read_at buffer (Some (start + 3))) AND 0x3f
         in if t \<le> 0x7f then
              read_string_loop buffer (start + 1) end' (res @ [ucast t])
            else if 0xc0 \<le> t \<and> t < 0xe0 then
              read_string_loop buffer (start + 2) end'
                (res @ [ucast (push_bit 6 (t AND 0x1f) OR b1)])
            else if 0xe0 \<le> t \<and> t < 0xf0 then
              read_string_loop buffer (start + 3) end'
                (res @ [ucast (push_bit 12 (t AND 0xf) OR push_bit 6 b1 OR b2)])
            else if 0xf0 \<le> t then
              (let t2 = (push_bit 18 (t AND 7) OR push_bit 12 b1 OR push_bit 6 b2 OR b3) - 0x10000
               in read_string_loop buffer (start + 4) end'
                    (res @ [ucast (0xd800 + signed_drop_bit 10 t2), ucast (0xdc00 + (t2 AND 0x3ff))]))
            else read_string_loop buffer (start + 1) end' res)
      else res)"
  by pat_completeness auto
termination
  by (relation "measure (\<lambda>(buffer, start, end', res). end' - start)") auto

declare read_string_loop.simps [simp del]

definition read_string :: "byte list \<Rightarrow> offset \<Rightarrow> nat option \<Rightarrow> js_error + js_string" where
  "read_string buffer start len =
     (case (start, len) of
        (Some s, Some n) \<Rightarrow>
          if s + n > length buffer then Inl (ValidationError UnexpectedEndOfBuffer)
          else Inr (read_string_loop buffer s (s + n) [])
      | _ \<Rightarrow> Inr [])"

section \<open>Writing\<close>

text \<open>A lead or continuation byte assembled with \<open>|\<close> is the sum the encoding states.\<close>

lemma ucast_or_prefix:
  fixes v :: "32 word"
  assumes v: "unat v < 2 ^ k" and p: "p AND mask k = 0" and small: "unat p + unat v < 256"
  shows "(ucast (p OR v) :: byte) = of_nat (unat p + unat v)"
proof -
  have "p AND v = 0"
  proof (rule bit_word_eqI)
    fix n assume "n < LENGTH(32)"
    have "bit (p AND mask k) n \<longleftrightarrow> bit (0 :: 32 word) n" using p by simp
    then show "bit (p AND v) n \<longleftrightarrow> bit (0 :: 32 word) n"
      using unat_less_no_bit [OF v, of n] \<open>n < LENGTH(32)\<close>
      by (cases "n < k") (auto simp: bit_simps)
  qed
  then have "unat (p OR v) = unat p + unat v" by (rule unat_or_disjoint)
  then have "of_nat (unat (p OR v)) = (of_nat (unat p + unat v) :: byte)" by simp
  then show ?thesis by (simp only: of_nat_unat)
qed

lemma mask_bytes:
  "(0x3f :: 32 word) = mask 6" "(0x3ff :: 32 word) = mask 10" "(0x1f :: 32 word) = mask 5"
  "(0x0f :: 32 word) = mask 4" "(7 :: 32 word) = mask 3"
  by (simp_all add: mask_eq_exp_minus_1)

lemma continuation_byte:
  "(ucast (0x80 OR (drop_bit k c AND 0x3f) :: 32 word) :: byte) = of_nat (0x80 + unat c div 2 ^ k mod 0x40)"
proof -
  have u: "unat (drop_bit k c AND 0x3f) = unat c div 2 ^ k mod 0x40"
    unfolding mask_bytes unat_and_mask unat_drop by simp
  have "(0x80 :: 32 word) AND mask 6 = 0" by (simp add: mask_eq_exp_minus_1)
  then have "(ucast (0x80 OR (drop_bit k c AND 0x3f) :: 32 word) :: byte)
      = of_nat (unat (0x80 :: 32 word) + unat (drop_bit k c AND 0x3f))"
    by (intro ucast_or_prefix [where k = 6]) (simp_all add: u)
  then show ?thesis by (simp add: u)
qed

lemma lead_byte:
  assumes "unat c div 2 ^ k < 2 ^ j" and "p AND mask j = 0" and "unat p + 2 ^ j \<le> 256"
  shows "(ucast (p OR drop_bit k c :: 32 word) :: byte) = of_nat (unat p + unat c div 2 ^ k)"
  using ucast_or_prefix [of "drop_bit k c" j p] assms by (simp add: unat_drop)

lemma bytes_two:
  assumes "0x80 \<le> unat c" and "unat c < 0x800"
  shows "[ucast (0xc0 OR drop_bit 6 c), ucast (0x80 OR (c AND 0x3f))] = encode_scalar (unat (c :: 32 word))"
  using assms lead_byte [of c 6 5 "0xc0"] continuation_byte [of 0 c]
  by (simp add: encode_scalar_def mask_eq_exp_minus_1)

lemma bytes_three:
  assumes "0x800 \<le> unat c" and "unat c < 0x10000"
  shows "[ucast (0xe0 OR drop_bit 12 c), ucast (0x80 OR (drop_bit 6 c AND 0x3f)),
      ucast (0x80 OR (c AND 0x3f))] = encode_scalar (unat (c :: 32 word))"
  using assms lead_byte [of c 12 4 "0xe0"] continuation_byte [of 0 c] continuation_byte [of 6 c]
  by (simp add: encode_scalar_def mask_eq_exp_minus_1)

lemma bytes_four:
  assumes "0x10000 \<le> unat c" and "unat c < 0x110000"
  shows "[ucast (0xf0 OR drop_bit 18 c), ucast (0x80 OR (drop_bit 12 c AND 0x3f)),
      ucast (0x80 OR (drop_bit 6 c AND 0x3f)), ucast (0x80 OR (c AND 0x3f))]
    = encode_scalar (unat (c :: 32 word))"
  using assms lead_byte [of c 18 3 "0xf0"] continuation_byte [of 0 c] continuation_byte [of 6 c]
    continuation_byte [of 12 c]
  by (simp add: encode_scalar_def mask_eq_exp_minus_1)

lemma replacement_bytes: "[0xef, 0xbf, 0xbd] = encode_scalar 0xfffd"
  by (simp add: encode_scalar_def)

text \<open>The code point the loop assembles from two surrogates.\<close>

lemma unat_ucast_unit [simp]: "unat (ucast (u :: code_unit) :: 32 word) = unat u"
  using unat_unit_less [of u] by (simp add: unsigned_ucast_eq take_bit_nat_eq_self)

lemma unat_joined:
  assumes "high_surrogate h" and "low_surrogate l"
  shows "unat (0x10000 + (push_bit 10 (ucast h AND 0x3ff) OR (ucast l AND 0x3ff)) :: 32 word) =
    join_surrogates h l"
proof -
  have h: "unat (ucast h AND 0x3ff :: 32 word) = unat h - 0xd800"
    and l: "unat (ucast l AND 0x3ff :: 32 word) = unat l - 0xdc00"
  proof -
    from assms obtain a b where "unat h = 54 * 1024 + a" "a < 1024" "unat l = 55 * 1024 + b" "b < 1024"
      by (auto simp: surrogate_unat le_iff_add)
    then show "unat (ucast h AND 0x3ff :: 32 word) = unat h - 0xd800"
      and "unat (ucast l AND 0x3ff :: 32 word) = unat l - 0xdc00"
      using mod_mult_self3 [of 54 1024 a] mod_mult_self3 [of 55 1024 b]
      unfolding mask_bytes unat_and_mask by simp_all
  qed
  have small: "unat h - 0xd800 < 1024" "unat l - 0xdc00 < 1024"
    using assms by (auto simp: surrogate_unat)
  then have "unat (push_bit 10 (ucast h AND 0x3ff) OR (ucast l AND 0x3ff) :: 32 word) =
      (unat h - 0xd800) * 1024 + (unat l - 0xdc00)"
    using unat_push_bit_or [of "ucast l AND 0x3ff" 10 "ucast h AND 0x3ff"]
    by (simp only: h l) simp
  then show ?thesis
    using small by (simp add: unat_word_ariths join_surrogates_def)
qed

declare utf8_byte_length.simps(2) [simp del] and write_string_loop.simps(2) [simp del]

text \<open>The tests of the loops, on the code unit as a number.\<close>

lemma unit_tests:
  "(ucast u :: 32 word) < 0x80 \<longleftrightarrow> unat u < 0x80"
  "(ucast u :: 32 word) < 0x800 \<longleftrightarrow> unat u < 0x800"
  "0xd800 \<le> (ucast u :: 32 word) \<and> (ucast u :: 32 word) < 0xdc00 \<longleftrightarrow> high_surrogate u"
  "0xdc00 \<le> (ucast u :: 32 word) \<and> (ucast u :: 32 word) < 0xe000 \<longleftrightarrow> low_surrogate u"
  "0xd800 \<le> u \<and> u < 0xdc00 \<longleftrightarrow> high_surrogate u"
  "0xdc00 \<le> u \<and> u < 0xe000 \<longleftrightarrow> low_surrogate u"
  "u < 0x80 \<longleftrightarrow> unat u < 0x80"
  "u < 0x800 \<longleftrightarrow> unat u < 0x800" for u :: code_unit
  by (simp_all add: word_less_nat_alt word_le_nat_alt surrogate_unat)

lemma surrogates_differ: "high_surrogate c \<Longrightarrow> \<not> low_surrogate c"
  unfolding surrogate_unat by linarith

lemma surrogate_large: "high_surrogate c \<or> low_surrogate c \<Longrightarrow> \<not> unat c < 0x800 \<and> \<not> unat c < 0x80"
  unfolding surrogate_unat by linarith

lemma utf8_byte_length_eq: "utf8_byte_length s = length (utf8_encode s)"
proof (induction "length s" arbitrary: s rule: less_induct)
  case less
  show ?case
  proof (cases s)
    case (Cons u us)
    have IH: "\<And>t. length t \<le> length us \<Longrightarrow> utf8_byte_length t = length (utf8_encode t)"
      using less by (simp add: Cons)
    note step = Cons utf8_byte_length.simps(2) [of u us]
    note facts = IH unit_tests utf8_encode_simps length_encode_scalar
    show ?thesis
    proof (cases rule: unit_cases [where u = u and us = us])
      case (pair d ds)
      then show ?thesis unfolding step
        using join_surrogates_bounds [of u d] by (simp add: facts surrogate_large)
    next
      case high
      then show ?thesis unfolding step by (simp add: facts surrogate_large)
    next
      case last
      then show ?thesis unfolding step by (simp add: facts surrogate_large)
    next
      case low
      then show ?thesis unfolding step
        using surrogates_differ [of u] by (auto simp: facts surrogate_large)
    next
      case three
      then show ?thesis unfolding step using unat_unit_less [of u] by (simp add: facts)
    qed (unfold step, simp_all add: facts not_surrogate_below)
  qed (simp add: utf8_encode_simps)
qed

lemma ucast_unit_byte [simp]: "(ucast (ucast (u :: code_unit) :: 32 word) :: byte) = ucast u"
  by (rule bit_word_eqI) (simp add: bit_simps)

lemma write_string_loop_eq: "write_string_loop s st = put_bytes (utf8_encode s) st"
proof (induction "length s" arbitrary: s st rule: less_induct)
  case less
  show ?case
  proof (cases s)
    case (Cons u us)
    have IH: "\<And>t st. length t \<le> length us \<Longrightarrow> write_string_loop t st = put_bytes (utf8_encode t) st"
      using less by (simp add: Cons)
    note step = Cons write_string_loop.simps(2) [of u us]
    note facts = IH Let_def unit_tests utf8_encode_simps
    show ?thesis
    proof (cases rule: unit_cases [where u = u and us = us])
      case one
      then show ?thesis unfolding step
        by (simp add: facts not_surrogate_below encode_scalar_def)
    next
      case two
      then show ?thesis unfolding step using bytes_two [of "ucast u", symmetric]
        by (simp add: facts not_surrogate_below)
    next
      case (pair d ds)
      then show ?thesis unfolding step
        using bytes_four [of "0x10000 + (push_bit 10 (ucast u AND 0x3ff) OR (ucast d AND 0x3ff))", symmetric]
          join_surrogates_bounds [of u d]
        by (simp add: facts surrogate_large unat_joined
          del: push_bit_and)
    next
      case (high d ds)
      then show ?thesis unfolding step
        by (simp add: facts surrogate_large
          replacement_bytes [symmetric])
    next
      case last
      then show ?thesis unfolding step
        by (simp add: facts surrogate_large
          replacement_bytes [symmetric])
    next
      case low
      then show ?thesis unfolding step using surrogates_differ [of u]
        by (auto simp: facts surrogate_large
          replacement_bytes [symmetric])
    next
      case three
      then show ?thesis unfolding step using bytes_three [of "ucast u", symmetric] unat_unit_less [of u]
        by (simp add: facts)
    qed
  qed (simp add: utf8_encode_simps)
qed

lemma write_string_eq:
  "write_string s buf off =
    (cbuf (put_bytes (utf8_encode s) \<lparr>cbuf = buf, coff = off\<rparr>), length (utf8_encode s))"
  by (simp add: write_string_def write_string_loop_eq Let_def)

section \<open>Reading\<close>

text \<open>The six low bits of a byte of an encoding, as the loop masks them out.\<close>

lemma unat_bits_byte:
  assumes "k < 256"
  shows "unat (bits_of (Some (of_nat k :: byte))) = k"
  using assms by (simp add: unsigned_ucast_eq take_bit_nat_eq_self unat_of_byte)

lemma unat_continuation_bits:
  assumes "k < 0x40"
  shows "unat (bits_of (Some (of_nat (0x80 + k) :: byte)) AND 0x3f) = k"
proof -
  have "unat (bits_of (Some (of_nat (0x80 + k) :: byte)) AND mask 6) = (0x80 + k) mod 64"
    using assms by (simp only: unat_and_mask unat_bits_byte) simp
  moreover have "(0x80 + k) mod 64 = k"
    using assms mod_mult_self3 [of 2 64 k] by simp
  ultimately show ?thesis by (simp only: mask_bytes)
qed

lemma unat_lead_bits:
  assumes "k < 2 ^ j" and "p mod 2 ^ j = 0" and "p + k < 256"
  shows "unat (bits_of (Some (of_nat (p + k) :: byte)) AND mask j) = k"
proof -
  have "(p + k) mod 2 ^ j = k" using assms(1,2) by (simp add: mod_add_eq [symmetric, of p])
  then show ?thesis using assms(3) by (simp only: unat_and_mask unat_bits_byte)
qed

lemma ucast_eq_of_nat: "ucast w = (of_nat (unat w) :: 'b::len word)" for w :: "'a::len word"
  by (simp only: of_nat_unat)

text \<open>One turn of the loop reads one scalar value back.\<close>

lemma reads_at:
  assumes "k < length xs"
  shows "read_at (pre @ xs @ post) (Some (length pre + k)) = Some (xs ! k)"
    and "k = 0 \<Longrightarrow> read_at (pre @ xs @ post) (Some (length pre)) = Some (xs ! 0)"
  using read_at_append_off [OF assms, of pre post] by auto

lemma read_one:
  assumes n: "n < 0x80" and e: "length pre < e"
  shows "read_string_loop (pre @ encode_scalar n @ post) (length pre) e res =
    read_string_loop (pre @ encode_scalar n @ post) (length pre + 1) e (res @ units_of_scalar n)"
proof -
  let ?t = "bits_of (Some (of_nat n :: byte))"
  have t: "unat ?t = n" using n by (intro unat_bits_byte) simp
  have enc: "encode_scalar n = [of_nat n]" using n by (simp add: encode_scalar_def)
  have "?t \<le> 0x7f" using n unfolding word_le_nat_alt t by simp
  moreover have "ucast ?t = (of_nat n :: code_unit)" by (simp only: ucast_eq_of_nat t)
  ultimately show ?thesis
    using e n reads_at [of 0 "[of_nat n]" pre post]
    by (subst read_string_loop.simps) (simp add: enc units_of_scalar_def Let_def del: bits_of_simps)
qed

lemma read_two:
  assumes n: "0x80 \<le> n" "n < 0x800" and e: "length pre < e"
  shows "read_string_loop (pre @ encode_scalar n @ post) (length pre) e res =
    read_string_loop (pre @ encode_scalar n @ post) (length pre + 2) e (res @ units_of_scalar n)"
proof -
  let ?b = "of_nat (0xc0 + n div 0x40) :: byte" and ?c = "of_nat (0x80 + n mod 0x40) :: byte"
  let ?t = "bits_of (Some ?b)"
  have t: "unat ?t = 0xc0 + n div 0x40" using n by (intro unat_bits_byte) linarith
  have enc: "encode_scalar n = [?b, ?c]" using n by (simp add: encode_scalar_def)
  have tests: "\<not> ?t \<le> 0x7f" "0xc0 \<le> ?t" "?t < 0xe0"
    using n unfolding word_le_nat_alt word_less_nat_alt t by auto
  have hi: "unat (?t AND 0x1f) = n div 0x40"
    using unat_lead_bits [of "n div 0x40" 5 "0xc0"] n by (simp only: mask_bytes) simp
  have lo: "unat (bits_of (Some ?c) AND 0x3f) = n mod 0x40"
    by (rule unat_continuation_bits) simp
  have "unat (push_bit 6 (?t AND 0x1f) OR (bits_of (Some ?c) AND 0x3f)) = n div 0x40 * 0x40 + n mod 0x40"
    using unat_push_bit_or [of "bits_of (Some ?c) AND 0x3f" 6 "?t AND 0x1f"] n
    by (simp only: hi lo) simp
  then have "ucast (push_bit 6 (?t AND 0x1f) OR (bits_of (Some ?c) AND 0x3f)) = (of_nat n :: code_unit)"
    by (simp only: ucast_eq_of_nat div_mult_mod_eq)
  then show ?thesis
    using e n tests reads_at [of 0 "[?b, ?c]" pre post] reads_at [of 1 "[?b, ?c]" pre post]
    by (subst read_string_loop.simps)
      (simp add: enc units_of_scalar_def Let_def del: bits_of_simps of_nat_add push_bit_and)
qed

lemma read_three:
  assumes n: "0x800 \<le> n" "n < 0x10000" and e: "length pre < e"
  shows "read_string_loop (pre @ encode_scalar n @ post) (length pre) e res =
    read_string_loop (pre @ encode_scalar n @ post) (length pre + 3) e (res @ units_of_scalar n)"
proof -
  let ?b = "of_nat (0xe0 + n div 0x1000) :: byte"
  let ?c = "of_nat (0x80 + n div 0x40 mod 0x40) :: byte" and ?d = "of_nat (0x80 + n mod 0x40) :: byte"
  let ?t = "bits_of (Some ?b)"
  let ?c6 = "bits_of (Some ?c) AND 0x3f" and ?d6 = "bits_of (Some ?d) AND 0x3f"
  have t: "unat ?t = 0xe0 + n div 0x1000" using n by (intro unat_bits_byte) linarith
  have enc: "encode_scalar n = [?b, ?c, ?d]" using n by (simp add: encode_scalar_def)
  have tests: "\<not> ?t \<le> 0x7f" "\<not> ?t < 0xe0" "0xe0 \<le> ?t" "?t < 0xf0"
    using n unfolding word_le_nat_alt word_less_nat_alt t by auto
  have hi: "unat (?t AND 0xf) = n div 0x1000"
    using unat_lead_bits [of "n div 0x1000" 4 "0xe0"] n by (simp only: mask_bytes) simp
  have c6: "unat ?c6 = n div 0x40 mod 0x40" and d6: "unat ?d6 = n mod 0x40"
    by (rule unat_continuation_bits, simp)+
  have low: "unat (push_bit 6 ?c6 OR ?d6) = n div 0x40 mod 0x40 * 0x40 + n mod 0x40"
    using unat_push_bit_or [of ?d6 6 ?c6] by (simp only: c6 d6) simp
  have "n div 0x40 mod 0x40 * 0x40 + n mod 0x40 < 0x1000" by linarith
  then have "unat (push_bit 12 (?t AND 0xf) OR (push_bit 6 ?c6 OR ?d6)) = n"
    using unat_push_bit_or [of "push_bit 6 ?c6 OR ?d6" 12 "?t AND 0xf"] n digits_three [of n]
    by (simp only: hi low) simp
  then have "ucast (push_bit 12 (?t AND 0xf) OR push_bit 6 ?c6 OR ?d6) = (of_nat n :: code_unit)"
    by (simp only: ucast_eq_of_nat or.assoc)
  then show ?thesis
    using e n tests reads_at [of 0 "[?b, ?c, ?d]" pre post] reads_at [of 1 "[?b, ?c, ?d]" pre post]
      reads_at [of 2 "[?b, ?c, ?d]" pre post]
    by (subst read_string_loop.simps)
      (simp add: enc units_of_scalar_def Let_def del: bits_of_simps of_nat_add push_bit_and)
qed

text \<open>The surrogates are computed from the code point less \<open>0x10000\<close>.\<close>

lemma surrogates_of_point:
  fixes w :: "32 word"
  assumes w: "unat w = n" and n: "0x10000 \<le> n" "n < 0x110000"
  shows "[ucast (0xd800 + signed_drop_bit 10 (w - 0x10000)), ucast (0xdc00 + ((w - 0x10000) AND 0x3ff))]
    = units_of_scalar n"
proof -
  let ?x = "w - 0x10000"
  have x: "unat ?x = n - 0x10000"
    using n w by (simp add: unat_sub_if_size word_le_nat_alt)
  have "\<not> bit ?x 31"
    by (rule unat_less_no_bit [of _ 20]) (use x n in simp_all)
  then have "signed_drop_bit 10 ?x = drop_bit 10 ?x"
    by (intro bit_word_eqI) (auto simp: bit_signed_drop_bit_iff bit_drop_bit_eq dest: bit_imp_le_length)
  then have "unat (0xd800 + signed_drop_bit 10 ?x) = 0xd800 + (n - 0x10000) div 0x400"
    using n by (simp add: unat_word_ariths unat_drop x)
  moreover have "unat (0xdc00 + (?x AND 0x3ff)) = 0xdc00 + (n - 0x10000) mod 0x400"
    unfolding mask_bytes unat_word_ariths unat_and_mask x by simp
  ultimately show ?thesis
    using n by (simp only: ucast_eq_of_nat units_of_scalar_def) simp
qed

lemma read_four:
  assumes n: "0x10000 \<le> n" "n < 0x110000" and e: "length pre < e"
  shows "read_string_loop (pre @ encode_scalar n @ post) (length pre) e res =
    read_string_loop (pre @ encode_scalar n @ post) (length pre + 4) e (res @ units_of_scalar n)"
proof -
  let ?b = "of_nat (0xf0 + n div 0x40000) :: byte"
  let ?c = "of_nat (0x80 + n div 0x1000 mod 0x40) :: byte"
  let ?d = "of_nat (0x80 + n div 0x40 mod 0x40) :: byte" and ?f = "of_nat (0x80 + n mod 0x40) :: byte"
  let ?t = "bits_of (Some ?b)"
  let ?c6 = "bits_of (Some ?c) AND 0x3f" and ?d6 = "bits_of (Some ?d) AND 0x3f"
    and ?f6 = "bits_of (Some ?f) AND 0x3f"
  let ?w = "push_bit 18 (?t AND 7) OR push_bit 12 ?c6 OR push_bit 6 ?d6 OR ?f6"
  have t: "unat ?t = 0xf0 + n div 0x40000" using n by (intro unat_bits_byte) linarith
  have enc: "encode_scalar n = [?b, ?c, ?d, ?f]" using n by (simp add: encode_scalar_def)
  have tests: "\<not> ?t \<le> 0x7f" "\<not> ?t < 0xe0" "\<not> ?t < 0xf0" "0xf0 \<le> ?t"
    using n unfolding word_le_nat_alt word_less_nat_alt t by auto
  have hi: "unat (?t AND 7) = n div 0x40000"
    using unat_lead_bits [of "n div 0x40000" 3 "0xf0"] n by (simp only: mask_bytes) simp
  have c6: "unat ?c6 = n div 0x1000 mod 0x40" and d6: "unat ?d6 = n div 0x40 mod 0x40"
    and f6: "unat ?f6 = n mod 0x40"
    by (rule unat_continuation_bits, simp)+
  have low: "unat (push_bit 6 ?d6 OR ?f6) = n div 0x40 mod 0x40 * 0x40 + n mod 0x40"
    using unat_push_bit_or [of ?f6 6 ?d6] by (simp only: d6 f6) simp
  have "n div 0x40 mod 0x40 * 0x40 + n mod 0x40 < 0x1000" by linarith
  then have mid: "unat (push_bit 12 ?c6 OR (push_bit 6 ?d6 OR ?f6)) =
      n div 0x1000 mod 0x40 * 0x1000 + (n div 0x40 mod 0x40 * 0x40 + n mod 0x40)"
    using unat_push_bit_or [of "push_bit 6 ?d6 OR ?f6" 12 ?c6] by (simp only: c6 low) simp
  have "n div 0x1000 mod 0x40 * 0x1000 + (n div 0x40 mod 0x40 * 0x40 + n mod 0x40) < 0x40000"
    by linarith
  then have "unat (push_bit 18 (?t AND 7) OR (push_bit 12 ?c6 OR (push_bit 6 ?d6 OR ?f6))) = n"
    using unat_push_bit_or [of "push_bit 12 ?c6 OR (push_bit 6 ?d6 OR ?f6)" 18 "?t AND 7"] n
      digits_four [of n]
    by (simp only: hi mid) simp
  then have "unat ?w = n" by (simp only: or.assoc)
  then show ?thesis
    using e n tests surrogates_of_point [of ?w n]
      reads_at [of 0 "[?b, ?c, ?d, ?f]" pre post] reads_at [of 1 "[?b, ?c, ?d, ?f]" pre post]
      reads_at [of 2 "[?b, ?c, ?d, ?f]" pre post] reads_at [of 3 "[?b, ?c, ?d, ?f]" pre post]
    by (subst read_string_loop.simps)
      (simp add: enc Let_def del: bits_of_simps of_nat_add push_bit_and)
qed

lemma read_scalar:
  assumes n: "scalar_value n" and e: "length pre < e"
  shows "read_string_loop (pre @ encode_scalar n @ post) (length pre) e res =
    read_string_loop (pre @ encode_scalar n @ post) (length pre + length (encode_scalar n)) e
      (res @ units_of_scalar n)"
proof -
  consider "n < 0x80" | "0x80 \<le> n" "n < 0x800" | "0x800 \<le> n" "n < 0x10000"
    | "0x10000 \<le> n" "n < 0x110000"
    using n by (fastforce simp: scalar_value_def)
  then show ?thesis
    by cases (use e in \<open>simp_all add: read_one read_two read_three read_four length_encode_scalar\<close>)
qed

lemma read_scalars:
  assumes "\<forall>n \<in> set ns. scalar_value n"
    and "e = length pre + length (concat (map encode_scalar ns))"
  shows "read_string_loop (pre @ concat (map encode_scalar ns) @ post) (length pre) e res =
    res @ concat (map units_of_scalar ns)"
  using assms
proof (induction ns arbitrary: pre res)
  case Nil
  then show ?case by (simp add: read_string_loop.simps)
next
  case (Cons n ns)
  let ?rest = "concat (map encode_scalar ns) @ post"
  have "length pre < e" using Cons.prems(2) by (cases "encode_scalar n") auto
  then have "read_string_loop (pre @ encode_scalar n @ ?rest) (length pre) e res =
      read_string_loop ((pre @ encode_scalar n) @ ?rest) (length (pre @ encode_scalar n)) e
        (res @ units_of_scalar n)"
    using Cons.prems(1) read_scalar [of n pre e ?rest res] by simp
  also have "\<dots> = (res @ units_of_scalar n) @ concat (map units_of_scalar ns)"
    using Cons.prems by (intro Cons.IH) simp_all
  finally show ?case by simp
qed

lemma read_string_utf8:
  "read_string (pre @ utf8_encode s @ post) (Some (length pre)) (Some (length (utf8_encode s))) =
    Inr (to_well_formed s)"
  using read_scalars [OF scalars_are_scalar_values [of s] refl, of pre post "[]"]
  by (simp add: read_string_def utf8_encode_def to_well_formed_def)

lemma read_string_past_end:
  "length buffer < s + n \<Longrightarrow>
   read_string buffer (Some s) (Some n) = Inl (ValidationError UnexpectedEndOfBuffer)"
  by (simp add: read_string_def)

end
