(* ===== verification/Cbor_Plugin.thy ===== *)
theory Cbor_Plugin
  imports Prelude
begin

text \<open>
  The compile-time half of \<open>core/src/plugins/babel-plugin-cbor-aot.js\<close>: the class
  declaration as the Babel visitor sees it, the extraction of a field's key, type and
  constraints, the three lists of statements the visitor builds for \<open>toCBOR\<close> and
  \<open>fromCBOR\<close>, and the rewritten class. A statement list holds one constructor for each
  template string of the source; \<open>Cbor_Runtime\<close> says what the statements do.
\<close>

section \<open>The syntax tree\<close>

text \<open>
  \<open>TSTypeRef\<close> is a type reference whose name is a plain identifier. A literal is the
  \<open>p.value.value\<close> of a constraint: \<open>NoValue\<close> stands for every expression without one,
  such as a negative number, for which the source reads \<open>undefined\<close>.
\<close>

datatype ts_type =
    TSBooleanKeyword | TSNumberKeyword | TSStringKeyword
  | TSArrayType | TSTypeRef js_string | TSOther

datatype prop_key = KeyIdentifier js_string | KeyStringLiteral js_string | KeyOther

datatype literal = NumLit rat | NoValue

datatype decorator =
    DecIdentifier js_string
  | DecCall js_string "(js_string \<times> literal) list option"
  | DecOther

record class_property =
  prop_key :: prop_key
  prop_decorators :: "decorator list"
  type_annotation :: "ts_type option"

text \<open>A limit starts as \<open>null\<close>; a literal without a value makes it \<open>undefined\<close>.\<close>

datatype limit = LNull | LUndef | LNum rat

datatype field_type = FBoolean | FNumber | FString | FArray | FUnsupported

record field =
  f_key :: js_string
  f_type :: field_type
  f_min :: limit
  f_max :: limit
  f_max_length :: limit

section \<open>The generated statements\<close>

datatype size_stmt = SizeAdd nat | SizeString js_string | SizeArray js_string

datatype write_stmt =
    WriteByte nat
  | WriteBoolean js_string
  | WriteNumber js_string
  | WriteString js_string
  | WriteArray js_string
  | WriteComment js_string

datatype read_stmt =
    SkipBytes nat
  | ReadBoolean js_string
  | ReadNumber js_string limit limit
  | ReadString js_string limit
  | ReadArray js_string

datatype class_element =
    ClassProperty class_property
  | OtherElement nat
  | InjToCBOR "size_stmt list" "write_stmt list"
  | InjReadString
  | InjUtf8ByteLength
  | InjWriteString
  | InjFromCBOR "read_stmt list"

record class_decl =
  cls_decorators :: "decorator list option"
  cls_body :: "class_element list"

record generated =
  size_stmts :: "size_stmt list"
  write_stmts :: "write_stmt list"
  read_stmts :: "read_stmt list"

section \<open>Keys, constraints and types\<close>

fun key_name :: "prop_key \<Rightarrow> js_string option" where
  "key_name (KeyIdentifier n) = Some n"
| "key_name (KeyStringLiteral n) = Some n"
| "key_name KeyOther = None"

fun limit_of :: "literal \<Rightarrow> limit" where
  "limit_of (NumLit r) = LNum r"
| "limit_of NoValue = LUndef"

text \<open>
  The \<open>filter\<close> over a property's decorators: \<open>@uint32\<close> sets \<open>min\<close> and \<open>max\<close>,
  \<open>@string\<close> sets \<open>maxLength\<close>; both are stripped, every other decorator is kept.
\<close>

fun uint32_entry :: "js_string \<times> literal \<Rightarrow> limit \<times> limit \<times> limit \<Rightarrow> limit \<times> limit \<times> limit" where
  "uint32_entry (n, l) (mn, mx, ml) =
     (if n = js ''min'' then limit_of l else mn, if n = js ''max'' then limit_of l else mx, ml)"

fun string_entry :: "js_string \<times> literal \<Rightarrow> limit \<times> limit \<times> limit \<Rightarrow> limit \<times> limit \<times> limit" where
  "string_entry (n, l) (mn, mx, ml) = (mn, mx, if n = js ''maxLength'' then limit_of l else ml)"

fun read_decorators ::
  "decorator list \<Rightarrow> limit \<times> limit \<times> limit \<Rightarrow> (limit \<times> limit \<times> limit) \<times> decorator list" where
  "read_decorators [] c = (c, [])"
| "read_decorators (d # ds) c =
     (case d of
        DecCall name arg \<Rightarrow>
          if name = js ''uint32'' then
            read_decorators ds (case arg of Some ps \<Rightarrow> fold uint32_entry ps c | None \<Rightarrow> c)
          else if name = js ''string'' then
            read_decorators ds (case arg of Some ps \<Rightarrow> fold string_entry ps c | None \<Rightarrow> c)
          else (let (c', ds') = read_decorators ds c in (c', d # ds'))
      | _ \<Rightarrow> (let (c', ds') = read_decorators ds c in (c', d # ds')))"

definition field_type_of :: "ts_type option \<Rightarrow> field_type" where
  "field_type_of t =
     (if t = Some TSBooleanKeyword \<or> t = Some (TSTypeRef (js ''Boolean'')) then FBoolean
      else if t = Some TSNumberKeyword \<or> t = Some (TSTypeRef (js ''Number'')) then FNumber
      else if t = Some TSStringKeyword \<or> t = Some (TSTypeRef (js ''String'')) then FString
      else if t = Some TSArrayType \<or> t = Some (TSTypeRef (js ''Array'')) then FArray
      else FUnsupported)"

definition field_of :: "class_property \<Rightarrow> field option" where
  "field_of p =
     (case key_name (prop_key p) of
        None \<Rightarrow> None
      | Some k \<Rightarrow>
          (let (mn, mx, ml) = fst (read_decorators (prop_decorators p) (LNull, LNull, LNull))
           in Some \<lparr>f_key = k, f_type = field_type_of (type_annotation p),
                    f_min = mn, f_max = mx, f_max_length = ml\<rparr>))"

definition fields_of :: "class_property list \<Rightarrow> field list" where
  "fields_of ps = List.map_filter field_of ps"

section \<open>Code generation\<close>

text \<open>The map header counts every property of the class, those without a usable key too.\<close>

definition gen_header :: "nat \<Rightarrow> generated" where
  "gen_header propLen =
     (if propLen < 24 then
        \<lparr>size_stmts = [SizeAdd 1], write_stmts = [WriteByte (0xa0 + propLen)], read_stmts = [SkipBytes 1]\<rparr>
      else if propLen \<le> 0xff then
        \<lparr>size_stmts = [SizeAdd 2], write_stmts = [WriteByte 0xb8, WriteByte propLen],
         read_stmts = [SkipBytes 2]\<rparr>
      else if propLen \<le> 0xffff then
        \<lparr>size_stmts = [SizeAdd 3],
         write_stmts = [WriteByte 0xb9, WriteByte (drop_bit 8 propLen), WriteByte (propLen AND 0xff)],
         read_stmts = [SkipBytes 3]\<rparr>
      else
        \<lparr>size_stmts = [SizeAdd 5],
         write_stmts = [WriteByte 0xba, WriteByte (drop_bit 24 propLen AND 0xff),
           WriteByte (drop_bit 16 propLen AND 0xff), WriteByte (drop_bit 8 propLen AND 0xff),
           WriteByte (propLen AND 0xff)],
         read_stmts = [SkipBytes 5]\<rparr>)"

text \<open>The key is written as a text string whose head has room for 23 units only.\<close>

definition gen_key :: "js_string \<Rightarrow> generated" where
  "gen_key k =
     \<lparr>size_stmts = [SizeAdd (1 + length k)],
      write_stmts = WriteByte (0x60 + length k) # map (\<lambda>c. WriteByte (unat c)) k,
      read_stmts = [SkipBytes (1 + length k)]\<rparr>"

definition gen_value :: "field \<Rightarrow> generated" where
  "gen_value f =
     (let k = f_key f in
      case f_type f of
        FBoolean \<Rightarrow> \<lparr>size_stmts = [SizeAdd 1], write_stmts = [WriteBoolean k], read_stmts = [ReadBoolean k]\<rparr>
      | FNumber \<Rightarrow> \<lparr>size_stmts = [SizeAdd 5], write_stmts = [WriteNumber k],
                    read_stmts = [ReadNumber k (f_min f) (f_max f)]\<rparr>
      | FString \<Rightarrow> \<lparr>size_stmts = [SizeString k], write_stmts = [WriteString k],
                    read_stmts = [ReadString k (f_max_length f)]\<rparr>
      | FArray \<Rightarrow> \<lparr>size_stmts = [SizeArray k], write_stmts = [WriteArray k], read_stmts = [ReadArray k]\<rparr>
      | FUnsupported \<Rightarrow> \<lparr>size_stmts = [], write_stmts = [WriteComment k], read_stmts = []\<rparr>)"

definition append_gen :: "generated \<Rightarrow> generated \<Rightarrow> generated" where
  "append_gen a b =
     \<lparr>size_stmts = size_stmts a @ size_stmts b, write_stmts = write_stmts a @ write_stmts b,
      read_stmts = read_stmts a @ read_stmts b\<rparr>"

fun gen_fields :: "field list \<Rightarrow> generated" where
  "gen_fields [] = \<lparr>size_stmts = [], write_stmts = [], read_stmts = []\<rparr>"
| "gen_fields (f # fs) = append_gen (append_gen (gen_key (f_key f)) (gen_value f)) (gen_fields fs)"

definition generate :: "class_property list \<Rightarrow> generated" where
  "generate ps = append_gen (gen_header (length ps)) (gen_fields (fields_of ps))"

section \<open>Does the generated text parse?\<close>

text \<open>
  The visitor parses the method texts with Babel's \<open>template\<close>, which is not part of the
  repository: \<open>accepts\<close> says which keys it takes in the positions the texts put them
  (\<open>this.\<dots>\<close>, \<open>const tag_\<dots>\<close>), identifier names that are not placeholders. The
  language rejects a text that declares a \<open>const\<close> twice: boolean and number fields both
  declare \<open>tag_<key>\<close>, a string field \<open>strTag_<key>\<close>, an array field \<open>arrTag_<key>\<close>. The key
  of an unsupported field stands in comments only; a line terminator in it would end the
  comment, and such keys are left out.
\<close>

definition line_terminator :: "code_unit \<Rightarrow> bool" where
  "line_terminator c \<longleftrightarrow> c = 10 \<or> c = 13 \<or> c = 0x2028 \<or> c = 0x2029"

fun declared :: "field \<Rightarrow> (nat \<times> js_string) list" where
  "declared f =
     (case f_type f of
        FBoolean \<Rightarrow> [(0, f_key f)] | FNumber \<Rightarrow> [(0, f_key f)]
      | FString \<Rightarrow> [(1, f_key f)] | FArray \<Rightarrow> [(2, f_key f)]
      | FUnsupported \<Rightarrow> [])"

definition code_parses :: "(js_string \<Rightarrow> bool) \<Rightarrow> field list \<Rightarrow> bool" where
  "code_parses accepts fs \<longleftrightarrow>
     list_all (\<lambda>f. if f_type f = FUnsupported then \<not> list_ex line_terminator (f_key f)
                   else accepts (f_key f)) fs \<and>
     distinct (concat (map declared fs))"

section \<open>The visitor\<close>

fun is_property :: "class_element \<Rightarrow> bool" where
  "is_property (ClassProperty _) = True"
| "is_property _ = False"

fun properties_of :: "class_element list \<Rightarrow> class_property list" where
  "properties_of [] = []"
| "properties_of (ClassProperty p # es) = p # properties_of es"
| "properties_of (_ # es) = properties_of es"

definition inject :: "generated \<Rightarrow> class_element list" where
  "inject g = [InjToCBOR (size_stmts g) (write_stmts g), InjReadString, InjUtf8ByteLength,
     InjWriteString, InjFromCBOR (read_stmts g)]"

text \<open>\<open>remove1\<close> is the \<open>splice\<close> of the first \<open>@cbor\<close> decorator.\<close>

definition class_declaration :: "(js_string \<Rightarrow> bool) \<Rightarrow> class_decl \<Rightarrow> js_error + class_decl" where
  "class_declaration accepts c =
     (case cls_decorators c of
        None \<Rightarrow> Inr c
      | Some ds \<Rightarrow>
          if ds = [] then Inr c
          else if DecIdentifier (js ''cbor'') \<notin> set ds then Inr c
          else
            (let ds' = remove1 (DecIdentifier (js ''cbor'')) ds;
                 properties = properties_of (cls_body c);
                 nonProperties = filter (\<lambda>e. \<not> is_property e) (cls_body c)
             in if code_parses accepts (fields_of properties) then
                  Inr (c\<lparr>cls_decorators := (if ds' = [] then None else Some ds'),
                         cls_body := nonProperties @ inject (generate properties)\<rparr>)
                else Inl JsSyntaxError))"

section \<open>What the visitor keeps\<close>

lemma append_gen_sel [simp]:
  "size_stmts (append_gen a b) = size_stmts a @ size_stmts b"
  "write_stmts (append_gen a b) = write_stmts a @ write_stmts b"
  "read_stmts (append_gen a b) = read_stmts a @ read_stmts b"
  by (simp_all add: append_gen_def)

lemma no_properties_left:
  "properties_of (filter (\<lambda>e. \<not> is_property e) es @ inject g) = []"
  by (induction es rule: properties_of.induct) (simp_all add: inject_def)

text \<open>
  Distinct keys that \<open>template\<close> accepts are enough for the code to parse.
\<close>

lemma declared_keys: "(i, k) \<in> set (declared f) \<Longrightarrow> k = f_key f"
  by (auto split: field_type.splits)

lemma distinct_declared: "distinct (map f_key fs) \<Longrightarrow> distinct (concat (map declared fs))"
proof (induction fs)
  case (Cons f fs)
  have "set (declared f) \<inter> set (concat (map declared fs)) = {}"
    using Cons.prems by (auto dest!: declared_keys simp del: declared.simps)
  moreover have "distinct (declared f)" by (auto split: field_type.split)
  ultimately show ?case using Cons by (simp del: declared.simps)
qed simp

lemma code_parses_distinct:
  "distinct (map f_key fs) \<Longrightarrow> 
   \<forall>f \<in> set fs. accepts (f_key f) \<and> f_type f \<noteq> FUnsupported \<Longrightarrow> code_parses accepts fs"
  by (simp add: code_parses_def distinct_declared list_all_iff)

text \<open>A class without the tag passes through.\<close>

lemma class_declaration_untagged:
  assumes "\<And>ds. cls_decorators c = Some ds \<Longrightarrow> DecIdentifier (js ''cbor'') \<notin> set ds"
  shows "class_declaration accepts c = Inr c"
proof (cases "cls_decorators c")
  case (Some ds)
  then show ?thesis using assms [OF Some] by (simp add: class_declaration_def del: js_Cons)
qed (simp add: class_declaration_def)

end
