(* ===== verification/Cbor_Runtime.thy ===== *)
theory Cbor_Runtime
  imports Cbor_Utf8 Cbor_Plugin
begin

text \<open>
  The run-time half of \<open>core/src/plugins/babel-plugin-cbor-aot.js\<close>: what the generated
  statements of \<open>toCBOR\<close> and \<open>fromCBOR\<close> do. An object is the map of its own
  properties; a missing one reads as \<open>undefined\<close>. The result of \<open>new this()\<close>, which runs
  the constructor of the user's class, is an argument of \<open>from_cbor\<close>.
\<close>

type_synonym js_object = "js_string \<rightharpoonup> js_val"

definition get_prop :: "js_object \<Rightarrow> js_string \<Rightarrow> js_val" where
  "get_prop obj k = (case obj k of None \<Rightarrow> JUndef | Some v \<Rightarrow> v)"

section \<open>The size pass\<close>

text \<open>
  \<open>_size\<close> is NaN (\<open>None\<close>) once the length of a number or a boolean has been added. The
  constants \<open>len_<key>\<close> and \<open>arrLen_<key>\<close> are kept for the write pass.
\<close>

record size_state =
  total :: "nat option"
  str_len :: "js_string \<Rightarrow> nat"
  arr_len :: "js_string \<Rightarrow> nat option"

definition init_size :: size_state where
  "init_size = \<lparr>total = Some 0, str_len = (\<lambda>_. 0), arr_len = (\<lambda>_. None)\<rparr>"

text \<open>
  \<open>_utf8ByteLength\<close> and \<open>_writeString\<close> loop over \<open>str.length\<close> and call \<open>charCodeAt\<close>:
  the code units they see of a value that need not be a string.
\<close>

fun string_view :: "js_val \<Rightarrow> js_error + js_string" where
  "string_view (JStr s) = Inr s"
| "string_view JUndef = Inl JsTypeError"
| "string_view JNull = Inl JsTypeError"
| "string_view (JBool _) = Inr []"
| "string_view (JNum _) = Inr []"
| "string_view (JArr xs) = (if xs = [] then Inr [] else Inl JsTypeError)"

fun length_of :: "js_val \<Rightarrow> js_error + nat option" where
  "length_of (JArr xs) = Inr (Some (length xs))"
| "length_of (JStr s) = Inr (Some (length s))"
| "length_of (JBool _) = Inr None"
| "length_of (JNum _) = Inr None"
| "length_of JUndef = Inl JsTypeError"
| "length_of JNull = Inl JsTypeError"

text \<open>The size of the head of a string or an array of the given length.\<close>

definition head_size :: "nat \<Rightarrow> nat" where
  "head_size n = (if n < 24 then 1 else if n \<le> 0xff then 2 else if n \<le> 0xffff then 3 else 5)"

fun exec_size :: "js_object \<Rightarrow> size_stmt \<Rightarrow> size_state \<Rightarrow> js_error + size_state" where
  "exec_size obj (SizeAdd n) st = Inr (st\<lparr>total := map_option (\<lambda>s. s + n) (total st)\<rparr>)"
| "exec_size obj (SizeString k) st =
     bind_res (string_view (get_prop obj k)) (\<lambda>s.
       let n = utf8_byte_length s
       in Inr (st\<lparr>total := map_option (\<lambda>t. t + (head_size n + n)) (total st),
                 str_len := (str_len st)(k := n)\<rparr>))"
| "exec_size obj (SizeArray k) st =
     bind_res (length_of (get_prop obj k)) (\<lambda>l.
       Inr (st\<lparr>total := (case l of None \<Rightarrow> None
                          | Some n \<Rightarrow> map_option (\<lambda>t. t + head_size n + n * 5) (total st)),
               arr_len := (arr_len st)(k := l)\<rparr>))"

section \<open>The write pass\<close>

text \<open>\<open>new Uint8Array(_size)\<close>: NaN gives the empty array.\<close>

definition alloc :: "nat option \<Rightarrow> byte list" where
  "alloc n = (case n of None \<Rightarrow> [] | Some k \<Rightarrow> replicate k 0)"

text \<open>The head of a string (\<open>base = 0x60\<close>) or an array (\<open>base = 0x80\<close>).\<close>

definition write_head :: "nat \<Rightarrow> nat \<Rightarrow> cursor \<Rightarrow> cursor" where
  "write_head base n c =
     (if n < 24 then put (of_nat (base + n)) c
      else if n \<le> 0xff then put (of_nat n) (put (of_nat (base + 0x18)) c)
      else if n \<le> 0xffff then put_bytes (be16 (of_nat n)) (put (of_nat (base + 0x19)) c)
      else put_bytes (be32 (of_nat n)) (put (of_nat (base + 0x1a)) c))"

text \<open>
  A number is written as tag and 32 bits; the field check of the source is
  \<open>Number.isInteger\<close> and the bounds of a signed 32-bit integer.
\<close>

definition write_int :: "js_num \<Rightarrow> cursor \<Rightarrow> cursor" where
  "write_int n c =
     (if num_ge0 n then put_bytes (be32 (to_int32 n)) (put 0x1a c)
      else put_bytes (be32 (to_int32 (neg_minus_one n))) (put 0x3a c))"

fun is_int32 :: "js_val \<Rightarrow> bool" where
  "is_int32 (JNum (Fin r)) = (of_int \<lfloor>r\<rfloor> = r \<and> - 2147483648 \<le> r \<and> r \<le> 2147483647)"
| "is_int32 _ = False"

text \<open>
  The numbers the array loop sees: the elements of an array, or the characters of a
  string, each coerced on its own (a digit to its value, white space to 0).
\<close>

definition white_space :: "code_unit \<Rightarrow> bool" where
  "white_space c \<longleftrightarrow>
     9 \<le> c \<and> c \<le> 13 \<or> c = 32 \<or> c = 0xa0 \<or> c = 0x1680 \<or> 0x2000 \<le> c \<and> c \<le> 0x200a \<or>
     c = 0x2028 \<or> c = 0x2029 \<or> c = 0x202f \<or> c = 0x205f \<or> c = 0x3000 \<or> c = 0xfeff"

definition unit_number :: "code_unit \<Rightarrow> js_num" where
  "unit_number c =
     (if 48 \<le> c \<and> c \<le> 57 then jint (uint c - 48) else if white_space c then Fin 0 else NaN)"

fun elements_of :: "js_val \<Rightarrow> js_num list" where
  "elements_of (JArr xs) = xs"
| "elements_of (JStr s) = map unit_number s"
| "elements_of _ = []"

fun write_elements :: "js_num list \<Rightarrow> cursor \<Rightarrow> cursor" where
  "write_elements [] c = c"
| "write_elements (x # xs) c = write_elements xs (write_int x c)"

fun num_of :: "js_val \<Rightarrow> js_num" where
  "num_of (JNum n) = n"
| "num_of _ = NaN"

fun exec_write :: "js_object \<Rightarrow> size_state \<Rightarrow> write_stmt \<Rightarrow> cursor \<Rightarrow> js_error + cursor" where
  "exec_write obj st (WriteByte n) c = Inr (put (of_nat n) c)"
| "exec_write obj st (WriteBoolean k) c = Inr (put (if truthy (get_prop obj k) then 0xf5 else 0xf4) c)"
| "exec_write obj st (WriteNumber k) c =
     (if is_int32 (get_prop obj k) then Inr (write_int (num_of (get_prop obj k)) c)
      else Inl (ValidationError (ExpectedInt32 k)))"
| "exec_write obj st (WriteString k) c =
     bind_res (string_view (get_prop obj k)) (\<lambda>s. Inr (write_string_loop s (write_head 0x60 (str_len st k) c)))"
| "exec_write obj st (WriteArray k) c =
     (case arr_len st k of
        Some n \<Rightarrow> Inr (write_elements (elements_of (get_prop obj k)) (write_head 0x80 n c))
      | None \<Rightarrow> Inr (put_bytes [0, 0, 0, 0] (put 0x9a c)))"
| "exec_write obj st (WriteComment k) c = Inr c"

definition to_cbor :: "generated \<Rightarrow> js_object \<Rightarrow> js_error + byte list" where
  "to_cbor g obj =
     bind_res (run_stmts (exec_size obj) (size_stmts g) init_size) (\<lambda>st.
     bind_res (run_stmts (exec_write obj st) (write_stmts g) \<lparr>cbuf = alloc (total st), coff = 0\<rparr>) (\<lambda>c.
       Inr (cbuf c)))"

section \<open>Reading\<close>

text \<open>\<open>val < limit\<close> and \<open>val > limit\<close>; a comparison with \<open>undefined\<close> is false.\<close>

fun below :: "int \<Rightarrow> limit \<Rightarrow> bool" where
  "below v (LNum r) = (of_int v < r)"
| "below v _ = False"

fun above :: "int \<Rightarrow> limit \<Rightarrow> bool" where
  "above v (LNum r) = (of_int v > r)"
| "above v _ = False"

text \<open>
  A number after its tag byte: \<open>0x1a\<close> an unsigned value, \<open>0x3a\<close> a negative one. A tag of
  any other kind, \<open>undefined\<close> included, is an error of the caller's choice.
\<close>

definition read_int :: "validation \<Rightarrow> byte list \<Rightarrow> offset \<Rightarrow> js_error + int \<times> offset" where
  "read_int err buf off =
     (let tag = read_at buf off; u = uint (read_be32 buf (advance 1 off))
      in if tag = Some 0x1a then Inr (u, advance 5 off)
         else if tag = Some 0x3a then Inr (- u - 1, advance 5 off)
         else Inl (ValidationError err))"

text \<open>
  The length after a string tag (\<open>base = 0x60\<close>) or an array tag (\<open>base = 0x80\<close>). A one-byte
  length past the end of the buffer is \<open>undefined\<close> (\<open>None\<close>).
\<close>

definition read_head :: "byte \<Rightarrow> validation \<Rightarrow> byte list \<Rightarrow> offset \<Rightarrow> js_error + nat option \<times> offset" where
  "read_head base err buf off =
     (case read_at buf off of
        None \<Rightarrow> Inl (ValidationError err)
      | Some tag \<Rightarrow>
          if base \<le> tag \<and> tag < base + 0x18 then Inr (Some (unat (tag - base)), advance 1 off)
          else if tag = base + 0x18 then
            Inr (map_option unat (read_at buf (advance 1 off)), advance 2 off)
          else if tag = base + 0x19 then
            Inr (Some (unat (read_be16 buf (advance 1 off))), advance 3 off)
          else if tag = base + 0x1a then
            Inr (Some (unat (read_be32 buf (advance 1 off))), advance 5 off)
          else Inl (ValidationError err))"

fun read_elements :: "validation \<Rightarrow> nat \<Rightarrow> byte list \<Rightarrow> offset \<Rightarrow> js_error + js_num list \<times> offset" where
  "read_elements err 0 buf off = Inr ([], off)"
| "read_elements err (Suc n) buf off =
     bind_res (read_int err buf off) (\<lambda>(v, off1).
     bind_res (read_elements err n buf off1) (\<lambda>(vs, off2). Inr (jint v # vs, off2)))"

text \<open>\<open>strLen > maxLength\<close>, false when either side is \<open>undefined\<close>.\<close>

fun too_long :: "nat option \<Rightarrow> limit \<Rightarrow> bool" where
  "too_long (Some n) (LNum r) = (of_nat n > r)"
| "too_long _ _ = False"

text \<open>\<open>_offset += strLen\<close>: NaN when the length is \<open>undefined\<close>.\<close>

definition skip_len :: "nat option \<Rightarrow> offset \<Rightarrow> offset" where
  "skip_len n off = (case n of None \<Rightarrow> None | Some k \<Rightarrow> advance k off)"

text \<open>
  \<open>new Array(undefined)\<close> is the array of one \<open>undefined\<close>, which coerces to NaN.
\<close>

fun exec_read ::
  "byte list \<Rightarrow> read_stmt \<Rightarrow> offset \<times> js_object \<Rightarrow> js_error + offset \<times> js_object" where
  "exec_read buf (SkipBytes n) (off, obj) = Inr (advance n off, obj)"
| "exec_read buf (ReadBoolean k) (off, obj) =
     (let tag = read_at buf off
      in if tag = Some 0xf5 then Inr (advance 1 off, obj(k \<mapsto> JBool True))
         else if tag = Some 0xf4 then Inr (advance 1 off, obj(k \<mapsto> JBool False))
         else Inl (ValidationError (ExpectedBoolean k)))"
| "exec_read buf (ReadNumber k mn mx) (off, obj) =
     bind_res (read_int (ExpectedInt32 k) buf off) (\<lambda>(v, off1).
       if below v mn \<or> above v mx then Inl (ValidationError (BoundaryCheck k))
       else Inr (off1, obj(k \<mapsto> JNum (jint v))))"
| "exec_read buf (ReadString k ml) (off, obj) =
     bind_res (read_head 0x60 (ExpectedString k) buf off) (\<lambda>(n, off1).
       if too_long n ml then Inl (ValidationError (StringTooLong k))
       else bind_res (read_string buf off1 n) (\<lambda>s.
         Inr (skip_len n off1, obj(k \<mapsto> JStr s))))"
| "exec_read buf (ReadArray k) (off, obj) =
     bind_res (read_head 0x80 (ExpectedArray k) buf off) (\<lambda>(n, off1).
       case n of
         None \<Rightarrow> Inr (off1, obj(k \<mapsto> JArr [NaN]))
       | Some len \<Rightarrow>
           bind_res (read_elements (ExpectedInt32Element k) len buf off1) (\<lambda>(xs, off2).
             Inr (off2, obj(k \<mapsto> JArr xs))))"

definition from_cbor :: "generated \<Rightarrow> js_object \<Rightarrow> byte list \<Rightarrow> js_error + js_object" where
  "from_cbor g new_obj buf =
     bind_res (run_stmts (exec_read buf) (read_stmts g) (Some 0, new_obj)) (\<lambda>(off, obj). Inr obj)"

end
