(* ===== verification/Cbor_Codec.thy ===== *)
theory Cbor_Codec
  imports Cbor_Runtime
begin

text \<open>
  What the generated code writes for one value and how it reads it back. The interface
  \<open>wire_codec\<close> states what a writer, a reader and their byte format promise each other;
  its client lemmas lift the promise to runs of items. It is interpreted for the 32-bit
  integers, the length heads and the strings of the generated code.
\<close>

section \<open>The interface of a writer and a reader\<close>

fun write_many :: "('a \<Rightarrow> cursor \<Rightarrow> cursor) \<Rightarrow> 'a list \<Rightarrow> cursor \<Rightarrow> cursor" where
  "write_many wr [] c = c"
| "write_many wr (x # xs) c = write_many wr xs (wr x c)"

fun read_many ::
  "(byte list \<Rightarrow> offset \<Rightarrow> js_error + 'b \<times> offset) \<Rightarrow> nat \<Rightarrow> byte list \<Rightarrow> offset \<Rightarrow>
   js_error + 'b list \<times> offset" where
  "read_many rd 0 buf off = Inr ([], off)"
| "read_many rd (Suc n) buf off =
     bind_res (rd buf off) (\<lambda>(v, off1).
     bind_res (read_many rd n buf off1) (\<lambda>(vs, off2). Inr (v # vs, off2)))"

locale wire_writer =
  fixes enc :: "'a \<Rightarrow> byte list"
    and wr :: "'a \<Rightarrow> cursor \<Rightarrow> cursor"
  assumes wr_enc: "wr x c = put_bytes (enc x) c"
begin

lemma write_many_enc: "write_many wr xs c = put_bytes (concat (map enc xs)) c"
  by (induction xs arbitrary: c) (simp_all add: wr_enc put_bytes_append)

lemma wr_offset: "coff (wr x c) = coff c + length (enc x)"
  by (simp add: wr_enc)

end

locale wire_codec = wire_writer enc wr
  for enc :: "'a \<Rightarrow> byte list" and wr :: "'a \<Rightarrow> cursor \<Rightarrow> cursor" +
  fixes rd :: "byte list \<Rightarrow> offset \<Rightarrow> js_error + 'b \<times> offset"
    and valid :: "'a \<Rightarrow> bool"
    and value_of :: "'a \<Rightarrow> 'b"
  assumes rd_enc: "valid x \<Longrightarrow>
    rd (pre @ enc x @ post) (Some (length pre)) = Inr (value_of x, Some (length pre + length (enc x)))"
begin

lemma read_many_enc:
  "list_all valid xs \<Longrightarrow>
   read_many rd (length xs) (pre @ concat (map enc xs) @ post) (Some (length pre)) =
     Inr (map value_of xs, Some (length pre + length (concat (map enc xs))))"
proof (induction xs arbitrary: pre)
  case (Cons x xs)
  have "rd (pre @ enc x @ (concat (map enc xs) @ post)) (Some (length pre)) =
      Inr (value_of x, Some (length (pre @ enc x)))"
    using Cons.prems by (simp add: rd_enc)
  moreover have "read_many rd (length xs) ((pre @ enc x) @ concat (map enc xs) @ post)
        (Some (length (pre @ enc x))) =
      Inr (map value_of xs, Some (length (pre @ enc x) + length (concat (map enc xs))))"
    using Cons.prems by (intro Cons.IH) simp
  ultimately show ?case by simp
qed simp

text \<open>What was written can be read: the writer's bytes at the writer's offset.\<close>

lemma write_then_read:
  assumes "valid x" and "length (enc x) \<le> length rest"
  shows "rd (cbuf (wr x \<lparr>cbuf = pre @ rest, coff = length pre\<rparr>)) (Some (length pre)) =
    Inr (value_of x, Some (coff (wr x \<lparr>cbuf = pre @ rest, coff = length pre\<rparr>)))"
  using assms by (simp add: wr_enc put_bytes_fits rd_enc)

end

section \<open>Integers\<close>

definition int_item :: "js_num \<Rightarrow> byte list" where
  "int_item n =
     (if num_ge0 n then 0x1a # be32 (to_int32 n) else 0x3a # be32 (to_int32 (neg_minus_one n)))"

definition wide_int :: "js_num \<Rightarrow> bool" where
  "wide_int n \<longleftrightarrow> (\<exists>i. n = jint i \<and> - (2 ^ 32) \<le> i \<and> i < 2 ^ 32)"

fun int_of :: "js_num \<Rightarrow> int" where
  "int_of (Fin r) = \<lfloor>r\<rfloor>"
| "int_of _ = 0"

lemma length_int_item [simp]: "length (int_item n) = 5"
  by (simp add: int_item_def)

lemma read_be32_after_tag:
  "read_be32 (pre @ (t # be32 w) @ post) (Some (length pre + 1)) = w"
  using read_be32_append [of "pre @ [t]" w post] by simp

lemma read_int_item:
  assumes "wide_int n"
  shows "read_int err (pre @ int_item n @ post) (Some (length pre)) =
    Inr (int_of n, Some (length pre + length (int_item n)))"
proof -
  obtain i where n: "n = jint i" and i: "- (2 ^ 32) \<le> i" "i < 2 ^ 32"
    using assms by (auto simp: wide_int_def)
  show ?thesis
  proof (cases "0 \<le> i")
    case True
    then have "int_item n = 0x1a # be32 (word_of_int i)" by (simp add: int_item_def n)
    moreover have "uint (word_of_int i :: 32 word) = i"
      using True i by (simp add: unsigned_of_int take_bit_int_eq_self)
    ultimately show ?thesis
      using read_at_append [of pre "0x1a"] read_be32_after_tag [of pre "0x1a" "word_of_int i" post]
      by (simp add: read_int_def Let_def n)
  next
    case False
    define w :: "32 word" where "w = word_of_int (- i - 1)"
    have "int_item n = 0x3a # be32 w" using False by (simp add: int_item_def n w_def)
    moreover have "uint w = - i - 1"
      unfolding w_def using False i take_bit_int_eq_self [of "- i - 1" 32]
      by (simp only: unsigned_of_int) simp
    ultimately show ?thesis
      using read_at_append [of pre "0x3a"] read_be32_after_tag [of pre "0x3a" w post]
      by (simp add: read_int_def Let_def n)
  qed
qed

lemma write_int_item: "write_int n c = put_bytes (int_item n) c"
  by (simp add: write_int_def int_item_def)

interpretation int32: wire_codec int_item write_int "read_int err" wide_int int_of for err
  by unfold_locales (simp_all add: write_int_item read_int_item del: length_int_item)

section \<open>Heads\<close>

definition head_bytes :: "nat \<Rightarrow> nat \<Rightarrow> byte list" where
  "head_bytes base n =
     (if n < 24 then [of_nat (base + n)]
      else if n \<le> 0xff then [of_nat (base + 0x18), of_nat n]
      else if n \<le> 0xffff then of_nat (base + 0x19) # be16 (of_nat n)
      else of_nat (base + 0x1a) # be32 (of_nat n))"

lemma length_head_bytes [simp]: "length (head_bytes base n) = head_size n"
  by (simp add: head_bytes_def head_size_def)

lemma write_head_bytes: "write_head base n c = put_bytes (head_bytes base n) c"
  by (simp add: write_head_def head_bytes_def)

lemma read_head_bytes:
  fixes base :: byte
  assumes base: "unat base < 0xe0" and n: "n < 2 ^ 32"
  shows "read_head base err (pre @ head_bytes (unat base) n @ post) (Some (length pre)) =
    Inr (Some n, Some (length pre + length (head_bytes (unat base) n)))"
proof -
  have step: "unat (base + of_nat k) = unat base + k" if "k < 0x20" for k
    using base that by (simp add: unat_word_ariths unat_of_nat)
  have tag: "(of_nat (unat base + k) :: byte) = base + of_nat k" for k by simp
  consider (tiny) "n < 24" | (byte) "24 \<le> n" "n \<le> 0xff" | (half) "0xff < n" "n \<le> 0xffff"
    | (full) "0xffff < n" by linarith
  then show ?thesis
  proof cases
    case tiny
    then have "unat (base + of_nat n) = unat base + n" by (intro step) simp
    moreover have "unat (base + 0x18) = unat base + 24" using step [of 24] by simp
    moreover have "head_bytes (unat base) n = [base + of_nat n]"
      using tiny by (simp add: head_bytes_def)
    ultimately show ?thesis
      using tiny read_at_append [of pre "base + of_nat n" post]
      by (simp add: read_head_def word_le_nat_alt word_less_nat_alt unat_of_nat)
  next
    case byte
    have "head_bytes (unat base) n = [base + 0x18, of_nat n]"
      using byte tag [of 24] by (simp add: head_bytes_def)
    moreover have "unat (of_nat n :: byte) = n" using byte by (intro unat_of_byte) simp
    ultimately show ?thesis
      using byte read_at_append [of pre "base + 0x18" "of_nat n # post"]
        read_at_append [of "pre @ [base + 0x18]" "of_nat n" post]
      by (simp add: read_head_def head_size_def)
  next
    case half
    have "head_bytes (unat base) n = (base + 0x19) # be16 (of_nat n)"
      using half tag [of 25] by (simp add: head_bytes_def)
    moreover have "unat (base + 0x19) = unat base + 25" "unat (base + 0x18) = unat base + 24"
      using step [of 25] step [of 24] by simp_all
    moreover have "read_be16 ((pre @ [base + 0x19]) @ be16 (of_nat n) @ post)
        (Some (length (pre @ [base + 0x19]))) = of_nat n"
      using half by (intro read_be16_append) (simp add: uint_nat unat_of_nat)
    moreover have "unat (of_nat n :: 32 word) = n" using n by (simp add: unat_of_nat)
    ultimately show ?thesis
      using half read_at_append [of pre "base + 0x19" "be16 (of_nat n) @ post"]
      by (simp add: read_head_def head_size_def word_less_nat_alt word_unat_eq_iff)
  next
    case full
    have "head_bytes (unat base) n = (base + 0x1a) # be32 (of_nat n)"
      using full tag [of 26] by (simp add: head_bytes_def)
    moreover have "unat (base + 0x1a) = unat base + 26" "unat (base + 0x19) = unat base + 25"
      "unat (base + 0x18) = unat base + 24"
      using step [of 26] step [of 25] step [of 24] by simp_all
    moreover have "unat (of_nat n :: 32 word) = n" using n by (simp add: unat_of_nat)
    ultimately show ?thesis
      using full read_at_append [of pre "base + 0x1a" "be32 (of_nat n) @ post"]
        read_be32_append [of "pre @ [base + 0x1a]" "of_nat n" post]
      by (simp add: read_head_def head_size_def word_less_nat_alt word_unat_eq_iff)
  qed
qed

interpretation text_head: wire_codec "head_bytes 0x60" "write_head 0x60" "read_head 0x60 err"
    "\<lambda>n. n < 2 ^ 32" Some for err
  using read_head_bytes [of "0x60"]
  by unfold_locales (simp_all add: write_head_bytes del: length_head_bytes)

interpretation array_head: wire_codec "head_bytes 0x80" "write_head 0x80" "read_head 0x80 err"
    "\<lambda>n. n < 2 ^ 32" Some for err
  using read_head_bytes [of "0x80"]
  by unfold_locales (simp_all add: write_head_bytes del: length_head_bytes)

end
