(* ===== verification/Cbor_Roundtrip.thy ===== *)
theory Cbor_Roundtrip
  imports Cbor_Codec
begin

text \<open>
  The generated \<open>toCBOR\<close> and \<open>fromCBOR\<close> as whole methods: the bytes \<open>toCBOR\<close> returns,
  the error it throws, the size pass against the write pass, and \<open>fromCBOR\<close> as the inverse
  of \<open>toCBOR\<close>.
\<close>

section \<open>The bytes of an object\<close>

definition key_bytes :: "js_string \<Rightarrow> byte list" where
  "key_bytes k = of_nat (0x60 + length k) # map ucast k"

fun value_bytes :: "field_type \<Rightarrow> js_val \<Rightarrow> byte list" where
  "value_bytes FBoolean v = [if truthy v then 0xf5 else 0xf4]"
| "value_bytes FNumber v = int_item (num_of v)"
| "value_bytes FString (JStr s) = head_bytes 0x60 (length (utf8_encode s)) @ utf8_encode s"
| "value_bytes FArray (JArr xs) = head_bytes 0x80 (length xs) @ concat (map int_item xs)"
| "value_bytes _ _ = []"

definition field_bytes :: "js_object \<Rightarrow> field \<Rightarrow> byte list" where
  "field_bytes obj f = key_bytes (f_key f) @ value_bytes (f_type f) (get_prop obj (f_key f))"

definition object_bytes :: "js_object \<Rightarrow> field list \<Rightarrow> byte list" where
  "object_bytes obj fs = concat (map (field_bytes obj) fs)"

text \<open>
  Objects whose string fields hold strings and whose array fields hold arrays, as the type
  annotations of the class say. Number fields are checked by the code itself.
\<close>

fun is_str :: "js_val \<Rightarrow> bool" where
  "is_str (JStr _) = True"
| "is_str _ = False"

fun is_arr :: "js_val \<Rightarrow> bool" where
  "is_arr (JArr _) = True"
| "is_arr _ = False"

definition annotated :: "js_object \<Rightarrow> field \<Rightarrow> bool" where
  "annotated obj f \<longleftrightarrow>
     (f_type f = FString \<longrightarrow> is_str (get_prop obj (f_key f))) \<and>
     (f_type f = FArray \<longrightarrow> is_arr (get_prop obj (f_key f)))"

definition bad_number :: "js_object \<Rightarrow> field \<Rightarrow> bool" where
  "bad_number obj f \<longleftrightarrow> f_type f = FNumber \<and> \<not> is_int32 (get_prop obj (f_key f))"

lemma is_strE: assumes "is_str v" obtains s where "v = JStr s"
  using assms by (cases v) auto

lemma is_arrE: assumes "is_arr v" obtains xs where "v = JArr xs"
  using assms by (cases v) auto

section \<open>The size pass\<close>

definition units_of :: "js_val \<Rightarrow> js_string" where
  "units_of v = (case v of JStr s \<Rightarrow> s | _ \<Rightarrow> [])"

definition sizes_after :: "js_object \<Rightarrow> field list \<Rightarrow> size_state \<Rightarrow> size_state" where
  "sizes_after obj fs st =
     \<lparr>total = map_option (\<lambda>t. t + length (object_bytes obj fs)) (total st),
      str_len = (\<lambda>k. if \<exists>f \<in> set fs. f_type f = FString \<and> f_key f = k
                      then utf8_byte_length (units_of (get_prop obj k)) else str_len st k),
      arr_len = (\<lambda>k. if \<exists>f \<in> set fs. f_type f = FArray \<and> f_key f = k
                      then Some (length (elements_of (get_prop obj k))) else arr_len st k)\<rparr>"

lemma length_concat_items [simp]: "length (concat (map int_item xs)) = length xs * 5"
  by (induction xs) simp_all

lemma length_key_bytes [simp]: "length (key_bytes k) = Suc (length k)"
  by (simp add: key_bytes_def)

lemma exec_size_field:
  assumes "annotated obj f"
  shows "run_stmts (exec_size obj) (size_stmts (append_gen (gen_key (f_key f)) (gen_value f))) st =
    Inr (sizes_after obj [f] st)"
proof (cases "f_type f")
  case FString
  then obtain s where "get_prop obj (f_key f) = JStr s"
    using assms by (auto simp: annotated_def elim: is_strE)
  then show ?thesis
    by (simp add: FString gen_key_def gen_value_def sizes_after_def object_bytes_def field_bytes_def
      units_of_def utf8_byte_length_eq Let_def fun_eq_iff option.map_comp o_def add.assoc)
next
  case FArray
  then obtain xs where "get_prop obj (f_key f) = JArr xs"
    using assms by (auto simp: annotated_def elim: is_arrE)
  then show ?thesis
    by (simp add: FArray gen_key_def gen_value_def sizes_after_def object_bytes_def field_bytes_def
      Let_def fun_eq_iff option.map_comp o_def add.assoc)
qed (simp_all add: gen_key_def gen_value_def sizes_after_def object_bytes_def field_bytes_def
      Let_def option.map_comp o_def ac_simps)

lemma sizes_after_Cons: "sizes_after obj fs (sizes_after obj [f] st) = sizes_after obj (f # fs) st"
  by (auto simp: sizes_after_def object_bytes_def fun_eq_iff option.map_comp o_def add.assoc)

lemma exec_size_fields:
  "list_all (annotated obj) fs \<Longrightarrow>
   run_stmts (exec_size obj) (size_stmts (gen_fields fs)) st = Inr (sizes_after obj fs st)"
proof (induction fs arbitrary: st)
  case Nil
  then show ?case by (cases st) (simp add: sizes_after_def object_bytes_def option.map_ident)
next
  case (Cons f fs)
  then show ?case
    using exec_size_field [of obj f st]
    by (simp only: gen_fields.simps append_gen_sel [of _ "gen_fields fs"]
      run_stmts_append [of _ _ "size_stmts (gen_fields fs)"] list.pred_inject
      bind_res.simps sizes_after_Cons)
qed

section \<open>The write pass\<close>

text \<open>The constants of the size pass that the write pass of a field uses.\<close>

definition lens_for :: "js_object \<Rightarrow> size_state \<Rightarrow> field \<Rightarrow> bool" where
  "lens_for obj st f \<longleftrightarrow>
     (f_type f = FString \<longrightarrow> str_len st (f_key f) = utf8_byte_length (units_of (get_prop obj (f_key f)))) \<and>
     (f_type f = FArray \<longrightarrow> arr_len st (f_key f) = Some (length (elements_of (get_prop obj (f_key f)))))"

lemma sizes_after_lens: "f \<in> set fs \<Longrightarrow> lens_for obj (sizes_after obj fs st) f"
  by (auto simp: lens_for_def sizes_after_def)

lemma write_elements_many: "write_elements xs c = write_many write_int xs c"
  by (induction xs arbitrary: c) simp_all

lemma exec_write_bytes: "run_stmts (exec_write obj st) (map WriteByte ns) c = Inr (put_bytes (map of_nat ns) c)"
  by (induction ns arbitrary: c) simp_all

lemma exec_write_key:
  "run_stmts (exec_write obj st) (write_stmts (gen_key k)) c = Inr (put_bytes (key_bytes k) c)"
  using exec_write_bytes [of obj st "(0x60 + length k) # map unat k" c]
  by (simp add: gen_key_def key_bytes_def o_def)

lemma exec_write_field:
  assumes "annotated obj f" and "lens_for obj st f"
  shows "run_stmts (exec_write obj st) (write_stmts (append_gen (gen_key (f_key f)) (gen_value f))) c =
    (if bad_number obj f then Inl (ValidationError (ExpectedInt32 (f_key f)))
     else Inr (put_bytes (field_bytes obj f) c))"
proof (cases "f_type f")
  case FString
  then obtain s where "get_prop obj (f_key f) = JStr s"
    using assms(1) by (auto simp: annotated_def elim: is_strE)
  then show ?thesis
    using assms(2)
    by (simp add: FString gen_value_def run_stmts_append exec_write_key field_bytes_def bad_number_def
      lens_for_def units_of_def utf8_byte_length_eq write_string_loop_eq write_head_bytes
      put_bytes_append Let_def)
next
  case FArray
  then obtain xs where "get_prop obj (f_key f) = JArr xs"
    using assms(1) by (auto simp: annotated_def elim: is_arrE)
  then show ?thesis
    using assms(2)
    by (simp add: FArray gen_value_def run_stmts_append exec_write_key field_bytes_def bad_number_def
      lens_for_def write_elements_many int32.write_many_enc write_head_bytes put_bytes_append Let_def)
qed (simp_all add: gen_value_def run_stmts_append exec_write_key field_bytes_def bad_number_def
      write_int_item put_bytes_append Let_def)

lemma exec_write_fields:
  assumes "\<forall>f \<in> set fs. annotated obj f \<and> lens_for obj st f"
  shows "run_stmts (exec_write obj st) (write_stmts (gen_fields fs)) c =
    (case List.find (bad_number obj) fs of
       Some f \<Rightarrow> Inl (ValidationError (ExpectedInt32 (f_key f)))
     | None \<Rightarrow> Inr (put_bytes (object_bytes obj fs) c))"
  using assms
proof (induction fs arbitrary: c)
  case Nil
  then show ?case by (simp add: object_bytes_def)
next
  case (Cons f fs)
  have "run_stmts (exec_write obj st) (write_stmts (gen_fields (f # fs))) c =
      bind_res (if bad_number obj f then Inl (ValidationError (ExpectedInt32 (f_key f)))
                else Inr (put_bytes (field_bytes obj f) c))
        (run_stmts (exec_write obj st) (write_stmts (gen_fields fs)))"
    using Cons.prems exec_write_field [of obj f st c]
    by (simp only: gen_fields.simps append_gen_sel [of _ "gen_fields fs"]
      run_stmts_append [of _ _ "write_stmts (gen_fields fs)"]) simp
  then show ?case
    using Cons by (simp add: object_bytes_def put_bytes_append split: option.splits)
qed

section \<open>The map header\<close>

lemma of_nat_low_byte: "(of_nat (m AND 0xff) :: byte) = of_nat m" for m :: nat
proof -
  have "(of_nat (take_bit 8 m) :: byte) = of_nat m"
    by (rule bit_word_eqI) (simp add: bit_simps)
  then show ?thesis by (simp add: take_bit_eq_mask mask_eq_exp_minus_1)
qed

lemma of_nat_byte_at:
  assumes "k \<le> 24"
  shows "(of_nat (drop_bit k m) :: byte) = byte_at k (of_nat m)"
  using assms by (intro bit_word_eqI) (auto simp: bit_simps bit_consts)

lemma header_write:
  "map_option (\<lambda>t. t + length (head_bytes 0xa0 n)) tot =
     total (st\<lparr>total := map_option (\<lambda>t. t + head_size n) tot\<rparr>)"
  "run_stmts (exec_write obj st) (write_stmts (gen_header n)) c = Inr (put_bytes (head_bytes 0xa0 n) c)"
proof -
  note bytes = of_nat_low_byte of_nat_byte_at [of 24 n] of_nat_byte_at [of 16 n]
    of_nat_byte_at [of 8 n] of_nat_byte_at [of 0 n]
  have zero: "(of_nat n :: byte) = byte_at 0 (of_nat n)"
    using of_nat_byte_at [of 0 n] by simp
  show "run_stmts (exec_write obj st) (write_stmts (gen_header n)) c = Inr (put_bytes (head_bytes 0xa0 n) c)"
    using bytes zero by (simp add: gen_header_def head_bytes_def be16_def be32_def)
qed simp

lemma header_size:
  "run_stmts (exec_size obj) (size_stmts (gen_header n)) st =
     Inr (st\<lparr>total := map_option (\<lambda>t. t + head_size n) (total st)\<rparr>)"
  by (simp add: gen_header_def head_size_def)

lemma header_read:
  "run_stmts (exec_read buf) (read_stmts (gen_header n)) (off, obj) = Inr (advance (head_size n) off, obj)"
  by (simp add: gen_header_def head_size_def)

section \<open>\<open>toCBOR\<close>\<close>

definition sizes_of :: "js_object \<Rightarrow> class_property list \<Rightarrow> size_state" where
  "sizes_of obj ps = sizes_after obj (fields_of ps) (init_size\<lparr>total := Some (head_size (length ps))\<rparr>)"

lemma size_pass:
  assumes "list_all (annotated obj) (fields_of ps)"
  shows "run_stmts (exec_size obj) (size_stmts (generate ps)) init_size = Inr (sizes_of obj ps)"
    and "total (sizes_of obj ps) = Some (length (head_bytes 0xa0 (length ps) @ object_bytes obj (fields_of ps)))"
  using exec_size_fields [OF assms]
  by (simp_all add: sizes_of_def sizes_after_def generate_def run_stmts_append header_size init_size_def)

lemma write_pass:
  assumes "list_all (annotated obj) (fields_of ps)"
  shows "run_stmts (exec_write obj (sizes_of obj ps)) (write_stmts (generate ps)) c =
    (case List.find (bad_number obj) (fields_of ps) of
       Some f \<Rightarrow> Inl (ValidationError (ExpectedInt32 (f_key f)))
     | None \<Rightarrow> Inr (put_bytes (head_bytes 0xa0 (length ps) @ object_bytes obj (fields_of ps)) c))"
proof -
  have "\<forall>f \<in> set (fields_of ps). annotated obj f \<and> lens_for obj (sizes_of obj ps) f"
    using assms sizes_after_lens by (auto simp: list_all_iff sizes_of_def)
  then show ?thesis
    by (simp add: generate_def run_stmts_append header_write exec_write_fields put_bytes_append
      split: option.split)
qed

lemma to_cbor_result:
  assumes "list_all (annotated obj) (fields_of ps)"
  shows "to_cbor (generate ps) obj =
    (case List.find (bad_number obj) (fields_of ps) of
       Some f \<Rightarrow> Inl (ValidationError (ExpectedInt32 (f_key f)))
     | None \<Rightarrow> Inr (head_bytes 0xa0 (length ps) @ object_bytes obj (fields_of ps)))"
proof -
  have "length (alloc (total (sizes_of obj ps))) =
      length (head_bytes 0xa0 (length ps) @ object_bytes obj (fields_of ps))"
    by (simp add: size_pass(2) [OF assms] alloc_def)
  then show ?thesis
    by (simp add: to_cbor_def size_pass(1) [OF assms] write_pass [OF assms] put_bytes_fill
      split: option.split)
qed

section \<open>\<open>fromCBOR\<close> on the bytes of \<open>toCBOR\<close>\<close>

text \<open>
  The values a field carries over the wire: a boolean, a 32-bit number inside the declared
  limits, a string no longer than \<open>maxLength\<close> in UTF-8, and an array of numbers that fit
  the five-byte items.
\<close>

definition sendable :: "field \<Rightarrow> js_val \<Rightarrow> bool" where
  "sendable f v \<longleftrightarrow>
     (case f_type f of
        FBoolean \<Rightarrow> (\<exists>b. v = JBool b)
      | FNumber \<Rightarrow> (\<exists>i. v = JNum (jint i) \<and> - 2147483648 \<le> i \<and> i \<le> 2147483647 \<and>
                        \<not> below i (f_min f) \<and> \<not> above i (f_max f))
      | FString \<Rightarrow> (\<exists>s. v = JStr s \<and> length (utf8_encode s) < 2 ^ 32 \<and>
                        \<not> too_long (Some (length (utf8_encode s))) (f_max_length f))
      | FArray \<Rightarrow> (\<exists>xs. v = JArr xs \<and> list_all wide_int xs \<and> length xs < 2 ^ 32)
      | FUnsupported \<Rightarrow> False)"

text \<open>What comes back: strings have their unpaired surrogates replaced.\<close>

fun received :: "js_val \<Rightarrow> js_val" where
  "received (JStr s) = JStr (to_well_formed s)"
| "received v = v"

lemma received_kind [simp]:
  "is_str (received v) = is_str v" "is_arr (received v) = is_arr v" "is_int32 (received v) = is_int32 v"
  by (cases v; simp)+

lemma read_elements_many:
  "read_elements err n buf off =
     bind_res (read_many (read_int err) n buf off) (\<lambda>(vs, o'). Inr (map jint vs, o'))"
proof (induction n arbitrary: off)
  case (Suc n)
  have "bind_res (read_many (read_int err) n buf o1) (\<lambda>(vs, o'). Inr (map jint (v # vs), o')) =
      bind_res (bind_res (read_many (read_int err) n buf o1) (\<lambda>(vs, o'). Inr (map jint vs, o')))
        (\<lambda>(xs, o'). Inr (jint v # xs, o'))" for v o1
    by (cases "read_many (read_int err) n buf o1") auto
  then show ?case
    by (cases "read_int err buf off") (auto simp: Suc.IH bind_res_assoc split_def)
qed simp

lemma map_int_of_wide: "list_all wide_int xs \<Longrightarrow> map (jint \<circ> int_of) xs = xs"
  by (induction xs) (auto simp: wide_int_def)

lemma annotated_sendable: "sendable f (get_prop obj (f_key f)) \<Longrightarrow> annotated obj f \<and> \<not> bad_number obj f"
  by (cases "f_type f") (auto simp: sendable_def annotated_def bad_number_def)

lemma exec_read_value:
  assumes "sendable f v"
  shows "run_stmts (exec_read (pre @ value_bytes (f_type f) v @ post)) (read_stmts (gen_value f))
      (Some (length pre), obj) =
    Inr (Some (length pre + length (value_bytes (f_type f) v)), obj(f_key f \<mapsto> received v))"
proof (cases "f_type f")
  case FBoolean
  then obtain b where "v = JBool b" using assms by (auto simp: sendable_def)
  then show ?thesis
    by (simp add: FBoolean gen_value_def Let_def read_at_append)
next
  case FNumber
  then obtain i where v: "v = JNum (jint i)" and "- 2147483648 \<le> i" "i \<le> 2147483647"
    and lim: "\<not> below i (f_min f)" "\<not> above i (f_max f)"
    using assms by (auto simp: sendable_def)
  then have "wide_int (jint i)" by (auto simp: wide_int_def)
  then show ?thesis
    using lim by (simp add: FNumber v gen_value_def Let_def int32.rd_enc)
next
  case FString
  then obtain s where v: "v = JStr s" and len: "length (utf8_encode s) < 2 ^ 32"
    and lim: "\<not> too_long (Some (length (utf8_encode s))) (f_max_length f)"
    using assms by (auto simp: sendable_def)
  let ?h = "head_bytes 0x60 (length (utf8_encode s))"
  have "read_string (pre @ ?h @ utf8_encode s @ post) (Some (length pre + length ?h))
      (Some (length (utf8_encode s))) = Inr (to_well_formed s)"
    using read_string_utf8 [of "pre @ ?h" s post] by simp
  then show ?thesis
    using lim len text_head.rd_enc [of "length (utf8_encode s)" "ExpectedString (f_key f)" pre "utf8_encode s @ post"]
    by (simp add: FString v gen_value_def Let_def skip_len_def)
next
  case FArray
  then obtain xs where v: "v = JArr xs" and wide: "list_all wide_int xs" and len: "length xs < 2 ^ 32"
    using assms by (auto simp: sendable_def)
  let ?h = "head_bytes 0x80 (length xs)"
  let ?items = "concat (map int_item xs)"
  have "read_elements err (length xs) (pre @ ?h @ ?items @ post) (Some (length pre + length ?h)) =
      Inr (xs, Some (length pre + length ?h + length ?items))" for err
    using int32.read_many_enc [OF wide, of err "pre @ ?h" post] map_int_of_wide [OF wide]
    by (simp add: read_elements_many)
  then show ?thesis
    using len array_head.rd_enc [of "length xs" "ExpectedArray (f_key f)" pre "?items @ post"]
    by (simp add: FArray v gen_value_def Let_def)
qed (use assms in \<open>simp add: sendable_def\<close>)

lemma exec_read_field:
  assumes "sendable f (get_prop src (f_key f))"
  shows "run_stmts (exec_read (pre @ field_bytes src f @ post))
      (read_stmts (append_gen (gen_key (f_key f)) (gen_value f))) (Some (length pre), obj) =
    Inr (Some (length pre + length (field_bytes src f)),
         obj(f_key f \<mapsto> received (get_prop src (f_key f))))"
  using exec_read_value [OF assms, of "pre @ key_bytes (f_key f)" post obj]
  by (simp add: field_bytes_def run_stmts_append gen_key_def add.assoc)

definition receive_all :: "js_object \<Rightarrow> field list \<Rightarrow> js_object \<Rightarrow> js_object" where
  "receive_all src fs obj =
     fold (\<lambda>f o1. o1(f_key f \<mapsto> received (get_prop src (f_key f)))) fs obj"

lemma exec_read_fields:
  assumes "\<forall>f \<in> set fs. sendable f (get_prop src (f_key f))"
  shows "run_stmts (exec_read (pre @ object_bytes src fs @ post)) (read_stmts (gen_fields fs))
      (Some (length pre), obj) =
    Inr (Some (length pre + length (object_bytes src fs)), receive_all src fs obj)"
  using assms
proof (induction fs arbitrary: pre obj)
  case Nil
  then show ?case by (simp add: object_bytes_def receive_all_def)
next
  case (Cons f fs)
  let ?obj = "obj(f_key f \<mapsto> received (get_prop src (f_key f)))"
  have first: "run_stmts (exec_read (pre @ field_bytes src f @ object_bytes src fs @ post))
      (read_stmts (append_gen (gen_key (f_key f)) (gen_value f))) (Some (length pre), obj) =
    Inr (Some (length (pre @ field_bytes src f)), ?obj)"
    using Cons.prems exec_read_field [of f src pre "object_bytes src fs @ post" obj] by simp
  have rest: "run_stmts (exec_read ((pre @ field_bytes src f) @ object_bytes src fs @ post))
      (read_stmts (gen_fields fs)) (Some (length (pre @ field_bytes src f)), ?obj) =
    Inr (Some (length (pre @ field_bytes src f) + length (object_bytes src fs)), receive_all src fs ?obj)"
    using Cons.prems by (intro Cons.IH) simp
  have bytes: "pre @ object_bytes src (f # fs) @ post = pre @ field_bytes src f @ object_bytes src fs @ post"
    by (simp add: object_bytes_def)
  show ?case
    unfolding bytes
    using first rest
    by (simp only: gen_fields.simps append_gen_sel [of _ "gen_fields fs"]
      run_stmts_append [of _ _ "read_stmts (gen_fields fs)"])
      (simp add: object_bytes_def receive_all_def)
qed

lemma receive_all_lookup:
  "distinct (map f_key fs) \<Longrightarrow>
   receive_all src fs obj k =
     (if k \<in> f_key ` set fs then Some (received (get_prop src k)) else obj k)"
  by (induction fs arbitrary: obj) (auto simp: receive_all_def)

lemma from_cbor_bytes:
  assumes "\<forall>f \<in> set (fields_of ps). sendable f (get_prop src (f_key f))"
  shows "from_cbor (generate ps) new_obj (head_bytes 0xa0 (length ps) @ object_bytes src (fields_of ps) @ post) =
    Inr (receive_all src (fields_of ps) new_obj)"
  using exec_read_fields [OF assms, of "head_bytes 0xa0 (length ps)" post new_obj]
  by (simp add: from_cbor_def generate_def run_stmts_append header_read)

lemma to_cbor_sendable:
  assumes "\<forall>f \<in> set (fields_of ps). sendable f (get_prop obj (f_key f))"
  shows "to_cbor (generate ps) obj = Inr (head_bytes 0xa0 (length ps) @ object_bytes obj (fields_of ps))"
proof -
  have "list_all (annotated obj) (fields_of ps)" and "List.find (bad_number obj) (fields_of ps) = None"
    using assms annotated_sendable by (auto simp: list_all_iff find_None_iff)
  then show ?thesis by (simp add: to_cbor_result)
qed

end
