(* ===== verification/Cbor_Spec.thy ===== *)
theory Cbor_Spec
  imports Cbor_Roundtrip
begin

text \<open>
  The format the generated code is meant to produce: a decoder for the data items of
  RFC 8949 that the plugin uses (integers, text, arrays, maps, booleans), written from the
  format alone, and the proof that it reads the bytes of \<open>toCBOR\<close> as the map of the
  object's fields. A text item keeps its UTF-8 payload.
\<close>

section \<open>The reference decoder\<close>

datatype cbor =
    CUint nat
  | CNint nat
  | CText "byte list"
  | CArray "cbor list"
  | CMap "(cbor \<times> cbor) list"
  | CBool bool

fun be_nat :: "byte list \<Rightarrow> nat" where
  "be_nat [] = 0"
| "be_nat (b # bs) = unat b * 256 ^ length bs + be_nat bs"

definition take_arg :: "nat \<Rightarrow> byte list \<Rightarrow> (nat \<times> byte list) option" where
  "take_arg n bs = (if n \<le> length bs then Some (be_nat (take n bs), drop n bs) else None)"

text \<open>The initial byte: major type, additional information, and the argument it leads to.\<close>

fun decode_head :: "byte list \<Rightarrow> (nat \<times> nat \<times> nat \<times> byte list) option" where
  "decode_head [] = None"
| "decode_head (b # bs) =
     (let major = unat b div 32; info = unat b mod 32;
          width = (if info = 24 then 1 else if info = 25 then 2 else if info = 26 then 4 else 8)
      in if info < 24 then Some (major, info, info, bs)
         else if info < 28 then map_option (\<lambda>(a, r). (major, info, a, r)) (take_arg width bs)
         else None)"

text \<open>
  Nested items recurse with less fuel; twice the length of the input is enough, as
  \<open>decode_object\<close> below shows for the inputs it speaks about.
\<close>

fun decode_item :: "nat \<Rightarrow> byte list \<Rightarrow> (cbor \<times> byte list) option"
  and decode_items :: "nat \<Rightarrow> nat \<Rightarrow> byte list \<Rightarrow> (cbor list \<times> byte list) option" where
  "decode_item 0 bs = None"
| "decode_item (Suc fuel) bs =
     (case decode_head bs of
        None \<Rightarrow> None
      | Some (major, info, arg, rest) \<Rightarrow>
          if major = 0 then Some (CUint arg, rest)
          else if major = 1 then Some (CNint arg, rest)
          else if major = 3 then
            (if arg \<le> length rest then Some (CText (take arg rest), drop arg rest) else None)
          else if major = 4 then
            map_option (\<lambda>(xs, r). (CArray xs, r)) (decode_items fuel arg rest)
          else if major = 5 then
            (case decode_items fuel (2 * arg) rest of
               None \<Rightarrow> None
             | Some (xs, r) \<Rightarrow>
                 Some (CMap (map (\<lambda>i. (xs ! (2 * i), xs ! (2 * i + 1))) [0..<arg]), r))
          else if major = 7 \<and> info = 20 then Some (CBool False, rest)
          else if major = 7 \<and> info = 21 then Some (CBool True, rest)
          else None)"
| "decode_items 0 n bs = None"
| "decode_items (Suc fuel) n bs =
     (case n of
        0 \<Rightarrow> Some ([], bs)
      | Suc m \<Rightarrow>
          (case decode_item fuel bs of
             None \<Rightarrow> None
           | Some (x, r) \<Rightarrow>
               map_option (\<lambda>(xs, r'). (x # xs, r')) (decode_items fuel m r)))"

section \<open>The item a value stands for\<close>

definition int_abs :: "js_num \<Rightarrow> cbor" where
  "int_abs n = (if 0 \<le> int_of n then CUint (nat (int_of n)) else CNint (nat (- int_of n - 1)))"

fun value_abs :: "field_type \<Rightarrow> js_val \<Rightarrow> cbor" where
  "value_abs FNumber v = int_abs (num_of v)"
| "value_abs FString v = CText (utf8_encode (units_of v))"
| "value_abs FArray v = CArray (map int_abs (elements_of v))"
| "value_abs _ v = CBool (truthy v)"

definition field_items :: "js_object \<Rightarrow> field \<Rightarrow> cbor list" where
  "field_items obj f = [CText (map ucast (f_key f)), value_abs (f_type f) (get_prop obj (f_key f))]"

definition object_abs :: "js_object \<Rightarrow> field list \<Rightarrow> cbor" where
  "object_abs obj fs =
     CMap (map (\<lambda>f. (CText (map ucast (f_key f)), value_abs (f_type f) (get_prop obj (f_key f)))) fs)"

section \<open>The decoder on the bytes of the program\<close>

lemma be_nat_be32: "be_nat (be32 w) = unat w"
proof -
  have b: "unat (byte_at k w) = unat w div 2 ^ k mod 256" for k
  proof -
    have "unat (byte_at k w) = unat (drop_bit k w AND mask 8)"
      by (simp add: byte_at_def unsigned_ucast_eq take_bit_nat_def mask_eq_exp_minus_1
        unat_and_mask [of _ 8, simplified mask_eq_exp_minus_1, simplified])
    then show ?thesis by (simp add: unat_and_mask unat_drop)
  qed
  have d: "m div 65536 = m div 256 div 256" "m div 16777216 = m div 256 div 256 div 256" for m :: nat
    by (simp_all add: div_mult2_eq [symmetric])
  have "unat w < 2 ^ 32" using unsigned_less [of w, where ?'a = nat] by simp
  then have top: "unat w div 256 div 256 div 256 < 256" by simp
  have "m div 256 div 256 div 256 * 16777216 + (m div 256 div 256 mod 256 * 65536 +
      (m div 256 mod 256 * 256 + m mod 256)) = m" for m :: nat
    using mult_div_mod_eq [of 256 m] mult_div_mod_eq [of 256 "m div 256"]
      mult_div_mod_eq [of 256 "m div 256 div 256"] by linarith
  then show ?thesis using top by (simp add: be32_def b d)
qed

lemma be_nat_be16: "n < 2 ^ 16 \<Longrightarrow> be_nat (be16 (of_nat n)) = n"
proof -
  assume n: "n < 2 ^ 16"
  then have whole: "be_nat (be32 (of_nat n)) = n" by (simp add: be_nat_be32 unat_of_nat)
  have high: "\<not> bit (of_nat n :: 32 word) i" if "16 \<le> i" for i
    by (rule unat_less_no_bit [OF _ that]) (use n in \<open>simp add: unat_of_nat\<close>)
  have "byte_at 24 (of_nat n) = 0" "byte_at 16 (of_nat n) = 0"
    by (rule bit_word_eqI, simp add: bit_byte_at high)+
  then show ?thesis using whole by (simp add: be32_def be16_def)
qed

lemma decode_head_bytes:
  assumes n: "n < 2 ^ 32" and m: "m < 7"
  shows "\<exists>info. decode_head (head_bytes (32 * m) n @ rest) = Some (m, info, n, rest)"
proof -
  have b: "unat (of_nat (32 * m + k) :: byte) = 32 * m + k" if "k < 32" for k
    using m that by (intro unat_of_byte) linarith
  have dm: "(32 * m + k) div 32 = m" "(32 * m + k) mod 32 = k" if "k < 32" for k
    using that by simp_all
  consider (tiny) "n < 24" | (byte) "24 \<le> n" "n \<le> 0xff" | (half) "0xff < n" "n \<le> 0xffff"
    | (full) "0xffff < n" by linarith
  then show ?thesis
  proof cases
    case tiny
    then show ?thesis using b [of n] dm [of n] by (simp add: head_bytes_def Let_def del: of_nat_add of_nat_mult)
  next
    case byte
    then show ?thesis using b [of 24] dm [of 24] unat_of_byte [of n]
      by (simp add: head_bytes_def take_arg_def Let_def del: of_nat_add of_nat_mult)
  next
    case half
    then show ?thesis using b [of 25] dm [of 25] be_nat_be16 [of n]
      by (simp add: head_bytes_def take_arg_def Let_def del: of_nat_add of_nat_mult)
  next
    case full
    have "be_nat (be32 (of_nat n)) = n" using n by (simp add: be_nat_be32 unat_of_nat)
    then show ?thesis using full b [of 26] dm [of 26]
      by (simp add: head_bytes_def take_arg_def Let_def del: of_nat_add of_nat_mult)
  qed
qed

text \<open>Integers, text, booleans, arrays and the whole map, each with fuel to spare.\<close>

lemma decode_int_item:
  assumes "wide_int n" and "0 < fuel"
  shows "decode_item fuel (int_item n @ rest) = Some (int_abs n, rest)"
proof -
  obtain i where n: "n = jint i" and i: "- (2 ^ 32) \<le> i" "i < 2 ^ 32"
    using assms(1) by (auto simp: wide_int_def)
  obtain m where fuel: "fuel = Suc m" using assms(2) by (cases fuel) auto
  have arg: "take_arg 4 (be32 w @ rest) = Some (unat w, rest)" for w
    by (simp add: take_arg_def be_nat_be32)
  show ?thesis
  proof (cases "0 \<le> i")
    case True
    then have "unat (word_of_int i :: 32 word) = nat i"
      using i by (simp add: unsigned_of_int take_bit_int_eq_self)
    then show ?thesis
      using True by (simp add: n fuel int_item_def int_abs_def Let_def arg)
  next
    case False
    define w :: "32 word" where "w = word_of_int (- i - 1)"
    have "int_item n = 0x3a # be32 w" using False by (simp add: int_item_def n w_def)
    moreover have "unat w = nat (- i - 1)"
      unfolding w_def using False i take_bit_int_eq_self [of "- i - 1" 32]
      by (simp only: unsigned_of_int) simp
    ultimately show ?thesis
      using False by (simp add: n fuel int_abs_def Let_def arg)
  qed
qed

lemma decode_int_items:
  "list_all wide_int xs \<Longrightarrow> length xs < fuel \<Longrightarrow>
   decode_items fuel (length xs) (concat (map int_item xs) @ rest) = Some (map int_abs xs, rest)"
proof (induction xs arbitrary: fuel)
  case Nil
  then show ?case by (cases fuel) auto
next
  case (Cons x xs)
  then obtain m where fuel: "fuel = Suc m" and m: "length xs < m" by (cases fuel) auto
  then have "decode_item m (int_item x @ (concat (map int_item xs) @ rest)) =
      Some (int_abs x, concat (map int_item xs) @ rest)"
    using Cons.prems by (intro decode_int_item) auto
  then show ?case using Cons m by (simp add: fuel)
qed

lemma decode_text:
  assumes "length bs < 2 ^ 32" and "0 < fuel"
  shows "decode_item fuel (head_bytes 0x60 (length bs) @ bs @ rest) = Some (CText bs, rest)"
  using assms decode_head_bytes [of "length bs" 3 "bs @ rest"] by (cases fuel) auto

lemma decode_value:
  assumes v: "sendable f v" and fuel: "2 * length (value_bytes (f_type f) v) \<le> fuel"
  shows "decode_item fuel (value_bytes (f_type f) v @ rest) = Some (value_abs (f_type f) v, rest)"
proof (cases "f_type f")
  case FBoolean
  then show ?thesis using fuel by (cases fuel) (auto simp: Let_def)
next
  case FNumber
  then obtain i where "v = JNum (jint i)" "- 2147483648 \<le> i" "i \<le> 2147483647"
    using v by (auto simp: sendable_def)
  moreover from this have "wide_int (jint i)" by (auto simp: wide_int_def)
  ultimately show ?thesis using FNumber fuel by (simp add: decode_int_item)
next
  case FString
  then obtain s where "v = JStr s" "length (utf8_encode s) < 2 ^ 32"
    using v by (auto simp: sendable_def)
  moreover from this have "0 < fuel" using FString fuel by (simp add: head_size_def split: if_splits)
  ultimately show ?thesis
    using FString decode_text [of "utf8_encode s" fuel rest] by (simp add: units_of_def)
next
  case FArray
  then obtain xs where vx: "v = JArr xs" and wide: "list_all wide_int xs" and len: "length xs < 2 ^ 32"
    using v by (auto simp: sendable_def)
  from fuel have "2 * (head_size (length xs) + length xs * 5) \<le> fuel" by (simp add: FArray vx)
  then obtain m where m: "fuel = Suc m" and "length xs < m"
    by (cases fuel) (auto simp: head_size_def split: if_splits)
  then have "decode_items m (length xs) (concat (map int_item xs) @ rest) = Some (map int_abs xs, rest)"
    using wide by (intro decode_int_items)
  then show ?thesis
    using decode_head_bytes [of "length xs" 4 "concat (map int_item xs) @ rest"] len
    by (auto simp: FArray vx m)
qed (use v in \<open>simp add: sendable_def\<close>)

lemma key_as_text:
  assumes "length k < 24"
  shows "key_bytes k = head_bytes 0x60 (length (map ucast k :: byte list)) @ map ucast k"
  using assms by (simp add: key_bytes_def head_bytes_def)

lemma decode_fields:
  assumes "\<forall>f \<in> set fs. length (f_key f) < 24 \<and> sendable f (get_prop obj (f_key f))"
    and "2 * length (object_bytes obj fs) < fuel"
  shows "decode_items fuel (2 * length fs) (object_bytes obj fs @ rest) =
    Some (concat (map (field_items obj) fs), rest)"
  using assms
proof (induction fs arbitrary: fuel)
  case Nil
  then show ?case by (cases fuel) (auto simp: object_bytes_def)
next
  case (Cons f fs)
  let ?v = "get_prop obj (f_key f)"
  let ?vb = "value_bytes (f_type f) ?v"
  have size: "length (object_bytes obj (f # fs)) =
      Suc (length (f_key f)) + length ?vb + length (object_bytes obj fs)"
    by (simp add: object_bytes_def field_bytes_def)
  then obtain m where fuel: "fuel = Suc (Suc m)" and m: "0 < m" "2 * length ?vb \<le> m"
      "2 * length (object_bytes obj fs) < m"
    using Cons.prems(2) by (cases fuel; cases "fuel - 1") auto
  have "decode_item (Suc m) (key_bytes (f_key f) @ ?vb @ object_bytes obj fs @ rest) =
      Some (CText (map ucast (f_key f)), ?vb @ object_bytes obj fs @ rest)"
    using Cons.prems(1) decode_text [of "map ucast (f_key f)" "Suc m" "?vb @ object_bytes obj fs @ rest"]
    by (simp add: key_as_text del: decode_item.simps)
  moreover have "decode_item m (?vb @ object_bytes obj fs @ rest) =
      Some (value_abs (f_type f) ?v, object_bytes obj fs @ rest)"
    using Cons.prems(1) m by (intro decode_value) auto
  moreover have "decode_items m (2 * length fs) (object_bytes obj fs @ rest) =
      Some (concat (map (field_items obj) fs), rest)"
    using Cons m by simp
  moreover have bytes: "object_bytes obj (f # fs) @ rest =
      key_bytes (f_key f) @ ?vb @ object_bytes obj fs @ rest"
    by (simp add: object_bytes_def field_bytes_def)
  ultimately show ?case
    unfolding bytes by (simp add: fuel field_items_def [of obj f] del: decode_item.simps)
qed

lemma pairs_of_items:
  "map (\<lambda>i. (concat (map (field_items obj) fs) ! (2 * i), concat (map (field_items obj) fs) ! (2 * i + 1)))
     [0..<length fs] =
   map (\<lambda>f. (CText (map ucast (f_key f)), value_abs (f_type f) (get_prop obj (f_key f)))) fs"
proof (induction fs)
  case (Cons f fs)
  show ?case
    using Cons by (simp add: upt_conv_Cons map_Suc_upt [symmetric] o_def field_items_def del: upt_Suc)
qed simp

lemma decode_object:
  assumes "\<forall>f \<in> set fs. length (f_key f) < 24 \<and> sendable f (get_prop obj (f_key f))"
    and "length fs < 2 ^ 32"
    and "2 * length (head_bytes 0xa0 (length fs) @ object_bytes obj fs) \<le> fuel"
  shows "decode_item fuel (head_bytes 0xa0 (length fs) @ object_bytes obj fs @ rest) =
    Some (object_abs obj fs, rest)"
proof -
  have "1 \<le> length (head_bytes 0xa0 (length fs))" by (simp add: head_size_def)
  then obtain m where fuel: "fuel = Suc m" and "2 * length (object_bytes obj fs) < m"
    using assms(3) by (cases fuel) auto
  then have "decode_items m (2 * length fs) (object_bytes obj fs @ rest) =
      Some (concat (map (field_items obj) fs), rest)"
    using assms(1) by (intro decode_fields)
  then show ?thesis
    using decode_head_bytes [of "length fs" 5 "object_bytes obj fs @ rest"] assms(2) pairs_of_items [of obj fs]
    by (auto simp: fuel object_abs_def)
qed

section \<open>A key without a value\<close>

text \<open>More fuel changes no result.\<close>

lemma decode_fuel:
  "decode_item fuel bs = Some r \<Longrightarrow> fuel \<le> fuel' \<Longrightarrow> decode_item fuel' bs = Some r"
  "decode_items fuel n bs = Some rs \<Longrightarrow> fuel \<le> fuel' \<Longrightarrow> decode_items fuel' n bs = Some rs"
proof (induction fuel arbitrary: bs r n rs fuel')
  case 0
  { case 1 then show ?case by simp }
  { case 2 then show ?case by simp }
next
  case (Suc fuel)
  { case 1
    then obtain m where m: "fuel' = Suc m" "fuel \<le> m" by (cases fuel') auto
    obtain major info arg rest where h: "decode_head bs = Some (major, info, arg, rest)"
      using 1 by (auto split: option.splits)
    have items: "decode_items m k rest = Some x" if "decode_items fuel k rest = Some x" for k x
      using Suc(2) [OF that m(2)] .
    show ?case using 1 by (auto simp: m h items split: if_splits option.splits) }
  { case 2
    then obtain m where m: "fuel' = Suc m" "fuel \<le> m" by (cases fuel') auto
    have item: "decode_item m bs = Some x" if "decode_item fuel bs = Some x" for x
      using Suc(1) [OF that m(2)] .
    have items: "decode_items m k q = Some x" if "decode_items fuel k q = Some x" for k q x
      using Suc(2) [OF that m(2)] .
    show ?case using 2 by (auto simp: m item items split: nat.splits option.splits) }
qed

lemma decode_missing_value:
  assumes "\<forall>f \<in> set fs. length (f_key f) < 24 \<and> sendable f (get_prop obj (f_key f))"
    and "length k < 24"
  shows "decode_items fuel (2 * length fs + 2) (object_bytes obj fs @ key_bytes k) = None"
  using assms(1)
proof (induction fs arbitrary: fuel)
  case Nil
  have "decode_item (Suc m) (key_bytes k) = Some (CText (map ucast k), [])" for m
    using decode_text [of "map ucast k" "Suc m" "[]"] assms(2)
    by (simp add: key_as_text del: decode_item.simps)
  moreover have "decode_item m [] = None" for m by (cases m) simp_all
  ultimately have "decode_items fuel (Suc (Suc 0)) (key_bytes k) = None"
    by (cases fuel; cases "fuel - 1"; cases "fuel - 2") (auto simp del: decode_item.simps(2))
  then show ?case by (simp add: object_bytes_def numeral_2_eq_2)
next
  case (Cons f fs)
  let ?v = "get_prop obj (f_key f)"
  let ?tail = "object_bytes obj fs @ key_bytes k"
  have bytes: "object_bytes obj (f # fs) @ key_bytes k = key_bytes (f_key f) @ value_bytes (f_type f) ?v @ ?tail"
    by (simp add: object_bytes_def field_bytes_def)
  have name: "decode_item (Suc m) (key_bytes (f_key f) @ rest) = Some (CText (map ucast (f_key f)), rest)" for m rest
    using Cons.prems decode_text [of "map ucast (f_key f)" "Suc m" rest]
    by (simp add: key_as_text del: decode_item.simps)
  have val: "r = (value_abs (f_type f) ?v, ?tail)"
    if "decode_item m (value_bytes (f_type f) ?v @ ?tail) = Some r" for m r
  proof -
    let ?big = "max m (2 * length (value_bytes (f_type f) ?v))"
    have "decode_item ?big (value_bytes (f_type f) ?v @ ?tail) = Some (value_abs (f_type f) ?v, ?tail)"
      using Cons.prems by (intro decode_value) auto
    then show ?thesis using decode_fuel(1) [OF that, of ?big] by simp
  qed
  have tail: "decode_items m (Suc (Suc (2 * length fs))) ?tail = None" for m
    using Cons by simp
  show ?case
  proof (cases fuel)
    case (Suc m)
    show ?thesis
    proof (cases m)
      case 0
      then show ?thesis by (simp add: Suc)
    next
      case (Suc j)
      then show ?thesis
        unfolding bytes using name [of j] val [of j] tail [of j]
        by (simp add: \<open>fuel = Suc m\<close> del: decode_item.simps split: option.split) blast
    qed
  qed simp
qed

lemma decode_object_missing_value:
  assumes "\<forall>f \<in> set fs. length (f_key f) < 24 \<and> sendable f (get_prop obj (f_key f))"
    and "length k < 24" and "length fs + 1 < 2 ^ 32"
  shows "decode_item fuel (head_bytes 0xa0 (length fs + 1) @ object_bytes obj fs @ key_bytes k) = None"
  using decode_head_bytes [of "length fs + 1" 5 "object_bytes obj fs @ key_bytes k"]
    decode_missing_value [OF assms(1,2)] assms(3)
  by (cases fuel) auto

lemma unsupported_last_field:
  assumes "fields_of ps = fs @ [f]" and "f_type f = FUnsupported" and "length (f_key f) < 24"
    and "length ps = length (fields_of ps)" and "length ps < 2 ^ 32"
    and "\<forall>g \<in> set fs. length (f_key g) < 24 \<and> sendable g (get_prop obj (f_key g))"
  shows "\<exists>bs. to_cbor (generate ps) obj = Inr bs \<and> (\<forall>fuel. decode_item fuel bs = None)"
proof -
  have f: "annotated obj f \<and> \<not> bad_number obj f" by (simp add: annotated_def bad_number_def assms(2))
  have ann: "list_all (annotated obj) (fields_of ps)"
    using assms(6) f annotated_sendable by (auto simp: assms(1) list_all_iff)
  have "List.find (bad_number obj) (fields_of ps) = None"
    using assms(6) f annotated_sendable by (auto simp: assms(1) find_None_iff)
  then have "to_cbor (generate ps) obj =
      Inr (head_bytes 0xa0 (length fs + 1) @ object_bytes obj fs @ key_bytes (f_key f))"
    using assms(1,2,4) by (simp add: to_cbor_result [OF ann] object_bytes_def field_bytes_def)
  moreover have "decode_item fuel (head_bytes 0xa0 (length fs + 1) @ object_bytes obj fs @ key_bytes (f_key f)) = None" for fuel
    using assms by (intro decode_object_missing_value) auto
  ultimately show ?thesis by auto
qed

end
