(* ===== verification/Cbor_Safety.thy ===== *)
theory Cbor_Safety
  imports Cbor_Roundtrip
begin

text \<open>
  \<open>fromCBOR\<close> on a buffer from anywhere: the type and range of every property it assigns,
  the properties it leaves alone, the errors it can throw, and what it does with a buffer
  that ends too soon.
\<close>

section \<open>The values a field may receive\<close>

definition admissible :: "field \<Rightarrow> js_val \<Rightarrow> bool" where
  "admissible f v \<longleftrightarrow>
     (case f_type f of
        FBoolean \<Rightarrow> (\<exists>b. v = JBool b)
      | FNumber \<Rightarrow> (\<exists>i. v = JNum (jint i) \<and> - (2 ^ 32) \<le> i \<and> i < 2 ^ 32 \<and>
                        \<not> below i (f_min f) \<and> \<not> above i (f_max f))
      | FString \<Rightarrow> (\<exists>s. v = JStr s)
      | FArray \<Rightarrow> (\<exists>xs. v = JArr xs \<and> (xs = [NaN] \<or> list_all wide_int xs))
      | FUnsupported \<Rightarrow> False)"

lemma read_int_range:
  assumes "read_int err buf off = Inr (v, o1)"
  shows "- (2 ^ 32) \<le> v \<and> v < 2 ^ 32"
proof -
  define u where "u = uint (read_be32 buf (advance 1 off))"
  have "0 \<le> u" and "u < 2 ^ 32"
    using unsigned_less [of "read_be32 buf (advance 1 off)", where ?'a = int]
    by (simp_all only: u_def unsigned_greater_eq) simp
  moreover have "v = u \<or> v = - u - 1"
    using assms by (auto simp: read_int_def u_def Let_def split: if_splits)
  ultimately show ?thesis by auto
qed

lemma read_elements_wide:
  "read_elements err n buf off = Inr (xs, o1) \<Longrightarrow> list_all wide_int xs"
proof (induction n arbitrary: off xs)
  case (Suc n)
  then obtain v o2 ys where v: "read_int err buf off = Inr (v, o2)"
      and ys: "read_elements err n buf o2 = Inr (ys, o1)" and xs: "xs = jint v # ys"
    by (auto simp: bind_res_Inr_iff)
  have "wide_int (jint v)" using read_int_range [OF v] unfolding wide_int_def by blast
  then show ?case using Suc.IH [OF ys] by (simp add: xs)
qed simp

lemma exec_read_any:
  assumes "run_stmts (exec_read buf) (read_stmts (gen_value f)) (off, obj) = Inr (o1, obj1)"
  shows "if f_type f = FUnsupported then obj1 = obj
         else \<exists>v. obj1 = obj(f_key f \<mapsto> v) \<and> admissible f v"
proof (cases "f_type f")
  case FNumber
  then obtain v o2 where r: "read_int (ExpectedInt32 (f_key f)) buf off = Inr (v, o2)"
      and obj: "obj1 = obj(f_key f \<mapsto> JNum (jint v))"
      and lim: "\<not> below v (f_min f)" "\<not> above v (f_max f)"
    using assms by (auto simp: gen_value_def Let_def bind_res_Inr_iff split: if_splits)
  then show ?thesis using FNumber read_int_range [OF r] by (auto simp: admissible_def)
next
  case FArray
  then obtain xs where "obj1 = obj(f_key f \<mapsto> JArr xs)" and "xs = [NaN] \<or> list_all wide_int xs"
    using assms by (auto simp: gen_value_def Let_def bind_res_Inr_iff
      dest!: read_elements_wide split: option.splits)
  then show ?thesis using FArray by (auto simp: admissible_def)
qed (use assms in \<open>auto simp: gen_value_def bind_res_Inr_iff admissible_def Let_def split: if_splits\<close>)

lemma exec_read_fields_any:
  "distinct (map f_key fs) \<Longrightarrow>
   run_stmts (exec_read buf) (read_stmts (gen_fields fs)) (off, obj) = Inr (o1, obj1) \<Longrightarrow>
   (\<forall>f \<in> set fs. f_type f \<noteq> FUnsupported \<longrightarrow> (\<exists>v. obj1 (f_key f) = Some v \<and> admissible f v)) \<and>
   (\<forall>k. k \<notin> f_key ` {f \<in> set fs. f_type f \<noteq> FUnsupported} \<longrightarrow> obj1 k = obj k)"
proof (induction fs arbitrary: off obj)
  case (Cons f fs)
  from Cons.prems(2) obtain o2 obj2 where
      head: "run_stmts (exec_read buf) (read_stmts (gen_value f)) (advance (1 + length (f_key f)) off, obj) = Inr (o2, obj2)"
      and tail: "run_stmts (exec_read buf) (read_stmts (gen_fields fs)) (o2, obj2) = Inr (o1, obj1)"
    by (auto simp: run_stmts_append gen_key_def bind_res_Inr_iff)
  note now = exec_read_any [OF head]
  have rest: "(\<forall>g \<in> set fs. f_type g \<noteq> FUnsupported \<longrightarrow> (\<exists>v. obj1 (f_key g) = Some v \<and> admissible g v)) \<and>
      (\<forall>k. k \<notin> f_key ` {g \<in> set fs. f_type g \<noteq> FUnsupported} \<longrightarrow> obj1 k = obj2 k)"
    using Cons.prems(1) by (intro Cons.IH [OF _ tail]) simp
  have "f_key f \<notin> f_key ` {g \<in> set fs. f_type g \<noteq> FUnsupported}" using Cons.prems(1) by auto
  then have same: "obj1 (f_key f) = obj2 (f_key f)" using rest by blast
  show ?case
  proof (intro conjI ballI allI impI)
    fix g assume "g \<in> set (f # fs)" and "f_type g \<noteq> FUnsupported"
    then show "\<exists>v. obj1 (f_key g) = Some v \<and> admissible g v"
      using rest now same by (cases "g = f") (auto split: if_splits)
  next
    fix k assume "k \<notin> f_key ` {g \<in> set (f # fs). f_type g \<noteq> FUnsupported}"
    then show "obj1 k = obj k" using rest now by (auto split: if_splits)
  qed
qed auto

section \<open>The errors\<close>

text \<open>The messages \<open>fromCBOR\<close> has for a property, and the one of the string reader.\<close>

definition reports :: "js_string set \<Rightarrow> js_error \<Rightarrow> bool" where
  "reports ks e \<longleftrightarrow>
     e = ValidationError UnexpectedEndOfBuffer \<or>
     (\<exists>k \<in> ks. e \<in> ValidationError ` {ExpectedBoolean k, ExpectedInt32 k, BoundaryCheck k,
        ExpectedString k, StringTooLong k, ExpectedArray k, ExpectedInt32Element k})"

lemma bind_res_Inl_iff:
  "bind_res r f = Inl e \<longleftrightarrow> r = Inl e \<or> (\<exists>x. r = Inr x \<and> f x = Inl e)"
  by (cases r) auto

lemma read_int_error: "read_int err buf off = Inl e \<Longrightarrow> e = ValidationError err"
  by (auto simp: read_int_def Let_def split: if_splits)

lemma read_head_error: "read_head base err buf off = Inl e \<Longrightarrow> e = ValidationError err"
  by (auto simp: read_head_def split: option.splits if_splits)

lemma read_elements_error: "read_elements err n buf off = Inl e \<Longrightarrow> e = ValidationError err"
  by (induction n arbitrary: off) (auto simp: bind_res_Inl_iff dest: read_int_error)

lemma read_string_error: "read_string buf off n = Inl e \<Longrightarrow> e = ValidationError UnexpectedEndOfBuffer"
  by (auto simp: read_string_def split: option.splits if_splits)

lemma exec_read_error:
  assumes "run_stmts (exec_read buf) (read_stmts (gen_value f)) (off, obj) = Inl e"
  shows "reports {f_key f} e"
  using assms
  by (cases "f_type f")
    (auto simp: gen_value_def reports_def bind_res_Inl_iff Let_def
      dest!: read_int_error read_head_error read_elements_error read_string_error
      split: if_splits option.splits)

lemma reports_mono: "reports ks e \<Longrightarrow> ks \<subseteq> ks' \<Longrightarrow> reports ks' e"
  by (auto simp: reports_def)

lemma exec_read_fields_error:
  "run_stmts (exec_read buf) (read_stmts (gen_fields fs)) (off, obj) = Inl e \<Longrightarrow>
   reports (f_key ` set fs) e"
proof (induction fs arbitrary: off obj)
  case (Cons f fs)
  let ?here = "run_stmts (exec_read buf) (read_stmts (gen_value f)) (advance (1 + length (f_key f)) off, obj)"
  from Cons.prems consider "?here = Inl e"
    | o2 obj2 where "?here = Inr (o2, obj2)"
        "run_stmts (exec_read buf) (read_stmts (gen_fields fs)) (o2, obj2) = Inl e"
    by (auto simp: run_stmts_append gen_key_def bind_res_Inl_iff)
  then show ?case
  proof cases
    case 1
    then show ?thesis using reports_mono [OF exec_read_error] by simp
  next
    case 2
    then show ?thesis using reports_mono [OF Cons.IH [OF 2(2)]] by auto
  qed
qed simp

section \<open>Buffers that end in the last field\<close>

lemma read_stmts_gen_fields_append:
  "read_stmts (gen_fields (fs @ gs)) = read_stmts (gen_fields fs) @ read_stmts (gen_fields gs)"
  by (induction fs) simp_all

lemma from_cbor_last:
  assumes "\<forall>f \<in> set fs. sendable f (get_prop src (f_key f))" and "fields_of ps = fs @ [f]"
    and "pre = head_bytes 0xa0 (length ps) @ object_bytes src fs @ key_bytes (f_key f)"
  shows "from_cbor (generate ps) new_obj (pre @ rest) =
    bind_res (run_stmts (exec_read (pre @ rest)) (read_stmts (gen_value f))
        (Some (length pre), receive_all src fs new_obj)) (\<lambda>(off, obj). Inr obj)"
  using exec_read_fields [OF assms(1), of "head_bytes 0xa0 (length ps)" "key_bytes (f_key f) @ rest" new_obj]
  by (simp add: from_cbor_def generate_def assms(2,3) run_stmts_append header_read
      read_stmts_gen_fields_append gen_key_def add.assoc)

text \<open>A missing byte counts as zero: the low bytes of a number are cleared.\<close>

lemma byte_at_high_kept:
  assumes "n \<le> k" shows "byte_at k (push_bit n (drop_bit n w)) = byte_at k w"
proof -
  have "drop_bit k (push_bit n (drop_bit n w)) = drop_bit k w"
    using assms bit_imp_le_length [of w] by (auto intro!: bit_word_eqI simp: bit_simps)
  then show ?thesis by (simp add: byte_at_def)
qed

lemma byte_at_low_cleared:
  "k + 8 \<le> n \<Longrightarrow> byte_at k (push_bit n (drop_bit n w)) = 0"
  by (auto intro!: bit_word_eqI simp: byte_at_def bit_simps)

lemma be32_low_cleared:
  assumes "j \<le> 4"
  shows "be32 (push_bit (8 * (4 - j)) (drop_bit (8 * (4 - j)) w)) = take j (be32 w) @ replicate (4 - j) 0"
proof -
  define n where "n = 8 * (4 - j)"
  have zeros: "replicate 2 (0 :: byte) = [0, 0]" "replicate 3 (0 :: byte) = [0, 0, 0]"
    "replicate 4 (0 :: byte) = [0, 0, 0, 0]"
    by (simp_all add: numeral_eq_Suc)
  consider "j = 0" "n = 32" | "j = 1" "n = 24" | "j = 2" "n = 16" | "j = 3" "n = 8" | "j = 4" "n = 0"
    using assms n_def by (cases "j = 0"; cases "j = 1"; cases "j = 2"; cases "j = 3") auto
  then have "be32 (push_bit n (drop_bit n w)) = take j (be32 w) @ replicate (4 - j) 0"
    using byte_at_low_cleared [of 0 n w] byte_at_low_cleared [of 8 n w] byte_at_low_cleared [of 16 n w]
      byte_at_low_cleared [of 24 n w] byte_at_high_kept [of n 0 w] byte_at_high_kept [of n 8 w]
      byte_at_high_kept [of n 16 w] byte_at_high_kept [of n 24 w]
    by cases (simp_all add: be32_def zeros)
  then show ?thesis by (simp only: n_def)
qed

lemma read_be32_truncated:
  assumes "j \<le> 4"
  shows "read_be32 (pre @ take j (be32 w)) (Some (length pre)) =
    push_bit (8 * (4 - j)) (drop_bit (8 * (4 - j)) w)"
proof -
  have len: "length (take j (be32 w)) = j" using assms by (simp add: be32_def)
  have "bits_of (read_at (pre @ take j (be32 w)) (Some (length pre + i))) =
      bits_of (read_at (pre @ (take j (be32 w) @ replicate (4 - j) 0) @ []) (Some (length pre + i)))"
    if "i < 4" for i
    using that len by (auto simp: read_at_def nth_append)
  from this [of 0] this [of 1] this [of 2] this [of 3]
  have "read_be32 (pre @ take j (be32 w)) (Some (length pre)) =
      read_be32 (pre @ (take j (be32 w) @ replicate (4 - j) 0) @ []) (Some (length pre))"
    by (simp add: read_be32_def)
  then show ?thesis by (simp only: be32_low_cleared [OF assms, symmetric] read_be32_append)
qed

lemma read_int_truncated:
  assumes "j \<le> 4"
  shows "read_int err (pre @ 0x1a # take j (be32 w)) (Some (length pre)) =
    Inr (uint (push_bit (8 * (4 - j)) (drop_bit (8 * (4 - j)) w)), Some (length pre + 5))"
  using read_be32_truncated [OF assms, of "pre @ [0x1a]" w]
  by (simp add: read_int_def Let_def read_at_append)

lemma read_string_field_truncated:
  assumes "n < 2 ^ 32" and "\<not> too_long (Some n) ml" and "length rest < n"
  shows "run_stmts (exec_read (pre @ head_bytes 0x60 n @ rest)) [ReadString k ml] (Some (length pre), obj) =
    Inl (ValidationError UnexpectedEndOfBuffer)"
  using assms text_head.rd_enc [of n "ExpectedString k" pre rest]
  by (simp add: read_string_past_end)

section \<open>Array elements\<close>

text \<open>The integer an array element is read back as: the code coerces, it does not check.\<close>

definition wire_number :: "js_num \<Rightarrow> js_num" where
  "wire_number n =
     (if num_ge0 n then jint (uint (to_int32 n)) else jint (- 1 - uint (to_int32 (neg_minus_one n))))"

lemma uint_range: "0 \<le> uint (w :: 32 word) \<and> uint w < 2 ^ 32"
  using unsigned_less [of w, where ?'a = int] by simp

lemma wide_wire_number: "wide_int (wire_number n)"
proof -
  have w: "wide_int (jint i)" if "- (2 ^ 32) \<le> i" "i < 2 ^ 32" for i
    unfolding wide_int_def using that by blast
  have "wide_int (jint (uint u)) \<and> wide_int (jint (- 1 - uint u))" for u :: "32 word"
    using uint_range [of u] by (intro conjI w) linarith+
  then show ?thesis unfolding wire_number_def by presburger
qed

lemma to_int32_uint: "to_int32 (jint (uint w)) = w"
proof -
  obtain u where u: "uint w = u" by blast
  then have "word_of_int u = w" by (metis word_of_int_uint)
  then show ?thesis unfolding u by simp
qed

lemma int_item_wire: "int_item (wire_number n) = int_item n"
proof (cases "num_ge0 n")
  case True
  then have wn: "wire_number n = jint (uint (to_int32 n))" by (simp add: wire_number_def)
  have "num_ge0 (wire_number n)" unfolding wn num_ge0_jint by (rule uint_range [THEN conjunct1])
  then show ?thesis using True unfolding int_item_def by (simp only: wn to_int32_uint if_True)
next
  case False
  define w where "w = to_int32 (neg_minus_one n)"
  obtain u where u: "uint w = u" by blast
  have wn: "wire_number n = jint (- 1 - u)" using False by (simp only: wire_number_def w_def [symmetric] u if_False)
  have "\<not> num_ge0 (wire_number n)"
    unfolding wn num_ge0_jint using uint_range [of w] u by linarith
  moreover have "neg_minus_one (wire_number n) = jint (uint w)" unfolding u by (simp add: wn)
  ultimately show ?thesis
    using False unfolding int_item_def by (simp only: to_int32_uint w_def if_False)
qed

end
