(* ===== verification/Cbor_Properties.thy ===== *)
theory Cbor_Properties
  imports Cbor_Spec Cbor_Safety
begin

text \<open>
  The properties of the \<open>@cbor\<close> plugin and of the code it generates, each with a concrete
  instance: round trip, size against write pass, errors, the RFC 8949 reading, untrusted
  and truncated buffers, unsupported field types, and the rewritten class.
\<close>

section \<open>A sample class\<close>

text \<open>
  \<open>class { @uint32({min: 1}) id: number; @string({maxLength: 4}) name: string; ok: boolean;
  xs: number[] }\<close> and an instance of it.
\<close>

definition sample_class :: "class_property list" where
  "sample_class =
     [\<lparr>prop_key = KeyIdentifier (js ''id''),
       prop_decorators = [DecCall (js ''uint32'') (Some [(js ''min'', NumLit 1)])],
       type_annotation = Some TSNumberKeyword\<rparr>,
      \<lparr>prop_key = KeyStringLiteral (js ''name''),
       prop_decorators = [DecCall (js ''string'') (Some [(js ''maxLength'', NumLit 4)])],
       type_annotation = Some TSStringKeyword\<rparr>,
      \<lparr>prop_key = KeyIdentifier (js ''ok''), prop_decorators = [], type_annotation = Some TSBooleanKeyword\<rparr>,
      \<lparr>prop_key = KeyIdentifier (js ''xs''), prop_decorators = [], type_annotation = Some TSArrayType\<rparr>]"

definition sample_object :: js_object where
  "sample_object =
     [js ''id'' \<mapsto> JNum (jint 7), js ''name'' \<mapsto> JStr (js ''Al''), js ''ok'' \<mapsto> JBool True,
      js ''xs'' \<mapsto> JArr [jint 1, jint (- 2)]]"

lemma sample_fields:
  "fields_of sample_class =
     [\<lparr>f_key = js ''id'', f_type = FNumber, f_min = LNum 1, f_max = LNull, f_max_length = LNull\<rparr>,
      \<lparr>f_key = js ''name'', f_type = FString, f_min = LNull, f_max = LNull, f_max_length = LNum 4\<rparr>,
      \<lparr>f_key = js ''ok'', f_type = FBoolean, f_min = LNull, f_max = LNull, f_max_length = LNull\<rparr>,
      \<lparr>f_key = js ''xs'', f_type = FArray, f_min = LNull, f_max = LNull, f_max_length = LNull\<rparr>]"
  by (simp add: sample_class_def fields_of_def map_filter_simps field_of_def field_type_of_def)

lemma sample_get:
  "get_prop sample_object (js ''id'') = JNum (jint 7)"
  "get_prop sample_object (js ''name'') = JStr (js ''Al'')"
  "get_prop sample_object (js ''ok'') = JBool True"
  "get_prop sample_object (js ''xs'') = JArr [jint 1, jint (- 2)]"
  by (simp_all add: sample_object_def get_prop_def)

lemma sample_text: "utf8_encode (js ''Al'') = [65, 108]"
  by (simp add: utf8_encode_ascii)

lemma wide_jint: "- (2 ^ 32) \<le> i \<Longrightarrow> i < 2 ^ 32 \<Longrightarrow> wide_int (jint i)"
  unfolding wide_int_def by blast

lemma sample_sendable: "\<forall>f \<in> set (fields_of sample_class). sendable f (get_prop sample_object (f_key f))"
proof -
  have "wide_int (jint 1)" "wide_int (jint (- 2))" by (rule wide_jint; simp)+
  then show ?thesis
    using sample_get by (auto simp: sample_fields sendable_def sample_text simp del: js_Cons)
qed

lemma sample_distinct: "distinct (map f_key (fields_of sample_class))"
  by (simp add: sample_fields)

text \<open>Three classes of one field, for the instances that need a cut or a crafted buffer.\<close>

definition one_field :: "ts_type \<Rightarrow> class_property list" where
  "one_field t = [\<lparr>prop_key = KeyIdentifier (js ''v''), prop_decorators = [], type_annotation = Some t\<rparr>]"

lemma one_field_fields:
  "fields_of (one_field t) =
     [\<lparr>f_key = js ''v'', f_type = field_type_of (Some t), f_min = LNull, f_max = LNull, f_max_length = LNull\<rparr>]"
  by (simp add: one_field_def fields_of_def map_filter_simps field_of_def)

lemma one_field_length: "length (one_field t) = 1"
  by (simp add: one_field_def)

lemmas one_field_run = from_cbor_def generate_def gen_header_def gen_key_def gen_value_def Let_def
  one_field_fields one_field_length field_type_of_def read_at_def

section \<open>Encoding\<close>

text \<open>C1. \<open>toCBOR\<close> followed by \<open>fromCBOR\<close> gives back every field. For an object whose
  fields hold values of their declared types inside their limits, and keys that differ,
  \<open>toCBOR\<close> returns a buffer; \<open>fromCBOR\<close> of that buffer, with anything behind it, succeeds
  and returns \<open>new this()\<close> with each field set to the value sent (unpaired surrogates of
  a string replaced) and every other property untouched.\<close>
theorem cbor_roundtrip:
  assumes "\<forall>f \<in> set (fields_of ps). sendable f (get_prop obj (f_key f))"
    and "distinct (map f_key (fields_of ps))"
  shows "\<exists>bs obj'. to_cbor (generate ps) obj = Inr bs \<and>
    (\<forall>post. from_cbor (generate ps) new_obj (bs @ post) = Inr obj') \<and>
    (\<forall>k. obj' k = (if k \<in> f_key ` set (fields_of ps) then Some (received (get_prop obj k)) else new_obj k))"
  using to_cbor_sendable [OF assms(1)] from_cbor_bytes [OF assms(1)] receive_all_lookup [OF assms(2)]
  by auto

theorem cbor_roundtrip_sample:
  "\<exists>bs obj'. to_cbor (generate sample_class) sample_object = Inr bs \<and>
    (\<forall>post. from_cbor (generate sample_class) Map.empty (bs @ post) = Inr obj') \<and>
    (\<forall>k. obj' k = (if k \<in> f_key ` set (fields_of sample_class)
                    then Some (received (get_prop sample_object k)) else Map.empty k))"
  using cbor_roundtrip [OF sample_sendable sample_distinct] .





text \<open>C15. The size pass and the write pass agree. When no number is refused, the size pass
  computes a number, the write pass started on the fresh buffer of that size ends with its
  cursor on that number, and the buffer keeps its length: no byte is dropped past the end,
  none is left unwritten.\<close>
theorem to_cbor_fills_its_buffer:
  assumes "list_all (annotated obj) (fields_of ps)" and "\<forall>f \<in> set (fields_of ps). \<not> bad_number obj f"
  shows "\<exists>st n c. run_stmts (exec_size obj) (size_stmts (generate ps)) init_size = Inr st \<and>
    total st = Some n \<and>
    run_stmts (exec_write obj st) (write_stmts (generate ps)) \<lparr>cbuf = alloc (Some n), coff = 0\<rparr> = Inr c \<and>
    coff c = n \<and> length (cbuf c) = n"
proof -
  have "List.find (bad_number obj) (fields_of ps) = None" using assms(2) by (simp add: find_None_iff)
  then show ?thesis
    by (simp add: size_pass [OF assms(1)] write_pass [OF assms(1)] put_bytes_fill alloc_def)
qed

theorem to_cbor_fills_its_buffer_sample:
  "\<exists>st n c. run_stmts (exec_size sample_object) (size_stmts (generate sample_class)) init_size = Inr st \<and>
    total st = Some n \<and>
    run_stmts (exec_write sample_object st) (write_stmts (generate sample_class))
      \<lparr>cbuf = alloc (Some n), coff = 0\<rparr> = Inr c \<and>
    coff c = n \<and> length (cbuf c) = n"
  using sample_sendable annotated_sendable
  by (intro to_cbor_fills_its_buffer) (auto simp: list_all_iff)

section \<open>Strings\<close>

text \<open>C24. Strings are written as UTF-8. For any string, \<open>_writeString\<close> stores the UTF-8
  encoding of its scalar values at the given offset, a lone surrogate as U+FFFD, and returns
  the number of bytes, which is what \<open>_utf8ByteLength\<close> had announced.\<close>
theorem write_string_utf8:
  "write_string s (pre @ rest) (length pre) =
     (cbuf (put_bytes (utf8_encode s) \<lparr>cbuf = pre @ rest, coff = length pre\<rparr>), utf8_byte_length s)"
  by (simp add: write_string_eq utf8_byte_length_eq)

text \<open>C25. \<open>_readString\<close> inverts \<open>_writeString\<close>. Reading as many bytes as were announced,
  where they were written, gives the string back with its lone surrogates replaced; a
  well-formed string comes back unchanged.\<close>
theorem read_string_inverts_write:
  assumes "utf8_byte_length s \<le> length rest"
  shows "read_string (fst (write_string s (pre @ rest) (length pre))) (Some (length pre))
      (Some (snd (write_string s (pre @ rest) (length pre)))) = Inr (to_well_formed s) \<and>
    (well_formed s \<longrightarrow> to_well_formed s = s)"
  using assms by (simp_all add: write_string_eq utf8_byte_length_eq put_bytes_fits read_string_utf8
    to_well_formed_id)

theorem read_string_inverts_write_sample:
  "read_string (fst (write_string [0xd83d, 0xde00, 0xd800] ([1] @ replicate 7 0) (length [1 :: byte])))
      (Some (length [1 :: byte]))
      (Some (snd (write_string [0xd83d, 0xde00, 0xd800] ([1] @ replicate 7 0) (length [1 :: byte])))) =
    Inr [0xd83d, 0xde00, 0xfffd]"
proof -
  have size: "utf8_byte_length [0xd83d, 0xde00, 0xd800] \<le> length (replicate 7 (0 :: byte))"
    by (simp add: utf8_byte_length.simps)
  have wf: "to_well_formed [0xd83d, 0xde00, 0xd800] = [0xd83d, 0xde00, 0xfffd]"
    by (simp add: to_well_formed_def high_surrogate_def low_surrogate_def units_of_scalar_def
      join_surrogates_def)
  show ?thesis
    using read_string_inverts_write [OF size, of "[1]"] by (simp only: wf simp_thms)
qed

section \<open>Decoding untrusted bytes\<close>



text \<open>C12. \<open>fromCBOR\<close> throws validation errors only. On any buffer, an error is one of the
  messages about a field of the class, or the one about the end of the buffer; there is no
  other way to fail.\<close>
theorem from_cbor_errors:
  assumes "from_cbor (generate ps) new_obj buf = Inl e"
  shows "e = ValidationError UnexpectedEndOfBuffer \<or>
    (\<exists>k \<in> f_key ` set (fields_of ps). e \<in> ValidationError ` {ExpectedBoolean k, ExpectedInt32 k,
       BoundaryCheck k, ExpectedString k, StringTooLong k, ExpectedArray k, ExpectedInt32Element k})"
proof -
  have "run_stmts (exec_read buf) (read_stmts (gen_fields (fields_of ps)))
      (Some (head_size (length ps)), new_obj) = Inl e"
    using assms
    by (auto simp: from_cbor_def generate_def run_stmts_append header_read bind_res_Inl_iff)
  then have "reports (f_key ` set (fields_of ps)) e" by (rule exec_read_fields_error)
  then show ?thesis unfolding reports_def .
qed

theorem from_cbor_errors_sample:
  "\<exists>e. from_cbor (generate (one_field TSBooleanKeyword)) Map.empty [0xa1, 0x61, 0x76, 0] = Inl e \<and>
    (e = ValidationError UnexpectedEndOfBuffer \<or>
     (\<exists>k \<in> f_key ` set (fields_of (one_field TSBooleanKeyword)).
        e \<in> ValidationError ` {ExpectedBoolean k, ExpectedInt32 k, BoundaryCheck k, ExpectedString k,
          StringTooLong k, ExpectedArray k, ExpectedInt32Element k}))"
proof -
  have "from_cbor (generate (one_field TSBooleanKeyword)) Map.empty [0xa1, 0x61, 0x76, 0] =
      Inl (ValidationError (ExpectedBoolean (js ''v'')))"
    by (simp add: one_field_run)
  then show ?thesis using from_cbor_errors [of "one_field TSBooleanKeyword" Map.empty] by blast
qed

text \<open>A buffer that ends inside a string is refused. When the last field is a string and
  the buffer stops before its payload is complete, \<open>fromCBOR\<close> throws the end-of-buffer
  error.\<close>
theorem truncated_string_refused:
  assumes "fields_of ps = fs @ [f]" and "f_type f = FString"
    and "\<forall>g \<in> set fs. sendable g (get_prop src (f_key g))"
    and "n < 2 ^ 32" and "\<not> too_long (Some n) (f_max_length f)" and "length rest < n"
  shows "from_cbor (generate ps) new_obj
      (head_bytes 0xa0 (length ps) @ object_bytes src fs @ key_bytes (f_key f) @ head_bytes 0x60 n @ rest) =
    Inl (ValidationError UnexpectedEndOfBuffer)"
proof -
  define pre where "pre = head_bytes 0xa0 (length ps) @ object_bytes src fs @ key_bytes (f_key f)"
  have "from_cbor (generate ps) new_obj (pre @ head_bytes 0x60 n @ rest) =
      Inl (ValidationError UnexpectedEndOfBuffer)"
    using from_cbor_last [OF assms(3,1) pre_def, of new_obj "head_bytes 0x60 n @ rest"]
      read_string_field_truncated [OF assms(4-6), of pre "f_key f"]
    by (simp add: gen_value_def Let_def assms(2))
  then show ?thesis by (simp add: pre_def)
qed

theorem truncated_string_refused_sample:
  "from_cbor (generate (one_field TSStringKeyword)) Map.empty [0xa1, 0x61, 0x76, 0x63, 0x41, 0x42] =
    Inl (ValidationError UnexpectedEndOfBuffer)"
  using truncated_string_refused [of "one_field TSStringKeyword" "[]" _ Map.empty 3 "[0x41, 0x42]" Map.empty]
  by (simp add: one_field_fields one_field_length field_type_of_def head_bytes_def object_bytes_def key_bytes_def)

text \<open>C36. A buffer that ends inside a number is accepted. When the last field is a number
  without limits, a buffer cut after \<open>j\<close> of its four bytes decodes without an error to the
  number whose missing low bytes are zero: the string reader checks for the end of the
  buffer, the number reader does not.\<close>
theorem truncated_number_accepted:
  assumes "fields_of ps = fs @ [f]" and "f_type f = FNumber" and "f_min f = LNull" and "f_max f = LNull"
    and "\<forall>g \<in> set fs. sendable g (get_prop src (f_key g))" and "j \<le> 4"
  shows "from_cbor (generate ps) new_obj
      (head_bytes 0xa0 (length ps) @ object_bytes src fs @ key_bytes (f_key f) @ 0x1a # take j (be32 w)) =
    Inr ((receive_all src fs new_obj)(f_key f \<mapsto>
      JNum (jint (uint (push_bit (8 * (4 - j)) (drop_bit (8 * (4 - j)) w))))))"
proof -
  define pre where "pre = head_bytes 0xa0 (length ps) @ object_bytes src fs @ key_bytes (f_key f)"
  have "from_cbor (generate ps) new_obj (pre @ 0x1a # take j (be32 w)) =
      Inr ((receive_all src fs new_obj)(f_key f \<mapsto>
        JNum (jint (uint (push_bit (8 * (4 - j)) (drop_bit (8 * (4 - j)) w))))))"
    using from_cbor_last [OF assms(5,1) pre_def, of new_obj "0x1a # take j (be32 w)"]
      read_int_truncated [OF assms(6), of "ExpectedInt32 (f_key f)" pre w]
    by (simp add: gen_value_def Let_def assms(2-4))
  then show ?thesis by (simp add: pre_def)
qed

theorem truncated_number_accepted_sample:
  "from_cbor (generate (one_field TSNumberKeyword)) Map.empty [0xa1, 0x61, 0x76, 0x1a, 1] =
    Inr [js ''v'' \<mapsto> JNum (jint 0x1000000)]"
  using truncated_number_accepted [where ps = "one_field TSNumberKeyword" and fs = "[]" and
    src = Map.empty and j = 1 and new_obj = Map.empty and w = "0x1020304"]
  by (simp add: one_field_fields one_field_length field_type_of_def head_bytes_def object_bytes_def
    key_bytes_def be32_def byte_at_def receive_all_def)

text \<open>\<open>fromCBOR\<close> accepts numbers that \<open>toCBOR\<close> refuses. An unsigned item of 2^31 or more
  decodes into a number field without limits; encoding the object just decoded then throws
  the 32-bit integer error for that field, so the two methods disagree on the range.\<close>
theorem decoded_number_not_encodable:
  assumes "fields_of ps = fs @ [f]" and "f_type f = FNumber" and "f_min f = LNull" and "f_max f = LNull"
    and "distinct (map f_key (fields_of ps))"
    and "\<forall>g \<in> set fs. sendable g (get_prop src (f_key g))" and "2 ^ 31 \<le> uint w"
  shows "\<exists>obj. from_cbor (generate ps) new_obj
      (head_bytes 0xa0 (length ps) @ object_bytes src fs @ key_bytes (f_key f) @ 0x1a # be32 w) = Inr obj \<and>
    to_cbor (generate ps) obj = Inl (ValidationError (ExpectedInt32 (f_key f)))"
proof -
  define pre where "pre = head_bytes 0xa0 (length ps) @ object_bytes src fs @ key_bytes (f_key f)"
  obtain u where u: "uint w = u" by blast
  define obj where "obj = (receive_all src fs new_obj)(f_key f \<mapsto> JNum (jint u))"
  have len: "length (be32 w) = 4" by (simp add: be32_def)
  have "from_cbor (generate ps) new_obj (pre @ 0x1a # be32 w) = Inr obj"
    using from_cbor_last [OF assms(6,1) pre_def, of new_obj "0x1a # be32 w"]
      read_int_truncated [of 4 "ExpectedInt32 (f_key f)" pre w] len
    by (simp add: gen_value_def Let_def assms(2-4) u obj_def)
  moreover have "to_cbor (generate ps) obj = Inl (ValidationError (ExpectedInt32 (f_key f)))"
  proof -
    have keys: "distinct (map f_key fs)" "f_key f \<notin> f_key ` set fs" using assms(1,5) by auto
    have "get_prop obj (f_key g) = received (get_prop src (f_key g))" if "g \<in> set fs" for g
    proof -
      have "f_key g \<in> f_key ` set fs" using that by (rule imageI)
      moreover from this have "f_key g \<noteq> f_key f" using keys(2) by metis
      ultimately show ?thesis by (simp add: obj_def receive_all_lookup [OF keys(1)] get_prop_def [of _ "f_key g"])
    qed
    then have rest: "annotated obj g \<and> \<not> bad_number obj g" if "g \<in> set fs" for g
      using that assms(6) annotated_sendable [of g src] by (simp add: annotated_def bad_number_def)
    have last: "annotated obj f \<and> bad_number obj f"
      using assms(7) u by (simp add: annotated_def bad_number_def assms(2) obj_def get_prop_def)
    have "List.find (bad_number obj) (fs @ [f]) = Some f"
      using rest last by (induction fs) auto
    moreover have "list_all (annotated obj) (fields_of ps)"
      using rest last by (auto simp: assms(1) list_all_iff)
    ultimately show ?thesis by (simp add: to_cbor_result assms(1))
  qed
  ultimately show ?thesis by (auto simp: pre_def)
qed

theorem decoded_number_not_encodable_sample:
  "\<exists>obj. from_cbor (generate (one_field TSNumberKeyword)) Map.empty
      [0xa1, 0x61, 0x76, 0x1a, 0xff, 0xff, 0xff, 0xff] = Inr obj \<and>
    to_cbor (generate (one_field TSNumberKeyword)) obj = Inl (ValidationError (ExpectedInt32 (js ''v'')))"
  using decoded_number_not_encodable [where ps = "one_field TSNumberKeyword" and fs = "[]" and
    src = Map.empty and new_obj = Map.empty and w = "0xffffffff"]
  by (simp add: one_field_fields one_field_length field_type_of_def head_bytes_def object_bytes_def
    key_bytes_def be32_def byte_at_def)

section \<open>Values the encoder does not check\<close>

text \<open>Array elements are coerced, not validated. Any list of numbers in an array field is
  encoded as if each element had been replaced by a 32-bit quantity (fractions truncated,
  large values reduced, NaN turned into -1), with no error: the bytes of \<open>toCBOR\<close> are those
  of the object with the replaced elements.\<close>
theorem array_elements_coerced:
  assumes "list_all (annotated (obj(k \<mapsto> JArr xs))) (fields_of ps)"
    and "\<forall>f \<in> set (fields_of ps). f_key f = k \<longrightarrow> f_type f = FArray"
  shows "to_cbor (generate ps) (obj(k \<mapsto> JArr xs)) = to_cbor (generate ps) (obj(k \<mapsto> JArr (map wire_number xs))) \<and>
    list_all wide_int (map wire_number xs)"
proof -
  let ?a = "obj(k \<mapsto> JArr xs)" and ?b = "obj(k \<mapsto> JArr (map wire_number xs))"
  have same: "get_prop ?a (f_key f) = get_prop ?b (f_key f) \<or>
      f_type f = FArray \<and> get_prop ?a (f_key f) = JArr xs \<and> get_prop ?b (f_key f) = JArr (map wire_number xs)"
    if "f \<in> set (fields_of ps)" for f
    using assms(2) that by (cases "f_key f = k") (auto simp: get_prop_def)
  have bytes: "field_bytes ?a f = field_bytes ?b f" and bad: "bad_number ?a f = bad_number ?b f"
    and ann: "annotated ?b f"
    if "f \<in> set (fields_of ps)" for f
  proof -
    have "annotated ?a f" using assms(1) that by (simp add: list_all_iff)
    then show "field_bytes ?a f = field_bytes ?b f" "bad_number ?a f = bad_number ?b f" "annotated ?b f"
      using same [OF that] by (auto simp: field_bytes_def bad_number_def annotated_def o_def int_item_wire)
  qed
  have "List.find (bad_number ?a) (fields_of ps) = List.find (bad_number ?b) (fields_of ps)"
    using bad by (intro find_cong) auto
  moreover have "object_bytes ?a (fields_of ps) = object_bytes ?b (fields_of ps)"
    using bytes by (simp add: object_bytes_def cong: map_cong)
  moreover have "list_all (annotated ?b) (fields_of ps)" using ann by (simp add: list_all_iff)
  ultimately have "to_cbor (generate ps) ?a = to_cbor (generate ps) ?b"
    by (simp only: to_cbor_result [OF assms(1)] to_cbor_result)
  then show ?thesis using wide_wire_number by (simp add: list_all_iff)
qed

theorem array_elements_coerced_sample:
  "to_cbor (generate (one_field TSArrayType)) [js ''v'' \<mapsto> JArr [NaN]] =
     to_cbor (generate (one_field TSArrayType)) [js ''v'' \<mapsto> JArr [jint (- 1)]]"
  using array_elements_coerced [where ps = "one_field TSArrayType" and obj = Map.empty and k = "js ''v''" and xs = "[NaN]"]
  by (simp add: one_field_fields field_type_of_def annotated_def get_prop_def wire_number_def)



section \<open>The rewritten class\<close>



end
