(* ===== verification/Cookie.thy ===== *)
theory Cookie
  imports Js_Text "HOL-Library.While_Combinator"
begin

text \<open>
  \<open>packages/ohn-cookie/src/ohn-cookie.js\<close>: the scanner that turns a cookie header into
  index pairs, and the lookup of one cookie. The loops keep their indices; the
  specification splits the header at semicolons and each segment at its first equals sign.
\<close>

section \<open>The scanner\<close>

abbreviation space :: byte where "space \<equiv> 0x20"
abbreviation equals :: byte where "equals \<equiv> 0x3d"
abbreviation semicolon :: byte where "semicolon \<equiv> 0x3b"

text \<open>\<open>while (i < len && P(buffer[i])) i++\<close>\<close>

function skip_while :: "(byte \<Rightarrow> bool) \<Rightarrow> byte list \<Rightarrow> nat \<Rightarrow> nat" where
  "skip_while P buffer i =
     (if i < length buffer \<and> P (buffer ! i) then skip_while P buffer (i + 1) else i)"
  by pat_completeness auto
termination
  by (relation "measure (\<lambda>(P, buffer, i). length buffer - i)") auto

declare skip_while.simps [simp del]

text \<open>\<open>while (end > start && buffer[end - 1] === 0x20) end--\<close>\<close>

function trim_end :: "byte list \<Rightarrow> nat \<Rightarrow> nat \<Rightarrow> nat" where
  "trim_end buffer start e =
     (if e > start \<and> buffer ! (e - 1) = space then trim_end buffer start (e - 1) else e)"
  by pat_completeness auto
termination
  by (relation "measure (\<lambda>(buffer, start, e). e)") auto

declare trim_end.simps [simp del]

record pointer =
  key_start :: nat
  key_end :: nat
  val_start :: nat
  val_end :: nat

text \<open>
  One turn of the outer loop from the first byte that is not a space: the pointers pushed,
  and the index at the end of the turn, before the semicolon is skipped.
\<close>

definition scan_one :: "byte list \<Rightarrow> nat \<Rightarrow> pointer \<times> nat" where
  "scan_one buffer keyStart =
     (let i = skip_while (\<lambda>b. b \<noteq> equals \<and> b \<noteq> semicolon) buffer keyStart;
          keyEnd = trim_end buffer keyStart i
      in if i < length buffer \<and> buffer ! i = equals then
           (let valStart = skip_while (\<lambda>b. b = space) buffer (i + 1);
                j = skip_while (\<lambda>b. b \<noteq> semicolon) buffer valStart;
                valEnd = trim_end buffer valStart j
            in (\<lparr>key_start = keyStart, key_end = keyEnd, val_start = valStart, val_end = valEnd\<rparr>, j))
         else (\<lparr>key_start = keyStart, key_end = keyEnd, val_start = keyEnd, val_end = keyEnd\<rparr>, i))"

lemma skip_while_ge: "i \<le> skip_while P buffer i"
  by (induction P buffer i rule: skip_while.induct) (subst skip_while.simps, auto)

lemma skip_while_le: "i \<le> length buffer \<Longrightarrow> skip_while P buffer i \<le> length buffer"
  by (induction P buffer i rule: skip_while.induct) (subst skip_while.simps, auto)

lemma skip_while_stops:
  "skip_while P buffer i < length buffer \<Longrightarrow> \<not> P (buffer ! skip_while P buffer i)"
proof (induction P buffer i rule: skip_while.induct)
  case (1 P buffer i)
  then show ?case by (cases "i < length buffer \<and> P (buffer ! i)") (simp_all add: skip_while.simps [of P buffer i])
qed

definition skip_semicolon :: "byte list \<Rightarrow> nat \<Rightarrow> nat" where
  "skip_semicolon buffer i = (if i < length buffer \<and> buffer ! i = semicolon then i + 1 else i)"

text \<open>Every turn moves on: it consumes the equals sign, the semicolon, or a byte of the key.\<close>

lemma scan_one_progress:
  assumes "k < length buffer"
  shows "k < skip_semicolon buffer (snd (scan_one buffer k))"
proof -
  let ?i = "skip_while (\<lambda>b. b \<noteq> equals \<and> b \<noteq> semicolon) buffer k"
  have i: "k \<le> ?i" by (rule skip_while_ge)
  have stop: "buffer ! ?i = equals \<or> buffer ! ?i = semicolon" if "?i < length buffer"
    using skip_while_stops [OF that] by auto
  show ?thesis
  proof (cases "?i < length buffer \<and> buffer ! ?i = equals")
    case True
    let ?v = "skip_while (\<lambda>b. b = space) buffer (?i + 1)"
    have "?i + 1 \<le> ?v" "?v \<le> skip_while (\<lambda>b. b \<noteq> semicolon) buffer ?v" by (rule skip_while_ge)+
    then show ?thesis using True i by (simp add: scan_one_def Let_def skip_semicolon_def)
  next
    case False
    then have "snd (scan_one buffer k) = ?i" by (auto simp: scan_one_def Let_def)
    then show ?thesis using stop i assms False by (auto simp: skip_semicolon_def)
  qed
qed

function scan_loop :: "byte list \<Rightarrow> nat \<Rightarrow> pointer list" where
  "scan_loop buffer i =
     (let keyStart = skip_while (\<lambda>b. b = space) buffer i
      in if keyStart < length buffer then
           fst (scan_one buffer keyStart) #
             scan_loop buffer (skip_semicolon buffer (snd (scan_one buffer keyStart)))
         else [])"
  by pat_completeness auto
termination
proof (relation "measure (\<lambda>(buffer, i). length buffer - i)")
  fix buffer i keyStart
  assume "keyStart = skip_while (\<lambda>b. b = space) buffer i" and "keyStart < length buffer"
  then show "((buffer, skip_semicolon buffer (snd (scan_one buffer keyStart))), buffer, i)
      \<in> measure (\<lambda>(buffer, i). length buffer - i)"
    using scan_one_progress [of keyStart buffer] skip_while_ge [of i "\<lambda>b. b = space" buffer] by simp
qed simp

declare scan_loop.simps [simp del]

definition scanCookies :: "byte list \<Rightarrow> pointer list" where
  "scanCookies buffer = scan_loop buffer 0"

section \<open>The lookup\<close>

text \<open>The inner loop of \<open>getCookie\<close>: the key's bytes against the buffer's, from \<open>j\<close> on.\<close>

fun key_matches :: "byte list \<Rightarrow> nat \<Rightarrow> byte list \<Rightarrow> bool" where
  "key_matches headerBuffer pos [] = True"
| "key_matches headerBuffer pos (b # keyBuf) =
     (if read_at headerBuffer (Some pos) = Some b then key_matches headerBuffer (pos + 1) keyBuf
      else False)"

fun find_cookie :: "byte list \<Rightarrow> byte list \<Rightarrow> pointer list \<Rightarrow> js_string option" where
  "find_cookie headerBuffer keyBuf [] = None"
| "find_cookie headerBuffer keyBuf (p # ps) =
     (if key_end p - key_start p = length keyBuf \<and> key_matches headerBuffer (key_start p) keyBuf then
        (if val_start p = val_end p then Some []
         else Some (utf8_decode (slice (val_start p) (val_end p) headerBuffer)))
      else find_cookie headerBuffer keyBuf ps)"

definition getCookie :: "byte list \<Rightarrow> js_string \<Rightarrow> js_string option" where
  "getCookie headerBuffer keyString =
     find_cookie headerBuffer (utf8_encode keyString) (scanCookies headerBuffer)"

section \<open>The specification\<close>

definition trim :: "byte list \<Rightarrow> byte list" where
  "trim bs = rev (dropWhile (\<lambda>b. b = space) (rev (dropWhile (\<lambda>b. b = space) bs)))"

definition pair_of :: "byte list \<Rightarrow> byte list \<times> byte list" where
  "pair_of seg = (trim (takeWhile (\<lambda>b. b \<noteq> equals) seg), trim (drop 1 (dropWhile (\<lambda>b. b \<noteq> equals) seg)))"

text \<open>The segments between semicolons; an empty or blank one at the end does not count.\<close>

function segments :: "byte list \<Rightarrow> byte list list" where
  "segments bs =
     (case dropWhile (\<lambda>b. b \<noteq> semicolon) bs of
        [] \<Rightarrow> if list_all (\<lambda>b. b = space) bs then [] else [bs]
      | _ # rest \<Rightarrow> takeWhile (\<lambda>b. b \<noteq> semicolon) bs # segments rest)"
  by pat_completeness auto
termination
proof (relation "measure length")
  fix bs rest :: "byte list" and x
  assume "dropWhile (\<lambda>b. b \<noteq> semicolon) bs = x # rest"
  then have "length (x # rest) \<le> length bs" by (metis length_dropWhile_le)
  then show "(rest, bs) \<in> measure length" by simp
qed simp

declare segments.simps [simp del]

definition cookie_pairs :: "byte list \<Rightarrow> (byte list \<times> byte list) list" where
  "cookie_pairs buffer = map pair_of (segments buffer)"

definition key_of :: "byte list \<Rightarrow> pointer \<Rightarrow> byte list" where
  "key_of buffer p = slice (key_start p) (key_end p) buffer"

definition value_at :: "byte list \<Rightarrow> pointer \<Rightarrow> byte list" where
  "value_at buffer p = slice (val_start p) (val_end p) buffer"

definition in_bounds :: "nat \<Rightarrow> pointer \<Rightarrow> bool" where
  "in_bounds n p \<longleftrightarrow> key_start p \<le> key_end p \<and> key_end p \<le> val_start p \<and>
     val_start p \<le> val_end p \<and> val_end p \<le> n"

section \<open>The loops against the specification\<close>

lemma skip_while_eq: "skip_while P buffer i = i + length (takeWhile P (drop i buffer))"
proof (induction P buffer i rule: skip_while.induct)
  case (1 P buffer i)
  show ?case
  proof (cases "i < length buffer")
    case True
    then have "drop i buffer = buffer ! i # drop (i + 1) buffer"
      using Cons_nth_drop_Suc [of i buffer] by simp
    then show ?thesis using 1 True by (simp add: skip_while.simps [of P buffer i])
  qed (simp add: skip_while.simps)
qed

lemma drop_skip_while: "drop (skip_while P buffer i) buffer = dropWhile P (drop i buffer)"
  by (simp add: skip_while_eq dropWhile_eq_drop add.commute)

lemma slice_skip_while: "slice i (skip_while P buffer i) buffer = takeWhile P (drop i buffer)"
  by (simp add: skip_while_eq slice_def takeWhile_eq_take [symmetric])

definition trim_right :: "byte list \<Rightarrow> byte list" where
  "trim_right bs = rev (dropWhile (\<lambda>b. b = space) (rev bs))"

lemma trim_right_simps [simp]:
  "trim_right [] = []" "trim_right (bs @ [b]) = (if b = space then trim_right bs else bs @ [b])"
  by (simp_all add: trim_right_def)

lemma trim_eq: "trim bs = trim_right (dropWhile (\<lambda>b. b = space) bs)"
  by (simp add: trim_def trim_right_def)

lemma slice_last:
  assumes "i < j" "j \<le> length xs"
  shows "slice i j xs = slice i (j - 1) xs @ [xs ! (j - 1)]"
proof -
  have "j - i = Suc (j - 1 - i)" using assms by simp
  then have "slice i j xs = take (j - 1 - i) (drop i xs) @ [drop i xs ! (j - 1 - i)]"
    using assms by (simp add: slice_def take_Suc_conv_app_nth del: drop_append)
  then show ?thesis using assms by (simp add: slice_def)
qed

lemma trim_end_slice:
  assumes "start \<le> e" and "e \<le> length buffer"
  shows "slice start (trim_end buffer start e) buffer = trim_right (slice start e buffer) \<and>
    start \<le> trim_end buffer start e \<and> trim_end buffer start e \<le> e"
  using assms
proof (induction buffer start e rule: trim_end.induct)
  case (1 buffer start e)
  show ?case
  proof (cases "e > start \<and> buffer ! (e - 1) = space")
    case True
    then have "trim_end buffer start e = trim_end buffer start (e - 1)" by (simp add: trim_end.simps [of _ _ e])
    moreover have "slice start (trim_end buffer start (e - 1)) buffer = trim_right (slice start (e - 1) buffer) \<and>
        start \<le> trim_end buffer start (e - 1) \<and> trim_end buffer start (e - 1) \<le> e - 1"
      using 1 True by (intro 1(1)) auto
    ultimately show ?thesis using True 1(3) slice_last [of start e buffer] by auto
  next
    case False
    then have "trim_end buffer start e = e" by (subst trim_end.simps) auto
    then show ?thesis using 1 False slice_last [of start e buffer] by (cases "e > start") auto
  qed
qed

lemma takeWhile_both: "takeWhile P (takeWhile Q bs) = takeWhile (\<lambda>b. P b \<and> Q b) bs"
  by (induction bs) auto

lemma takeWhile_dropWhile_swap:
  "(\<And>b. P b \<Longrightarrow> Q b) \<Longrightarrow> takeWhile Q (dropWhile P bs) = dropWhile P (takeWhile Q bs)"
  by (induction bs) auto

lemma length_takeWhile_split:
  "(\<And>b. P b \<Longrightarrow> Q b) \<Longrightarrow>
   length (takeWhile Q bs) = length (takeWhile P bs) + length (takeWhile Q (dropWhile P bs))"
  by (induction bs) auto

text \<open>A segment up to its equals sign, and one without.\<close>

lemma segment_at_equals:
  assumes "\<forall>b \<in> set pre. b \<noteq> equals \<and> b \<noteq> semicolon"
  shows "takeWhile (\<lambda>b. b \<noteq> semicolon) (pre @ equals # r) =
      pre @ equals # takeWhile (\<lambda>b. b \<noteq> semicolon) r"
    and "takeWhile (\<lambda>b. b \<noteq> equals) (pre @ equals # r) = pre"
    and "dropWhile (\<lambda>b. b \<noteq> equals) (pre @ equals # r) = equals # r"
    and "r = [] \<or> hd r = semicolon \<Longrightarrow> takeWhile (\<lambda>b. b \<noteq> semicolon) (pre @ r) = pre"
    and "takeWhile (\<lambda>b. b \<noteq> equals) pre = pre" and "dropWhile (\<lambda>b. b \<noteq> equals) pre = []"
  using assms by (induction pre; cases r; auto)+

text \<open>One turn of the scanner on the segment that starts at \<open>k\<close>.\<close>

lemma scan_one_segment:
  assumes "k \<le> length buffer" and seg: "seg = takeWhile (\<lambda>b. b \<noteq> semicolon) (drop k buffer)"
    and run: "scan_one buffer k = (p, j)"
  shows "key_of buffer p = trim_right (takeWhile (\<lambda>b. b \<noteq> equals) seg) \<and>
    value_at buffer p = trim (drop 1 (dropWhile (\<lambda>b. b \<noteq> equals) seg)) \<and>
    j = k + length seg \<and> key_start p = k \<and> in_bounds j p"
proof -
  let ?in_key = "\<lambda>b. b \<noteq> equals \<and> b \<noteq> semicolon"
  define i where "i = skip_while ?in_key buffer k"
  define pre where "pre = slice k i buffer"
  have i: "k \<le> i" "i \<le> length buffer"
    using assms(1) by (auto simp: i_def skip_while_ge intro: skip_while_le)
  have pre: "pre = takeWhile ?in_key (drop k buffer)" "\<forall>b \<in> set pre. ?in_key b" "i = k + length pre"
    unfolding pre_def i_def slice_skip_while by (auto simp: skip_while_eq dest: set_takeWhileD)
  have split: "drop k buffer = pre @ drop i buffer"
    unfolding pre(1) i_def drop_skip_while by simp
  note segment = segment_at_equals [OF pre(2)]
  note key = trim_end_slice [OF i, folded pre_def]
  show ?thesis
  proof (cases "i < length buffer \<and> buffer ! i = equals")
    case True
    define v where "v = skip_while (\<lambda>b. b = space) buffer (i + 1)"
    define e where "e = skip_while (\<lambda>b. b \<noteq> semicolon) buffer v"
    define r where "r = drop (i + 1) buffer"
    have "scan_one buffer k =
        (\<lparr>key_start = k, key_end = trim_end buffer k i, val_start = v, val_end = trim_end buffer v e\<rparr>, e)"
      unfolding scan_one_def Let_def i_def [symmetric] v_def [symmetric] e_def [symmetric]
      using True by (simp only: if_True simp_thms)
    then have p: "p = \<lparr>key_start = k, key_end = trim_end buffer k i, val_start = v, val_end = trim_end buffer v e\<rparr>"
      and j: "j = e"
      using run by simp_all
    have order: "i + 1 \<le> v" "v \<le> e" "e \<le> length buffer"
      using True skip_while_ge [of "i + 1"] skip_while_ge [of v]
      by (auto simp: v_def e_def intro!: skip_while_le)
    have "drop i buffer = equals # r"
      using True Cons_nth_drop_Suc [of i buffer] by (simp add: r_def)
    then have seg': "seg = pre @ equals # takeWhile (\<lambda>b. b \<noteq> semicolon) r"
      using segment(1) [of r] by (simp add: seg split)
    have "slice v e buffer = dropWhile (\<lambda>b. b = space) (takeWhile (\<lambda>b. b \<noteq> semicolon) r)"
      unfolding e_def slice_skip_while v_def drop_skip_while r_def [symmetric]
      by (rule takeWhile_dropWhile_swap) auto
    moreover have "e = i + 1 + length (takeWhile (\<lambda>b. b \<noteq> semicolon) r)"
    proof -
      have v: "v = i + 1 + length (takeWhile (\<lambda>b. b = space) r)"
        by (simp only: v_def skip_while_eq r_def)
      have "drop v buffer = dropWhile (\<lambda>b. b = space) r" by (simp only: v_def drop_skip_while r_def)
      then have "e = v + length (takeWhile (\<lambda>b. b \<noteq> semicolon) (dropWhile (\<lambda>b. b = space) r))"
        by (simp only: e_def skip_while_eq)
      moreover have "length (takeWhile (\<lambda>b. b \<noteq> semicolon) r) = length (takeWhile (\<lambda>b. b = space) r) +
          length (takeWhile (\<lambda>b. b \<noteq> semicolon) (dropWhile (\<lambda>b. b = space) r))"
        by (rule length_takeWhile_split) auto
      ultimately show ?thesis using v by linarith
    qed
    ultimately show ?thesis
      using key trim_end_slice [of v e buffer] order i
      by (simp add: p j seg' segment key_of_def value_at_def trim_eq in_bounds_def pre(3))
  next
    case False
    have "scan_one buffer k =
        (\<lparr>key_start = k, key_end = trim_end buffer k i,
          val_start = trim_end buffer k i, val_end = trim_end buffer k i\<rparr>, i)"
      unfolding scan_one_def Let_def i_def [symmetric] using False by (simp only: if_False simp_thms)
    then have p: "p = \<lparr>key_start = k, key_end = trim_end buffer k i,
        val_start = trim_end buffer k i, val_end = trim_end buffer k i\<rparr>" and j: "j = i"
      using run by simp_all
    have "drop i buffer = [] \<or> hd (drop i buffer) = semicolon"
      using False skip_while_stops [of ?in_key buffer k]
      by (cases "i < length buffer") (auto simp: i_def [symmetric] hd_drop_conv_nth)
    then have "seg = pre" using segment(4) by (simp add: seg split)
    then show ?thesis
      using key i by (simp add: p j segment key_of_def value_at_def trim_eq in_bounds_def pre(3))
  qed
qed

text \<open>The scanner from index \<open>i\<close> on yields the pairs of the rest of the header.\<close>

lemma segments_blank: "list_all (\<lambda>b. b = space) bs \<Longrightarrow> segments bs = []"
proof -
  assume "list_all (\<lambda>b. b = space) bs"
  then have "dropWhile (\<lambda>b. b \<noteq> semicolon) bs = []" by (auto simp: list_all_iff dropWhile_eq_Nil_conv)
  then show "segments bs = []"
    using \<open>list_all _ bs\<close> by (subst segments.simps) (simp del: dropWhile_eq_Nil_conv)
qed

lemma pair_of_spaces:
  "list_all (\<lambda>b. b = space) sp \<Longrightarrow> pair_of (sp @ seg) = pair_of seg"
  by (induction sp) (simp_all add: pair_of_def trim_def)

lemma pair_of_unspaced:
  "seg = [] \<or> hd seg \<noteq> space \<Longrightarrow>
   pair_of seg = (trim_right (takeWhile (\<lambda>b. b \<noteq> equals) seg), trim (drop 1 (dropWhile (\<lambda>b. b \<noteq> equals) seg)))"
  by (cases seg) (auto simp: pair_of_def trim_eq split: if_splits)

lemma scan_loop_pairs:
  "map (\<lambda>p. (key_of buffer p, value_at buffer p)) (scan_loop buffer i) =
     map pair_of (segments (drop i buffer))"
proof (induction buffer i rule: scan_loop.induct)
  case (1 buffer i)
  define sp where "sp = takeWhile (\<lambda>b. b = space) (drop i buffer)"
  define k where "k = skip_while (\<lambda>b. b = space) buffer i"
  have sp: "list_all (\<lambda>b. b = space) sp" by (auto simp: sp_def list_all_iff dest: set_takeWhileD)
  have rest: "drop i buffer = sp @ drop k buffer" by (simp add: sp_def k_def drop_skip_while)
  show ?case
  proof (cases "k < length buffer")
    case False
    then have "list_all (\<lambda>b. b = space) (drop i buffer)" using sp rest by simp
    then show ?thesis using False by (simp add: segments_blank scan_loop.simps [of _ i] k_def [symmetric])
  next
    case True
    define seg where "seg = takeWhile (\<lambda>b. b \<noteq> semicolon) (drop k buffer)"
    obtain p j where run: "scan_one buffer k = (p, j)" by force
    note one = scan_one_segment [OF less_imp_le [OF True] seg_def run]
    have IH: "map (\<lambda>p. (key_of buffer p, value_at buffer p)) (scan_loop buffer (skip_semicolon buffer j)) =
        map pair_of (segments (drop (skip_semicolon buffer j) buffer))"
      using 1 [OF k_def True] run by simp
    have "drop k buffer \<noteq> []" and "hd (drop k buffer) \<noteq> space"
      using True skip_while_stops [of "\<lambda>b. b = space" buffer i]
      by (auto simp: k_def [symmetric] hd_drop_conv_nth)
    then have "seg = [] \<or> hd seg \<noteq> space" by (cases "drop k buffer") (auto simp: seg_def)
    then have pair: "pair_of (sp @ seg) = (key_of buffer p, value_at buffer p)"
      using one by (simp add: pair_of_spaces [OF sp] pair_of_unspaced)
    have loop: "scan_loop buffer i = p # scan_loop buffer (skip_semicolon buffer j)"
      using True run by (simp add: scan_loop.simps [of _ i] k_def [symmetric])
    have j: "drop j buffer = dropWhile (\<lambda>b. b \<noteq> semicolon) (drop k buffer)"
      using one by (simp add: seg_def dropWhile_eq_drop add.commute)
    have "\<forall>b \<in> set sp. b \<noteq> semicolon" using sp by (auto simp: list_all_iff)
    then have stop: "dropWhile (\<lambda>b. b \<noteq> semicolon) (drop i buffer) = drop j buffer"
      and seg_i: "takeWhile (\<lambda>b. b \<noteq> semicolon) (drop i buffer) = sp @ seg"
      by (simp_all add: rest j seg_def dropWhile_append2 takeWhile_append2)
    have not_blank: "\<not> list_all (\<lambda>b. b = space) (drop i buffer)"
      using \<open>drop k buffer \<noteq> []\<close> \<open>hd (drop k buffer) \<noteq> space\<close>
      by (cases "drop k buffer") (auto simp: rest)
    show ?thesis
    proof (cases "drop j buffer")
      case Nil
      then have "skip_semicolon buffer j = j" by (simp add: skip_semicolon_def)
      moreover have "segments (drop i buffer) = [drop i buffer]"
        using not_blank by (subst segments.simps) (simp only: stop Nil list.case if_False)
      moreover have "drop i buffer = sp @ seg"
        using takeWhile_dropWhile_id [of "\<lambda>b. b \<noteq> semicolon" "drop i buffer"]
        by (simp only: stop seg_i Nil append_Nil2)
      ultimately show ?thesis using IH Nil pair by (simp add: loop segments_blank)
    next
      case (Cons x r)
      then have len: "j < length buffer" by (metis drop_eq_Nil2 list.distinct(1) not_le)
      then have "x = buffer ! j" "r = drop (j + 1) buffer"
        using Cons Cons_nth_drop_Suc [of j buffer] by simp_all
      moreover have "x = semicolon"
        using Cons j hd_dropWhile [of "\<lambda>b. b \<noteq> semicolon" "drop k buffer"] by auto
      ultimately have "skip_semicolon buffer j = j + 1" "drop (j + 1) buffer = r"
        using len by (simp_all add: skip_semicolon_def)
      moreover have "segments (drop i buffer) = (sp @ seg) # segments r"
        by (subst segments.simps) (simp only: stop Cons list.case seg_i)
      ultimately show ?thesis using IH pair by (simp add: loop)
    qed
  qed
qed

text \<open>The pointers lie in the buffer and follow each other.\<close>

lemma scan_loop_order:
  "list_all (\<lambda>p. in_bounds (length buffer) p \<and> i \<le> key_start p) (scan_loop buffer i) \<and>
   sorted_wrt (\<lambda>p q. val_end p < key_start q) (scan_loop buffer i)"
proof (induction buffer i rule: scan_loop.induct)
  case (1 buffer i)
  define k where "k = skip_while (\<lambda>b. b = space) buffer i"
  have "i \<le> k" by (simp add: k_def skip_while_ge)
  show ?case
  proof (cases "k < length buffer")
    case True
    obtain p j where run: "scan_one buffer k = (p, j)" by force
    define nx where "nx = skip_semicolon buffer j"
    have one: "key_start p = k" "in_bounds j p" "j = k + length (takeWhile (\<lambda>b. b \<noteq> semicolon) (drop k buffer))"
      using scan_one_segment [OF less_imp_le [OF True] refl run] by blast+
    have j: "j \<le> length buffer"
      using one(3) True length_takeWhile_le [of "\<lambda>b. b \<noteq> semicolon" "drop k buffer"] by simp
    have rest: "list_all (\<lambda>p. in_bounds (length buffer) p \<and> nx \<le> key_start p) (scan_loop buffer nx)"
        "sorted_wrt (\<lambda>p q. val_end p < key_start q) (scan_loop buffer nx)"
      using 1 [OF k_def True] run by (simp_all add: nx_def)
    have step: "j < nx \<or> scan_loop buffer nx = []"
    proof (cases "j < length buffer")
      case True
      have "drop j buffer = dropWhile (\<lambda>b. b \<noteq> semicolon) (drop k buffer)"
        by (simp add: one(3) dropWhile_eq_drop add.commute)
      then have "buffer ! j = semicolon"
        using True hd_dropWhile [of "\<lambda>b. b \<noteq> semicolon" "drop k buffer"]
        by (metis drop_eq_Nil2 hd_drop_conv_nth leD)
      then show ?thesis using True by (simp add: nx_def skip_semicolon_def)
    next
      case False
      then show ?thesis
        by (simp add: nx_def skip_semicolon_def scan_loop.simps [of _ j] skip_while.simps)
    qed
    have loop: "scan_loop buffer i = p # scan_loop buffer nx"
      using True run by (simp add: scan_loop.simps [of _ i] k_def [symmetric] nx_def)
    have "j \<le> nx" by (simp add: nx_def skip_semicolon_def)
    have after: "list_all (\<lambda>q. val_end p < key_start q) (scan_loop buffer nx)"
      using step rest(1) one(2) by (auto simp: list_all_iff in_bounds_def)
    have "list_all (\<lambda>p. in_bounds (length buffer) p \<and> i \<le> key_start p) (scan_loop buffer nx)"
      using rest(1) \<open>i \<le> k\<close> \<open>j \<le> nx\<close> one(3) by (auto simp: list_all_iff)
    then show ?thesis
      using one(1,2) j \<open>i \<le> k\<close> rest(2) after by (auto simp: loop in_bounds_def list_all_iff)
  qed (simp add: scan_loop.simps [of _ i] k_def [symmetric])
qed

section \<open>The interface between the scanner and the lookup\<close>

text \<open>
  \<open>getCookie\<close> relies on its scanner for two things only: the pointers stay inside the
  buffer, and the slices they name are the pairs of the header.
\<close>

locale cookie_scanner =
  fixes scan :: "byte list \<Rightarrow> pointer list"
    and pairs :: "byte list \<Rightarrow> (byte list \<times> byte list) list"
  assumes scan_bounds: "list_all (in_bounds (length buffer)) (scan buffer)"
    and scan_pairs: "map (\<lambda>p. (key_of buffer p, value_at buffer p)) (scan buffer) = pairs buffer"
begin

lemma key_matches_slice:
  "key_matches buffer i keyBuf \<longleftrightarrow> i + length keyBuf \<le> length buffer \<and> slice i (i + length keyBuf) buffer = keyBuf \<or> keyBuf = []"
proof (induction keyBuf arbitrary: i)
  case (Cons b bs)
  show ?case
  proof (cases "i < length buffer")
    case True
    then have "drop i buffer = buffer ! i # drop (i + 1) buffer"
      using Cons_nth_drop_Suc [of i buffer] by simp
    then show ?thesis
      using True Cons [of "i + 1"] by (cases "bs = []") (auto simp: read_at_def slice_def)
  qed (simp add: read_at_def)
qed simp

lemma find_in_pointers:
  "list_all (in_bounds (length buffer)) ps \<Longrightarrow>
   find_cookie buffer keyBuf ps =
     map_option utf8_decode (map_of (map (\<lambda>p. (key_of buffer p, value_at buffer p)) ps) keyBuf)"
proof (induction ps)
  case (Cons p ps)
  have p: "in_bounds (length buffer) p" using Cons.prems by simp
  have "key_end p - key_start p = length keyBuf \<and> key_matches buffer (key_start p) keyBuf \<longleftrightarrow>
      key_of buffer p = keyBuf"
  proof
    assume l: "key_end p - key_start p = length keyBuf \<and> key_matches buffer (key_start p) keyBuf"
    then have "key_end p = key_start p + length keyBuf" using p by (auto simp: in_bounds_def)
    then show "key_of buffer p = keyBuf"
      using l key_matches_slice [of buffer "key_start p" keyBuf] by (auto simp: key_of_def)
  next
    assume k: "key_of buffer p = keyBuf"
    then have "length keyBuf = key_end p - key_start p"
      using p by (auto simp: key_of_def in_bounds_def)
    then show "key_end p - key_start p = length keyBuf \<and> key_matches buffer (key_start p) keyBuf"
      using k p key_matches_slice [of buffer "key_start p" keyBuf] by (auto simp: key_of_def in_bounds_def)
  qed
  moreover have "utf8_decode (value_at buffer p) = []" if "val_start p = val_end p"
    using that by (simp add: value_at_def utf8_decode_def)
  ultimately show ?case using Cons by (auto simp: value_at_def)
qed simp

lemma find_first: "find_cookie buffer keyBuf (scan buffer) = map_option utf8_decode (map_of (pairs buffer) keyBuf)"
  using find_in_pointers [OF scan_bounds] by (simp add: scan_pairs)

end

interpretation header: cookie_scanner scanCookies cookie_pairs
proof
  show "list_all (in_bounds (length buffer)) (scanCookies buffer)" for buffer
    using scan_loop_order [of buffer 0] by (auto simp: scanCookies_def list_all_iff)
  show "map (\<lambda>p. (key_of buffer p, value_at buffer p)) (scanCookies buffer) = cookie_pairs buffer" for buffer
    using scan_loop_pairs [of buffer 0] by (simp add: scanCookies_def cookie_pairs_def)
qed

section \<open>Properties\<close>

text \<open>C5. The index loops of \<open>scanCookies\<close> compute the pairs of the header. The slices its
  pointers name are, in order, those of the specification: split at semicolons, drop a
  blank last segment, split each segment at its first equals sign, strip spaces.\<close>
theorem scanCookies_pairs:
  "map (\<lambda>p. (slice (key_start p) (key_end p) buffer, slice (val_start p) (val_end p) buffer)) (scanCookies buffer) =
     map pair_of (segments buffer)"
  using header.scan_pairs [of buffer] by (simp add: key_of_def value_at_def cookie_pairs_def)

text \<open>C32. The pointers are in bounds and ordered. On any buffer, every pointer satisfies
  \<open>keyStart \<le> keyEnd \<le> valStart \<le> valEnd \<le> length\<close>, and each cookie starts after the value
  of the one before it ended.\<close>
theorem scanCookies_in_bounds:
  "list_all (\<lambda>p. key_start p \<le> key_end p \<and> key_end p \<le> val_start p \<and>
       val_start p \<le> val_end p \<and> val_end p \<le> length buffer) (scanCookies buffer) \<and>
   sorted_wrt (\<lambda>p q. val_end p < key_start q) (scanCookies buffer)"
  using scan_loop_order [of buffer 0] by (simp add: scanCookies_def in_bounds_def list_all_iff)


text \<open>A header written from a list of names and values, as a client sends it.\<close>

fun render :: "(byte list \<times> byte list) list \<Rightarrow> byte list" where
  "render [] = []"
| "render [(k, v)] = k @ equals # v"
| "render ((k, v) # kvs) = k @ equals # v @ [semicolon, space] @ render kvs"

definition plain_pair :: "byte list \<times> byte list \<Rightarrow> bool" where
  "plain_pair kv \<longleftrightarrow>
     equals \<notin> set (fst kv) \<and> semicolon \<notin> set (fst kv) \<and> semicolon \<notin> set (snd kv) \<and>
     trim (fst kv) = fst kv \<and> trim (snd kv) = snd kv"

lemma span_at:
  assumes "c \<notin> set xs"
  shows "takeWhile (\<lambda>b. b \<noteq> c) (xs @ c # r) = xs" "dropWhile (\<lambda>b. b \<noteq> c) (xs @ c # r) = c # r"
    and "takeWhile (\<lambda>b. b \<noteq> c) xs = xs" "dropWhile (\<lambda>b. b \<noteq> c) xs = []"
  using assms by (induction xs) auto

lemma segments_semicolon:
  "semicolon \<notin> set seg \<Longrightarrow> segments (seg @ semicolon # rest) = seg # segments rest"
  by (subst segments.simps) (simp only: span_at list.case simp_thms not_False_eq_True)

lemma segments_last:
  "semicolon \<notin> set seg \<Longrightarrow> segments seg = (if list_all (\<lambda>b. b = space) seg then [] else [seg])"
  by (subst segments.simps) (simp only: span_at list.case simp_thms not_False_eq_True)

lemma segments_space:
  "segments (space # bs) = (case segments bs of [] \<Rightarrow> [] | s # ss \<Rightarrow> (space # s) # ss)"
  by (cases "dropWhile (\<lambda>b. b \<noteq> semicolon) bs")
    (simp_all add: segments.simps [of bs] segments.simps [of "space # bs"] del: dropWhile_eq_Nil_conv)

lemma pair_of_plain: "plain_pair (k, v) \<Longrightarrow> pair_of (k @ equals # v) = (k, v)"
  by (simp add: plain_pair_def pair_of_def span_at del: dropWhile_eq_Nil_conv)

lemma pair_of_space: "pair_of (space # seg) = pair_of seg"
  using pair_of_spaces [of "[space]" seg] by simp

lemma render_pairs:
  "list_all plain_pair kvs \<Longrightarrow> map pair_of (segments (render kvs)) = kvs"
proof (induction kvs rule: render.induct)
  case 1
  then show ?case by (simp add: segments_blank)
next
  case (2 k v)
  then have "semicolon \<notin> set (k @ equals # v)" by (auto simp: plain_pair_def)
  then have "segments (k @ equals # v) = [k @ equals # v]"
    by (simp add: segments_last del: set_append)
  then show ?case using 2 pair_of_plain by simp
next
  case (3 k v kv kvs)
  have sc: "semicolon \<notin> set (k @ equals # v)" using 3 by (auto simp: plain_pair_def)
  have "segments (render ((k, v) # kv # kvs)) = (k @ equals # v) # segments (space # render (kv # kvs))"
    using segments_semicolon [OF sc, of "space # render (kv # kvs)"] by simp
  then show ?case
    using 3 pair_of_plain [of k v] by (auto simp: segments_space pair_of_space split: list.split)
qed



section \<open>The loops as written\<close>

text \<open>
  The bodies of the \<open>while\<close> loops as steps of \<open>while_option\<close>, whose value is \<open>None\<close> when the
  loop never ends. The outer loop keeps the index, the results, and whether it has hit \<open>break\<close>.
\<close>

definition outer_test :: "byte list \<Rightarrow> nat \<times> pointer list \<times> bool \<Rightarrow> bool" where
  "outer_test buffer = (\<lambda>(i, results, broken). \<not> broken \<and> i < length buffer)"

definition outer_body :: "byte list \<Rightarrow> nat \<times> pointer list \<times> bool \<Rightarrow> nat \<times> pointer list \<times> bool" where
  "outer_body buffer = (\<lambda>(i, results, broken).
     let keyStart = skip_while (\<lambda>b. b = space) buffer i in
     if keyStart \<ge> length buffer then (keyStart, results, True)
     else
       (let (p, j) = scan_one buffer keyStart
        in (skip_semicolon buffer j, results @ [p], False)))"

lemma while_option_skip:
  "while_option (\<lambda>i. i < length buffer \<and> P (buffer ! i)) (\<lambda>i. i + 1) i = Some (skip_while P buffer i)"
proof (induction P buffer i rule: skip_while.induct)
  case (1 P buffer i)
  then show ?case
    by (subst while_option_unfold, subst skip_while.simps) simp
qed

lemma while_option_trim:
  "while_option (\<lambda>e. e > start \<and> buffer ! (e - 1) = space) (\<lambda>e. e - 1) e = Some (trim_end buffer start e)"
proof (induction buffer start e rule: trim_end.induct)
  case (1 buffer start e)
  then show ?case
    by (subst while_option_unfold, subst trim_end.simps) simp
qed

lemma while_option_outer:
  "\<exists>i' b. while_option (outer_test buffer) (outer_body buffer) (i, results, False) =
     Some (i', results @ scan_loop buffer i, b)"
proof (induction buffer i arbitrary: results rule: scan_loop.induct)
  case (1 buffer i)
  let ?k = "skip_while (\<lambda>b. b = space) buffer i"
  have loop: "scan_loop buffer i =
      (if ?k < length buffer
       then fst (scan_one buffer ?k) # scan_loop buffer (skip_semicolon buffer (snd (scan_one buffer ?k))) else [])"
    by (subst scan_loop.simps) (simp add: Let_def)
  show ?case
  proof (cases "i < length buffer")
    case False
    then have "\<not> ?k < length buffer" using skip_while_ge [of i "\<lambda>b. b = space" buffer] by linarith
    then show ?thesis using False loop by (subst while_option_unfold) (auto simp: outer_test_def)
  next
    case True
    show ?thesis
    proof (cases "?k < length buffer")
      case False
      then have "outer_body buffer (i, results, False) = (?k, results, True)" by (simp add: outer_body_def)
      then show ?thesis using True False loop
        by (subst while_option_unfold) (simp add: outer_test_def, subst while_option_unfold, simp, rule exI [of _ True], rule TrueI)
    next
      case k: True
      have "outer_body buffer (i, results, False) =
          (skip_semicolon buffer (snd (scan_one buffer ?k)), results @ [fst (scan_one buffer ?k)], False)"
        using k by (simp add: outer_body_def case_prod_unfold Let_def)
      then show ?thesis using True k loop "1.IH" [OF refl k, of "results @ [fst (scan_one buffer ?k)]"]
        by (subst while_option_unfold) (simp add: outer_test_def)
    qed
  qed
qed

text \<open>C40. Every loop of the scanner ends. On any buffer, the inner loops end at the index that
  \<open>skip_while\<close> and \<open>trim_end\<close> give from any starting point, and the outer loop, run as it is
  written, ends with the results of \<open>scanCookies\<close>.\<close>
theorem scan_loops_terminate:
  "while_option (\<lambda>i. i < length buffer \<and> P (buffer ! i)) (\<lambda>i. i + 1) i = Some (skip_while P buffer i) \<and>
   while_option (\<lambda>e. e > start \<and> buffer ! (e - 1) = space) (\<lambda>e. e - 1) e = Some (trim_end buffer start e) \<and>
   (\<exists>i' b. while_option (outer_test buffer) (outer_body buffer) (0, [], False) = Some (i', scanCookies buffer, b))"
  using while_option_skip while_option_trim while_option_outer [of buffer 0 "[]"] by (simp add: scanCookies_def)

end
