(* ===== verification/Websocket.thy ===== *)
theory Websocket
  imports Prelude
begin

text \<open>
  \<open>packages/ohn-ws/src/ohn-ws.js\<close>: the frame parser that unmasks the payload inside the
  buffer it was given. The mask key is a \<open>subarray\<close>, a view of the same buffer, so the loop
  reads the key from the buffer it is changing. Lengths are naturals: a 64-bit length of
  2^53 or more is rounded by the source, but stays above the length of any buffer.
\<close>

section \<open>The parser\<close>

record frame =
  fin :: bool
  opcode :: byte
  payload_start :: nat
  payload_length :: nat

text \<open>The loop from \<open>i\<close>, for \<open>n\<close> more bytes; \<open>key\<close> is the offset of the mask key.\<close>

fun unmask :: "nat \<Rightarrow> nat \<Rightarrow> nat \<Rightarrow> nat \<Rightarrow> byte list \<Rightarrow> byte list" where
  "unmask key start i 0 buffer = buffer"
| "unmask key start i (Suc n) buffer =
     unmask key start (i + 1) n
       (buffer[start + i := buffer ! (start + i) XOR buffer ! (key + (i AND 3))])"

text \<open>
  The length field: the payload length and the offset after it, when the buffer holds it.
\<close>

definition frame_length :: "byte list \<Rightarrow> (nat \<times> nat) option" where
  "frame_length buffer =
     (let payloadLength = unat (buffer ! 1 AND 0x7f) in
      if payloadLength = 126 then
        (if length buffer < 4 then None else Some (unat (read_be16 buffer (Some 2)), 4))
      else if payloadLength = 127 then
        (if length buffer < 10 then None
         else Some (unat (read_be32 buffer (Some 2)) * 0x100000000 + unat (read_be32 buffer (Some 6)), 10))
      else Some (payloadLength, 2))"

definition parseFrame :: "byte list \<Rightarrow> frame option \<times> byte list" where
  "parseFrame buffer =
     (if length buffer < 2 then (None, buffer)
      else
        (let fin' = (buffer ! 0 AND 0x80 = 0x80);
             opcode' = buffer ! 0 AND 0x0f;
             masked = (buffer ! 1 AND 0x80 = 0x80)
         in case frame_length buffer of
              None \<Rightarrow> (None, buffer)
            | Some (payloadLength, offset) \<Rightarrow>
                if masked \<and> length buffer < offset + 4 then (None, buffer)
                else
                  (let payloadStart = (if masked then offset + 4 else offset)
                   in if length buffer < payloadStart + payloadLength then (None, buffer)
                      else
                        (Some \<lparr>fin = fin', opcode = opcode', payload_start = payloadStart,
                               payload_length = payloadLength\<rparr>,
                         if masked \<and> payloadLength > 0
                         then unmask offset payloadStart 0 payloadLength buffer else buffer))))"

section \<open>Unmasking\<close>

text \<open>Byte \<open>j\<close> of a payload under a four-byte key.\<close>

definition xor_key :: "byte list \<Rightarrow> byte list \<Rightarrow> byte list" where
  "xor_key key bs = map (\<lambda>j. bs ! j XOR key ! (j AND 3)) [0..<length bs]"

lemma length_xor_key [simp]: "length (xor_key key bs) = length bs"
  by (simp add: xor_key_def)

lemma xor_key_involutive: "xor_key key (xor_key key bs) = bs"
  by (rule nth_equalityI) (simp_all add: xor_key_def xor.assoc)

lemma and_3_less: "(i :: nat) AND 3 < 4"
  using take_bit_nat_less_exp [of 2 i] by (simp add: take_bit_eq_mask mask_eq_exp_minus_1)

lemma length_unmask [simp]: "length (unmask key start i n buffer) = length buffer"
  by (induction n arbitrary: i buffer) simp_all

text \<open>
  The view of the key does not change under the loop, because it lies before the payload:
  position \<open>p\<close> of the result is the old byte, xored where \<open>p\<close> is in the payload.
\<close>

lemma unmask_nth:
  assumes "key + 4 \<le> start" and "p < length buffer" and "start + i + n \<le> length buffer"
  shows "unmask key start i n buffer ! p =
    (if start + i \<le> p \<and> p < start + i + n
     then buffer ! p XOR buffer ! (key + ((p - start) AND 3)) else buffer ! p)"
  using assms
proof (induction n arbitrary: i buffer)
  case (Suc n)
  let ?b = "buffer[start + i := buffer ! (start + i) XOR buffer ! (key + (i AND 3))]"
  have key: "?b ! (key + (q AND 3)) = buffer ! (key + (q AND 3))" for q
    using Suc.prems(1) and_3_less [of q] by (simp add: nth_list_update_neq)
  have "unmask key start (i + 1) n ?b ! p =
      (if start + (i + 1) \<le> p \<and> p < start + (i + 1) + n
       then ?b ! p XOR ?b ! (key + ((p - start) AND 3)) else ?b ! p)"
    using Suc.prems by (intro Suc.IH) simp_all
  then show ?case
    using Suc.prems key by (cases "p = start + i") auto
qed auto

lemma unmask_slices:
  assumes "length head = start" and "key + 4 \<le> start"
  shows "unmask key start 0 (length payload) (head @ payload @ rest) =
    head @ xor_key (take 4 (drop key head)) payload @ rest"
proof (rule nth_equalityI)
  fix p assume "p < length (unmask key start 0 (length payload) (head @ payload @ rest))"
  then have p: "p < length (head @ payload @ rest)" by simp
  have "take 4 (drop key head) ! (q AND 3) = head ! (key + (q AND 3))" for q
    using assms and_3_less [of q] by simp
  moreover have "key + (q AND 3) < length head" for q
    using assms and_3_less [of q] by simp
  ultimately show "unmask key start 0 (length payload) (head @ payload @ rest) ! p =
      (head @ xor_key (take 4 (drop key head)) payload @ rest) ! p"
    using unmask_nth [OF assms(2) p, of 0 "length payload"] assms(1) p
    by (auto simp: nth_append xor_key_def)
qed simp

section \<open>The shape of a complete frame\<close>

text \<open>
  \<open>frame_at\<close> reads the header of a buffer that holds a whole frame: the offset of the mask
  key (equal to the payload's start when there is none), the payload's start and length.
\<close>

definition frame_at :: "byte list \<Rightarrow> (nat \<times> nat \<times> nat) option" where
  "frame_at buffer =
     (if length buffer < 2 then None
      else case frame_length buffer of
        None \<Rightarrow> None
      | Some (n, offset) \<Rightarrow>
          (let start = (if buffer ! 1 AND 0x80 = 0x80 then offset + 4 else offset)
           in if length buffer < start + n then None else Some (offset, start, n)))"

lemma frame_length_offset: "frame_length buffer = Some (n, offset) \<Longrightarrow> 2 \<le> offset"
  by (auto simp: frame_length_def Let_def split: if_splits)

lemma parseFrame_cases:
  "parseFrame buffer =
     (case frame_at buffer of
        None \<Rightarrow> (None, buffer)
      | Some (offset, start, n) \<Rightarrow>
          (Some \<lparr>fin = (buffer ! 0 AND 0x80 = 0x80), opcode = buffer ! 0 AND 0x0f,
                 payload_start = start, payload_length = n\<rparr>,
           if offset < start then unmask offset start 0 n buffer else buffer))"
  by (auto simp: parseFrame_def frame_at_def Let_def split: option.split)

lemma frame_at_bounds:
  assumes "frame_at buffer = Some (offset, start, n)"
  shows "2 \<le> offset \<and> (start = offset \<or> start = offset + 4) \<and> start + n \<le> length buffer"
  using assms frame_length_offset [of buffer]
  by (auto simp: frame_at_def Let_def split: option.splits if_splits)

text \<open>The header decides everything but the payload: bytes from \<open>start\<close> on do not matter.\<close>

lemma frame_length_prefix:
  assumes "frame_length buffer = Some (n, offset)" and "take offset buffer' = take offset buffer"
    and "length buffer' = length buffer" and "2 \<le> length buffer"
  shows "frame_length buffer' = Some (n, offset)"
proof -
  have at: "buffer' ! p = buffer ! p" if "p < offset" for p
    using assms(2) that by (metis nth_take)
  have "2 \<le> offset" using assms(1) by (rule frame_length_offset)
  then have "buffer' ! 1 = buffer ! 1" by (intro at) simp
  then show ?thesis
    using assms(1,3,4) at
    by (auto simp: frame_length_def Let_def read_be16_def read_be32_def read_at_def split: if_splits)
qed

lemma frame_at_prefix:
  assumes "frame_at buffer = Some (offset, start, n)" and "take start buffer' = take start buffer"
    and "length buffer' = length buffer"
  shows "frame_at buffer' = Some (offset, start, n) \<and> buffer' ! 0 = buffer ! 0"
proof -
  have b: "2 \<le> offset" "start = offset \<or> start = offset + 4" "2 \<le> length buffer"
    using frame_at_bounds [OF assms(1)] by auto
  have at: "buffer' ! p = buffer ! p" if "p < start" for p
    using assms(2) that by (metis nth_take)
  have "frame_length buffer = Some (n, offset)"
    using assms(1) by (auto simp: frame_at_def Let_def split: option.splits if_splits)
  moreover have "take offset buffer' = take offset buffer"
    using assms(2) b(2) by (metis min.absorb1 le_add1 order_refl take_take)
  ultimately have "frame_length buffer' = Some (n, offset)"
    using assms(3) b(3) by (rule frame_length_prefix)
  moreover have "buffer' ! 1 = buffer ! 1" "buffer' ! 0 = buffer ! 0" using at b by auto
  ultimately show ?thesis
    using assms(1,3) by (auto simp: frame_at_def Let_def split: option.splits if_splits)
qed

lemma frame_at_append:
  assumes "frame_at buffer = Some (offset, start, n)"
  shows "frame_at (buffer @ rest) = Some (offset, start, n)"
proof -
  have len: "2 \<le> length buffer" "frame_length buffer = Some (n, offset)"
    using assms by (auto simp: frame_at_def Let_def split: option.splits if_splits)
  then have "frame_length (buffer @ rest) = Some (n, offset)"
    by (auto simp: frame_length_def Let_def read_be16_def read_be32_def read_at_def nth_append split: if_splits)
  then show ?thesis
    using assms len by (auto simp: frame_at_def Let_def nth_append split: if_splits)
qed

section \<open>Frames as RFC 6455 writes them\<close>

definition mask_bit :: "byte list option \<Rightarrow> byte" where
  "mask_bit key = (case key of None \<Rightarrow> 0 | Some _ \<Rightarrow> 0x80)"

definition length_bytes :: "byte \<Rightarrow> nat \<Rightarrow> byte list" where
  "length_bytes m n =
     (if n < 126 then [m OR of_nat n]
      else if n < 2 ^ 16 then (m OR 126) # be16 (of_nat n)
      else (m OR 127) # be32 (of_nat (n div 2 ^ 32)) @ be32 (of_nat (n mod 2 ^ 32)))"

definition frame_head :: "bool \<Rightarrow> byte \<Rightarrow> byte list option \<Rightarrow> nat \<Rightarrow> byte list" where
  "frame_head f op key n = ((if f then 0x80 else 0) OR op) # length_bytes (mask_bit key) n @ (case key of None \<Rightarrow> [] | Some k \<Rightarrow> k)"

definition frame_bytes :: "bool \<Rightarrow> byte \<Rightarrow> byte list option \<Rightarrow> byte list \<Rightarrow> byte list" where
  "frame_bytes f op key payload =
     frame_head f op key (length payload) @ (case key of None \<Rightarrow> payload | Some k \<Rightarrow> xor_key k payload)"

lemma low_bits_or_mask:
  assumes "n < 128" and "m = 0 \<or> m = (0x80 :: byte)"
  shows "unat ((m OR of_nat n) AND 0x7f) = n" and "(m OR of_nat n) AND 0x80 = m"
proof -
  have bits: "\<not> bit (of_nat n :: byte) k" if "7 \<le> k" for k
  proof -
    have "uint (of_nat n :: byte) < 2 ^ 7" using assms(1) by (simp add: uint_nat unat_of_nat)
    then show ?thesis using that by (rule not_bit_above) 
  qed
  have "(m OR of_nat n) AND 0x7f = of_nat n"
    using assms(2) bits by (intro bit_word_eqI) (auto simp: bit_simps bit_consts not_le [symmetric])
  moreover have "unat (of_nat n :: byte) = n" using assms(1) by (simp add: unat_of_nat)
  ultimately show "unat ((m OR of_nat n) AND 0x7f) = n" by simp
  show "(m OR of_nat n) AND 0x80 = m"
    using assms(2) bits by (intro bit_word_eqI) (auto simp: bit_simps bit_consts)
qed

lemma fin_opcode:
  assumes "op < (16 :: byte)"
  shows "((if f then 0x80 else 0) OR op) AND 0x80 = (0x80 :: byte) \<longleftrightarrow> f"
    and "((if f then 0x80 else 0) OR op) AND 0x0f = op"
proof -
  have "uint op < 2 ^ 4" using assms by (simp add: word_less_def)
  then have bits: "\<not> bit op k" if "4 \<le> k" for k using that by (rule not_bit_above)
  show "((if f then 0x80 else 0) OR op) AND 0x80 = (0x80 :: byte) \<longleftrightarrow> f"
  proof -
    have "op AND 0x80 = 0" using bits by (intro bit_word_eqI) (auto simp: bit_simps bit_consts)
    then show ?thesis by (simp add: bit.conj_disj_distrib2)
  qed
  show "((if f then 0x80 else 0) OR op) AND 0x0f = op"
    using bits by (intro bit_word_eqI) (auto simp: bit_simps bit_consts not_le [symmetric])
qed

lemma frame_length_encoded:
  assumes "n < 2 ^ 64" and m: "m = 0 \<or> m = (0x80 :: byte)"
  shows "frame_length (b0 # length_bytes m n @ rest) = Some (n, 1 + length (length_bytes m n))"
proof -
  have marks: "unat ((m OR 126) AND 0x7f) = 126" "unat ((m OR 127) AND 0x7f) = 127"
    using low_bits_or_mask(1) [of 126 m] low_bits_or_mask(1) [of 127 m] m by simp_all
  have two: "length [b0, x] = 2" for x by simp
  consider "n < 126" | "126 \<le> n" "n < 2 ^ 16" | "2 ^ 16 \<le> n" by linarith
  then show ?thesis
  proof cases
    case 1
    then show ?thesis
      using low_bits_or_mask(1) [of n m] m by (simp add: frame_length_def Let_def length_bytes_def)
  next
    case 2
    have "unat (of_nat n :: 32 word) = n" using 2 by (simp add: unat_of_nat)
    moreover have "read_be16 ([b0, m OR 126] @ be16 (of_nat n) @ rest) (Some 2) = of_nat n"
      using 2 read_be16_append [of "of_nat n" "[b0, m OR 126]" rest, unfolded two]
      by (simp add: uint_nat unat_of_nat)
    ultimately show ?thesis
      using 2 marks by (simp add: frame_length_def Let_def length_bytes_def)
  next
    case 3
    define hi where "hi = n div 2 ^ 32"
    define lo where "lo = n mod 2 ^ 32"
    have "hi < 2 ^ 32" "lo < 2 ^ 32"
      using assms(1) by (simp_all add: hi_def lo_def less_mult_imp_div_less)
    then have u: "unat (of_nat hi :: 32 word) = hi" "unat (of_nat lo :: 32 word) = lo"
      by (simp_all add: unat_of_nat)
    have six: "length ([b0, m OR 127] @ be32 (of_nat hi)) = 6" by simp
    have "read_be32 ([b0, m OR 127] @ be32 (of_nat hi) @ be32 (of_nat lo) @ rest) (Some 2) = of_nat hi"
      by (rule read_be32_append [of "[b0, m OR 127]", unfolded two])
    moreover have "read_be32 (([b0, m OR 127] @ be32 (of_nat hi)) @ be32 (of_nat lo) @ rest) (Some 6) = of_nat lo"
      by (rule read_be32_append [of "[b0, m OR 127] @ be32 (of_nat hi)", unfolded six])
    ultimately have "frame_length (b0 # (m OR 127) # be32 (of_nat hi) @ be32 (of_nat lo) @ rest) =
        Some (hi * 0x100000000 + lo, 10)"
      using marks u by (simp add: frame_length_def Let_def)
    moreover have "hi * 0x100000000 + lo = n"
      using div_mult_mod_eq [of n "2 ^ 32"] by (simp add: hi_def lo_def)
    moreover have "length_bytes m n = (m OR 127) # be32 (of_nat hi) @ be32 (of_nat lo)"
      using 3 by (simp add: length_bytes_def hi_def lo_def)
    ultimately show ?thesis by simp
  qed
qed

lemma second_byte_masked:
  assumes "n < 2 ^ 64" and m: "m = 0 \<or> m = (0x80 :: byte)"
  shows "(hd (length_bytes m n)) AND 0x80 = m"
  using low_bits_or_mask(2) [of n m] low_bits_or_mask(2) [of 126 m] low_bits_or_mask(2) [of 127 m] m
  by (auto simp: length_bytes_def)

lemma length_bytes_Cons: "length_bytes m n = hd (length_bytes m n) # tl (length_bytes m n)"
  by (simp add: length_bytes_def)

definition key_length :: "byte list option \<Rightarrow> nat" where
  "key_length key = (case key of None \<Rightarrow> 0 | Some k \<Rightarrow> length k)"

lemma frame_at_encoded:
  assumes "length payload < 2 ^ 64" and key: "\<And>k. key = Some k \<Longrightarrow> length k = 4"
  shows "frame_at (frame_bytes f op key payload @ rest) =
    Some (length (frame_head f op key (length payload)) - key_length key,
          length (frame_head f op key (length payload)), length payload)"
proof -
  let ?n = "length payload" and ?b = "frame_bytes f op key payload @ rest"
  let ?lb = "length_bytes (mask_bit key) ?n"
  have m: "mask_bit key = 0 \<or> mask_bit key = 0x80" by (simp add: mask_bit_def split: option.split)
  obtain tail where b: "?b = ((if f then 0x80 else 0) OR op) # ?lb @ tail"
    and tail: "length tail \<ge> ?n + key_length key"
    by (cases key) (auto simp: frame_bytes_def frame_head_def key_length_def)
  have fl: "frame_length ?b = Some (?n, 1 + length ?lb)"
    unfolding b by (rule frame_length_encoded [OF assms(1) m])
  have "?b ! 1 = hd ?lb" unfolding b by (subst length_bytes_Cons) simp
  then have masked: "?b ! 1 AND 0x80 = mask_bit key"
    using second_byte_masked [OF assms(1) m] by simp
  have two: "2 \<le> length ?b" unfolding b by (subst length_bytes_Cons) simp
  have long: "length ?b \<ge> 1 + length ?lb + key_length key + ?n" using tail unfolding b by simp
  show ?thesis
  proof (cases key)
    case None
    then show ?thesis
      using fl masked two long
      by (simp add: frame_at_def mask_bit_def key_length_def frame_head_def)
  next
    case (Some k)
    then show ?thesis
      using fl masked two long key [OF Some]
      by (simp add: frame_at_def mask_bit_def key_length_def frame_head_def)
  qed
qed

section \<open>Properties\<close>

text \<open>C7. A frame is parsed and its payload unmasked in place. For every opcode below 16,
  payload and optional four-byte mask key, \<open>parseFrame\<close> on the frame RFC 6455 prescribes,
  followed by anything, returns its FIN bit, opcode and the place of the payload, and
  leaves the buffer with the plain payload behind the unchanged header.\<close>
theorem parseFrame_encoded:
  assumes "op < 16" and "length payload < 2 ^ 64" and "key = None \<or> (\<exists>k. key = Some k \<and> length k = 4)"
  shows "parseFrame (frame_bytes f op key payload @ rest) =
    (Some \<lparr>fin = f, opcode = op, payload_start = length (frame_head f op key (length payload)),
           payload_length = length payload\<rparr>,
     frame_head f op key (length payload) @ payload @ rest)"
proof -
  let ?head = "frame_head f op key (length payload)"
  let ?b = "frame_bytes f op key payload @ rest"
  have at: "frame_at ?b = Some (length ?head - key_length key, length ?head, length payload)"
    using assms(2,3) by (intro frame_at_encoded) auto
  have b0: "?b ! 0 = (if f then 0x80 else 0) OR op" by (simp add: frame_bytes_def frame_head_def)
  show ?thesis
  proof (cases key)
    case None
    then show ?thesis
      using at fin_opcode [OF assms(1), of f] b0
      by (simp add: parseFrame_cases key_length_def frame_bytes_def)
  next
    case (Some k)
    then have k: "length k = 4" using assms(3) by simp
    have head: "?head = take (length ?head - 4) ?head @ k" and len: "4 < length ?head"
      using Some k by (simp_all add: frame_head_def)
    then have "take 4 (drop (length ?head - 4) ?head) = k" by (metis k append_eq_conv_conj length_take min.absorb2 less_imp_le diff_le_self take_all order_refl)
    then have un: "unmask (length ?head - 4) (length ?head) 0 (length payload) ?b = ?head @ payload @ rest"
      using unmask_slices [of ?head "length ?head" "length ?head - 4" "xor_key k payload" rest] len Some k
      by (simp add: frame_bytes_def xor_key_involutive)
    have "length ?head - 4 < length ?head" using len by linarith
    then show ?thesis
      using at fin_opcode [OF assms(1), of f] b0 Some k un
      by (simp add: parseFrame_cases key_length_def)
  qed
qed

theorem parseFrame_encoded_sample:
  "parseFrame [0x81, 0x82, 1, 2, 3, 4, 0x49, 0x6b, 9] =
    (Some \<lparr>fin = True, opcode = 1, payload_start = 6, payload_length = 2\<rparr>,
     [0x81, 0x82, 1, 2, 3, 4, 0x48, 0x69, 9])"
proof -
  have b: "frame_bytes True 1 (Some [1, 2, 3, 4]) [0x48, 0x69] @ [9] = [0x81, 0x82, 1, 2, 3, 4, 0x49, 0x6b, 9]"
    and h: "frame_head True 1 (Some [1, 2, 3, 4]) (length [0x48, 0x69 :: byte]) = [0x81, 0x82, 1, 2, 3, 4]"
    by (simp_all add: frame_bytes_def frame_head_def length_bytes_def mask_bit_def xor_key_def upt_rec)
  show ?thesis
    using parseFrame_encoded [of 1 "[0x48, 0x69]" "Some [1, 2, 3, 4]" True "[9]", unfolded b h] by simp
qed

text \<open>C20. \<open>parseFrame\<close> touches the payload only. Whatever the buffer, the result has the same
  length; when a frame is returned, its payload lies inside the buffer, and every byte
  outside the payload is unchanged; when none is returned, the buffer is unchanged.\<close>
theorem parseFrame_frame_condition:
  "length (snd (parseFrame buffer)) = length buffer \<and>
   (case fst (parseFrame buffer) of
      None \<Rightarrow> snd (parseFrame buffer) = buffer
    | Some f \<Rightarrow> payload_start f + payload_length f \<le> length buffer \<and>
        take (payload_start f) (snd (parseFrame buffer)) = take (payload_start f) buffer \<and>
        drop (payload_start f + payload_length f) (snd (parseFrame buffer)) =
          drop (payload_start f + payload_length f) buffer)"
proof (cases "frame_at buffer")
  case (Some x)
  then obtain offset start n where x: "frame_at buffer = Some (offset, start, n)" by (cases x) auto
  note b = frame_at_bounds [OF x]
  show ?thesis
  proof (cases "offset < start")
    case True
    let ?b = "unmask offset start 0 n buffer"
    have at: "?b ! p = (if start \<le> p \<and> p < start + n
        then buffer ! p XOR buffer ! (offset + ((p - start) AND 3)) else buffer ! p)"
      if "p < length buffer" for p
      using unmask_nth [of offset start p buffer 0 n] b True that by auto
    have "take start ?b = take start buffer" "drop (start + n) ?b = drop (start + n) buffer"
      using at b by (auto intro!: nth_equalityI)
    then show ?thesis using b True by (simp add: parseFrame_cases x)
  qed (use b in \<open>simp add: parseFrame_cases x\<close>)
qed (simp add: parseFrame_cases)

text \<open>C30. An incomplete frame changes nothing. On every proper prefix of a frame,
  \<open>parseFrame\<close> returns \<open>null\<close> and leaves the buffer as it is, so the caller can append
  more bytes and try again.\<close>
theorem parseFrame_incomplete:
  assumes "length payload < 2 ^ 64" and "key = None \<or> (\<exists>k. key = Some k \<and> length k = 4)"
    and "i < length (frame_bytes f op key payload)"
  shows "parseFrame (take i (frame_bytes f op key payload)) = (None, take i (frame_bytes f op key payload))"
proof (cases "frame_at (take i (frame_bytes f op key payload))")
  case (Some x)
  let ?b = "frame_bytes f op key payload"
  obtain offset start n where x: "frame_at (take i ?b) = Some (offset, start, n)"
    using Some by (cases x) auto
  have "frame_at ?b = Some (offset, start, n)"
    using frame_at_append [OF x, of "drop i ?b"] by simp
  moreover have "frame_at ?b = Some (length (frame_head f op key (length payload)) - key_length key,
      length (frame_head f op key (length payload)), length payload)"
    using frame_at_encoded [of payload key f op "[]"] assms(1,2) by auto
  ultimately have "start + n = length ?b"
    using assms(2) by (auto simp: frame_bytes_def)
  then show ?thesis using frame_at_bounds [OF x] assms(3) by simp
qed (simp add: parseFrame_cases)

theorem parseFrame_incomplete_sample:
  "parseFrame (take 3 (frame_bytes True 2 None [7, 8])) = (None, take 3 (frame_bytes True 2 None [7, 8]))"
  by (rule parseFrame_incomplete) (simp_all add: frame_bytes_def frame_head_def length_bytes_def)

text \<open>Parsing a masked frame twice masks it again. The mask bit and the key stay in the
  header, so a second call on the buffer the first call returned finds the same frame and
  xors the payload back: the buffer is the original one again.\<close>
theorem parseFrame_twice:
  "fst (parseFrame (snd (parseFrame buffer))) = fst (parseFrame buffer) \<and>
   snd (parseFrame (snd (parseFrame buffer))) = buffer"
proof (cases "frame_at buffer")
  case (Some x)
  then obtain offset start n where x: "frame_at buffer = Some (offset, start, n)" by (cases x) auto
  note b = frame_at_bounds [OF x]
  show ?thesis
  proof (cases "offset < start")
    case True
    let ?b = "unmask offset start 0 n buffer"
    have le: "offset + 4 \<le> start" "start + 0 + n \<le> length buffer" using b True by auto
    have at: "?b ! p = (if start \<le> p \<and> p < start + n
        then buffer ! p XOR buffer ! (offset + ((p - start) AND 3)) else buffer ! p)"
      if "p < length buffer" for p
      using unmask_nth [OF le(1) that le(2)] by simp
    have "take start ?b = take start buffer" using at b by (auto intro!: nth_equalityI)
    then have again: "frame_at ?b = Some (offset, start, n)" "?b ! 0 = buffer ! 0"
      using frame_at_prefix [OF x, of ?b] by simp_all
    have "unmask offset start 0 n ?b = buffer"
    proof (rule nth_equalityI)
      fix p assume "p < length (unmask offset start 0 n ?b)"
      then have p: "p < length buffer" by simp
      have key: "?b ! (offset + (q AND 3)) = buffer ! (offset + (q AND 3))" for q
        using at [of "offset + (q AND 3)"] and_3_less [of q] le by simp
      show "unmask offset start 0 n ?b ! p = buffer ! p"
        using unmask_nth [OF le(1), of p ?b 0 n] le(2) p at [OF p] key by (simp add: xor.assoc)
    qed simp
    then show ?thesis using True by (simp add: parseFrame_cases x again)
  qed (simp add: parseFrame_cases x)
qed (simp add: parseFrame_cases)

end
