(* ===== verification/Uuid.thy ===== *)
theory Uuid
  imports Prelude
begin

text \<open>
  \<open>packages/ohn-uuid/src/ohn-uuid.js\<close>: the module's buffers and pool offset as one state,
  and its three functions. \<open>crypto.randomFillSync\<close> is not part of the repository:
  \<open>entropy k\<close> is what the call number \<open>k\<close> puts into the pool, and \<open>fills\<close> counts the calls.
  An \<open>undefined\<close> byte counts as 0 in every place the code uses it.
\<close>

section \<open>The module\<close>

abbreviation POOL_SIZE :: nat where "POOL_SIZE \<equiv> 65536"
abbreviation HYPHEN :: byte where "HYPHEN \<equiv> 0x2d"

record uuid_state =
  pool :: "byte list"
  poolOffset :: nat
  outBuffer :: "byte list"
  rawBuffer :: "byte list"
  fills :: nat

definition hexLookup :: "byte list" where
  "hexLookup = [48, 49, 50, 51, 52, 53, 54, 55, 56, 57, 97, 98, 99, 100, 101, 102]"

definition init_state :: uuid_state where
  "init_state = \<lparr>pool = replicate POOL_SIZE 0, poolOffset = POOL_SIZE,
     outBuffer = (replicate 36 0)[8 := HYPHEN, 13 := HYPHEN, 18 := HYPHEN, 23 := HYPHEN],
     rawBuffer = replicate 16 0, fills = 0\<rparr>"

definition fillEntropy :: "(nat \<Rightarrow> byte list) \<Rightarrow> uuid_state \<Rightarrow> uuid_state" where
  "fillEntropy entropy st =
     (if poolOffset st \<ge> POOL_SIZE
      then st\<lparr>pool := entropy (fills st), poolOffset := 0, fills := fills st + 1\<rparr> else st)"

text \<open>The version and variant bits of byte \<open>i\<close>.\<close>

definition stamp :: "nat \<Rightarrow> byte \<Rightarrow> byte" where
  "stamp i b = (if i = 6 then b AND 0x0f OR 0x40 else if i = 8 then b AND 0x3f OR 0x80 else b)"

definition pool_byte :: "uuid_state \<Rightarrow> byte" where
  "pool_byte st = (case read_at (pool st) (Some (poolOffset st)) of None \<Rightarrow> 0 | Some b \<Rightarrow> b)"

definition high_nibble :: "byte \<Rightarrow> byte" where
  "high_nibble b = hexLookup ! unat (drop_bit 4 b)"

definition low_nibble :: "byte \<Rightarrow> byte" where
  "low_nibble b = hexLookup ! unat (b AND 0x0f)"

text \<open>The loops, for \<open>n\<close> more bytes from byte \<open>i\<close>.\<close>

fun format_loop :: "nat \<Rightarrow> nat \<Rightarrow> nat \<Rightarrow> uuid_state \<Rightarrow> uuid_state" where
  "format_loop 0 i outIndex st = st"
| "format_loop (Suc n) i outIndex st =
     (let o1 = (if outIndex = 8 \<or> outIndex = 13 \<or> outIndex = 18 \<or> outIndex = 23
                then outIndex + 1 else outIndex);
          b = stamp i (pool_byte st)
      in format_loop n (i + 1) (o1 + 2)
           (st\<lparr>poolOffset := poolOffset st + 1,
               outBuffer := (outBuffer st)[o1 := high_nibble b, o1 + 1 := low_nibble b]\<rparr>))"

definition generateUUIDv4 :: "(nat \<Rightarrow> byte list) \<Rightarrow> uuid_state \<Rightarrow> uuid_state" where
  "generateUUIDv4 entropy st = format_loop 16 0 0 (fillEntropy entropy st)"

fun raw_loop :: "nat \<Rightarrow> nat \<Rightarrow> uuid_state \<Rightarrow> uuid_state" where
  "raw_loop 0 i st = st"
| "raw_loop (Suc n) i st =
     raw_loop n (i + 1)
       (st\<lparr>poolOffset := poolOffset st + 1, rawBuffer := (rawBuffer st)[i := stamp i (pool_byte st)]\<rparr>)"

definition generateUUIDv4Raw :: "(nat \<Rightarrow> byte list) \<Rightarrow> uuid_state \<Rightarrow> uuid_state" where
  "generateUUIDv4Raw entropy st = raw_loop 16 0 (fillEntropy entropy st)"

section \<open>The specification\<close>

definition hex2 :: "byte \<Rightarrow> byte list" where
  "hex2 b = [high_nibble b, low_nibble b]"

definition hex :: "byte list \<Rightarrow> byte list" where
  "hex bs = concat (map hex2 bs)"

definition format_uuid :: "byte list \<Rightarrow> byte list" where
  "format_uuid bs =
     hex (take 4 bs) @ HYPHEN # hex (take 2 (drop 4 bs)) @ HYPHEN # hex (take 2 (drop 6 bs)) @
     HYPHEN # hex (take 2 (drop 8 bs)) @ HYPHEN # hex (drop 10 bs)"

definition stamp_all :: "byte list \<Rightarrow> byte list" where
  "stamp_all bs = map (\<lambda>i. stamp i (bs ! i)) [0..<length bs]"

text \<open>The bytes the next identifier is made of.\<close>

definition next_bytes :: "(nat \<Rightarrow> byte list) \<Rightarrow> uuid_state \<Rightarrow> byte list" where
  "next_bytes entropy st =
     (let st1 = fillEntropy entropy st in take 16 (drop (poolOffset st1) (pool st1)))"

definition hyphenated :: "byte list \<Rightarrow> bool" where
  "hyphenated bs \<longleftrightarrow> length bs = 36 \<and>
     bs ! 8 = HYPHEN \<and> bs ! 13 = HYPHEN \<and> bs ! 18 = HYPHEN \<and> bs ! 23 = HYPHEN"

definition module_inv :: "uuid_state \<Rightarrow> bool" where
  "module_inv st \<longleftrightarrow> length (pool st) = POOL_SIZE \<and> poolOffset st \<le> POOL_SIZE \<and>
     16 dvd poolOffset st \<and> hyphenated (outBuffer st) \<and> length (rawBuffer st) = 16"

definition fills_pool :: "(nat \<Rightarrow> byte list) \<Rightarrow> bool" where
  "fills_pool entropy \<longleftrightarrow> (\<forall>k. length (entropy k) = POOL_SIZE)"

section \<open>The loops\<close>

text \<open>A run of \<open>n\<close> bytes that meets no hyphen position appends their digits.\<close>

lemma length_hex [simp]: "length (hex bs) = 2 * length bs"
  by (induction bs) (simp_all add: hex_def hex2_def)

lemma stamped_Cons:
  "map (\<lambda>j. stamp (i + j) ((b # bs) ! j)) [0..<Suc n] =
     stamp i b # map (\<lambda>j. stamp (Suc i + j) (bs ! j)) [0..<n]"
  by (simp add: upt_conv_Cons map_Suc_upt [symmetric] del: upt_Suc)

definition stamped :: "nat \<Rightarrow> nat \<Rightarrow> uuid_state \<Rightarrow> byte list" where
  "stamped n i st = map (\<lambda>j. stamp (i + j) (pool st ! (poolOffset st + j))) [0..<n]"

lemma stamped_Suc:
  "stamped (Suc n) i st = stamp i (pool st ! poolOffset st) # stamped n (i + 1) (st\<lparr>poolOffset := poolOffset st + 1\<rparr>)"
  by (simp add: stamped_def upt_conv_Cons map_Suc_upt [symmetric] o_def del: upt_Suc)

lemma stamped_cong: "pool st = pool st' \<Longrightarrow> poolOffset st = poolOffset st' \<Longrightarrow> stamped n i st = stamped n i st'"
  by (simp add: stamped_def)

lemma format_run:
  assumes "outBuffer st = front @ room" and "length front = out" and "2 * n \<le> length room"
    and "\<forall>p \<in> {8, 13, 18, 23}. p < out \<or> out + 2 * n \<le> p"
    and "poolOffset st + n \<le> length (pool st)"
  shows "format_loop (n + m) i out st =
    format_loop m (i + n) (out + 2 * n)
      (st\<lparr>poolOffset := poolOffset st + n,
          outBuffer := front @ hex (stamped n i st) @ drop (2 * n) room\<rparr>)"
  using assms
proof (induction n arbitrary: i out st front room)
  case 0
  then show ?case by (cases st) (simp add: stamped_def hex_def)
next
  case (Suc n)
  obtain x y room' where room: "room = x # y # room'"
    using Suc.prems(3) by (cases room; cases "tl room") auto
  let ?b = "stamp i (pool st ! poolOffset st)"
  let ?st = "st\<lparr>poolOffset := poolOffset st + 1, outBuffer := (front @ hex2 ?b) @ room'\<rparr>"
  have "pool_byte st = pool st ! poolOffset st"
    using Suc.prems(5) by (simp add: pool_byte_def read_at_def)
  moreover have "out \<notin> {8, 13, 18, 23}" using Suc.prems(4) by auto
  ultimately have "format_loop (Suc n + m) i out st = format_loop (n + m) (i + 1) (out + 2) ?st"
    using Suc.prems(1,2) by (simp add: room hex2_def list_update_append Let_def)
  also have "\<dots> = format_loop m (i + 1 + n) (out + 2 + 2 * n)
      (?st\<lparr>poolOffset := poolOffset ?st + n,
           outBuffer := (front @ hex2 ?b) @ hex (stamped n (i + 1) ?st) @ drop (2 * n) room'\<rparr>)"
    using Suc.prems by (intro Suc.IH) (auto simp: room hex2_def)
  finally show ?case
    using stamped_cong [of ?st "st\<lparr>poolOffset := poolOffset st + 1\<rparr>" n "i + 1"]
    by (simp add: stamped_Suc hex_def room)
qed

text \<open>At a hyphen position the index moves on by one.\<close>

lemma format_hyphen:
  "out \<in> {8, 13, 18, 23} \<Longrightarrow> format_loop (Suc n) i out st = format_loop (Suc n) i (out + 1) st"
  by auto

lemma format_segment:
  assumes "outBuffer st = front @ HYPHEN # room" and "length front = out" and "out \<in> {8, 13, 18, 23}"
    and "0 < n" and "2 * n \<le> length room"
    and "\<forall>p \<in> {8, 13, 18, 23}. p < out + 1 \<or> out + 1 + 2 * n \<le> p"
    and "poolOffset st + n \<le> length (pool st)"
  shows "format_loop (n + m) i out st =
    format_loop m (i + n) (out + 1 + 2 * n)
      (st\<lparr>poolOffset := poolOffset st + n,
          outBuffer := front @ HYPHEN # hex (stamped n i st) @ drop (2 * n) room\<rparr>)"
proof -
  obtain k where "n = Suc k" using assms(4) by (cases n) auto
  then have "format_loop (n + m) i out st = format_loop (n + m) i (out + 1) st"
    using format_hyphen [OF assms(3), of "k + m"] by simp
  also have "\<dots> = format_loop m (i + n) (out + 1 + 2 * n)
      (st\<lparr>poolOffset := poolOffset st + n,
          outBuffer := (front @ [HYPHEN]) @ hex (stamped n i st) @ drop (2 * n) room\<rparr>)"
    using assms by (intro format_run) auto
  finally show ?thesis by simp
qed

lemma hyphenated_shape:
  assumes "hyphenated bs"
  obtains a b c d e where "bs = a @ HYPHEN # b @ HYPHEN # c @ HYPHEN # d @ HYPHEN # e"
    and "length a = 8" "length b = 4" "length c = 4" "length d = 4" "length e = 12"
proof
  have len: "length bs = 36" and at: "bs ! 8 = HYPHEN" "bs ! 13 = HYPHEN" "bs ! 18 = HYPHEN" "bs ! 23 = HYPHEN"
    using assms by (simp_all add: hyphenated_def)
  show "bs = take 8 bs @ HYPHEN # take 4 (drop 9 bs) @ HYPHEN # take 4 (drop 14 bs) @
      HYPHEN # take 4 (drop 19 bs) @ HYPHEN # drop 24 bs"
    using id_take_nth_drop [of 8 bs] id_take_nth_drop [of 4 "drop 9 bs"] id_take_nth_drop [of 4 "drop 14 bs"]
      id_take_nth_drop [of 4 "drop 19 bs"] len at by simp
qed (use assms in \<open>simp_all add: hyphenated_def\<close>)

text \<open>The whole run, one segment at a time, from the bytes the pool holds at its offset.\<close>

definition fresh :: "uuid_state \<Rightarrow> byte list" where
  "fresh st = stamp_all (take 16 (drop (poolOffset st) (pool st)))"

lemma length_fresh: "poolOffset st + 16 \<le> length (pool st) \<Longrightarrow> length (fresh st) = 16"
  by (simp add: fresh_def stamp_all_def)

lemma stamped_fresh:
  assumes "k + n \<le> 16" and "poolOffset st + 16 \<le> length (pool st)"
  shows "stamped n k (st\<lparr>poolOffset := poolOffset st + k, outBuffer := x\<rparr>) = take n (drop k (fresh st))"
  using assms by (intro nth_equalityI) (auto simp: stamped_def fresh_def stamp_all_def add.assoc)

lemma stamped_first:
  assumes "n \<le> 16" and "poolOffset st + 16 \<le> length (pool st)"
  shows "stamped n 0 st = take n (fresh st)"
  using assms by (intro nth_equalityI) (auto simp: stamped_def fresh_def stamp_all_def)

lemma format_part:
  assumes "poolOffset st + 16 \<le> length (pool st)" and "0 < n" and "k + n \<le> 16"
    and "length front = out" and "out \<in> {8, 13, 18, 23}" and "length old = 2 * n"
    and "\<forall>p \<in> {8, 13, 18, 23}. p < out + 1 \<or> out + 1 + 2 * n \<le> p"
  shows "format_loop (n + m) k out
      (st\<lparr>poolOffset := poolOffset st + k, outBuffer := front @ HYPHEN # old @ tail\<rparr>) =
    format_loop m (k + n) (out + 1 + 2 * n)
      (st\<lparr>poolOffset := poolOffset st + (k + n),
          outBuffer := front @ HYPHEN # hex (take n (drop k (fresh st))) @ tail\<rparr>)"
  using format_segment [of "st\<lparr>poolOffset := poolOffset st + k, outBuffer := front @ HYPHEN # old @ tail\<rparr>"
      front "old @ tail" out n m k] assms
  by (simp add: stamped_fresh add.assoc)

lemma format_loop_16:
  assumes "hyphenated (outBuffer st)" and room: "poolOffset st + 16 \<le> length (pool st)"
  shows "format_loop 16 0 0 st =
    st\<lparr>poolOffset := poolOffset st + 16, outBuffer := format_uuid (fresh st)\<rparr>"
proof -
  obtain a b c d e where out: "outBuffer st = a @ HYPHEN # b @ HYPHEN # c @ HYPHEN # d @ HYPHEN # e"
    and len: "length a = 8" "length b = 4" "length c = 4" "length d = 4" "length e = 12"
    by (rule hyphenated_shape [OF assms(1)])
  let ?st = "\<lambda>n x. st\<lparr>poolOffset := poolOffset st + n, outBuffer := x\<rparr>"
  define p where "p k n = hex (take n (drop k (fresh st)))" for k n
  have "format_loop 16 0 0 st = format_loop 12 4 8 (?st 4 (p 0 4 @ HYPHEN # b @ HYPHEN # c @ HYPHEN # d @ HYPHEN # e))"
    using format_run [of st "[]" "outBuffer st" 0 4 12 0] out len room stamped_first [of 4 st]
    by (simp add: p_def)
  also have "\<dots> = format_loop 10 6 13 (?st 6 (p 0 4 @ HYPHEN # p 4 2 @ HYPHEN # c @ HYPHEN # d @ HYPHEN # e))"
    using format_part [OF room, of 2 4 "p 0 4" 8 b 10 "HYPHEN # c @ HYPHEN # d @ HYPHEN # e"] len length_fresh [OF room]
    by (simp add: p_def)
  also have "\<dots> = format_loop 8 8 18 (?st 8 (p 0 4 @ HYPHEN # p 4 2 @ HYPHEN # p 6 2 @ HYPHEN # d @ HYPHEN # e))"
    using format_part [OF room, of 2 6 "p 0 4 @ HYPHEN # p 4 2" 13 c 8 "HYPHEN # d @ HYPHEN # e"] len length_fresh [OF room]
    by (simp add: p_def)
  also have "\<dots> = format_loop 6 10 23 (?st 10 (p 0 4 @ HYPHEN # p 4 2 @ HYPHEN # p 6 2 @ HYPHEN # p 8 2 @ HYPHEN # e))"
    using format_part [OF room, of 2 8 "p 0 4 @ HYPHEN # p 4 2 @ HYPHEN # p 6 2" 18 d 6 "HYPHEN # e"] len length_fresh [OF room]
    by (simp add: p_def)
  also have "\<dots> = ?st 16 (p 0 4 @ HYPHEN # p 4 2 @ HYPHEN # p 6 2 @ HYPHEN # p 8 2 @ HYPHEN # p 10 6)"
    using format_part [OF room, of 6 10 "p 0 4 @ HYPHEN # p 4 2 @ HYPHEN # p 6 2 @ HYPHEN # p 8 2" 23 e 0 "[]"] len length_fresh [OF room]
    by (simp add: p_def)
  finally show ?thesis
    using length_fresh [OF room] by (simp add: format_uuid_def p_def)
qed

lemma raw_loop_run:
  assumes "rawBuffer st = front @ room" and "length front = i" and "n \<le> length room"
    and "poolOffset st + n \<le> length (pool st)"
  shows "raw_loop n i st =
    st\<lparr>poolOffset := poolOffset st + n, rawBuffer := front @ stamped n i st @ drop n room\<rparr>"
  using assms
proof (induction n arbitrary: i st front room)
  case 0
  then show ?case by (cases st) (simp add: stamped_def)
next
  case (Suc n)
  then obtain x room' where room: "room = x # room'" by (cases room) auto
  let ?b = "stamp i (pool st ! poolOffset st)"
  let ?st = "st\<lparr>poolOffset := poolOffset st + 1, rawBuffer := (front @ [?b]) @ room'\<rparr>"
  have "pool_byte st = pool st ! poolOffset st"
    using Suc.prems(4) by (simp add: pool_byte_def read_at_def)
  then have "raw_loop (Suc n) i st = raw_loop n (i + 1) ?st"
    using Suc.prems(1,2) by (simp add: room list_update_append)
  also have "\<dots> = ?st\<lparr>poolOffset := poolOffset ?st + n,
      rawBuffer := (front @ [?b]) @ stamped n (i + 1) ?st @ drop n room'\<rparr>"
    using Suc.prems by (intro Suc.IH) (auto simp: room)
  finally show ?case
    using stamped_cong [of ?st "st\<lparr>poolOffset := poolOffset st + 1\<rparr>" n "i + 1"]
    by (simp add: stamped_Suc room)
qed

lemma raw_loop_16:
  assumes "length (rawBuffer st) = 16" and "poolOffset st + 16 \<le> length (pool st)"
  shows "raw_loop 16 0 st = st\<lparr>poolOffset := poolOffset st + 16, rawBuffer := fresh st\<rparr>"
  using raw_loop_run [of st "[]" "rawBuffer st" 0 16] stamped_first [of 16 st] assms length_fresh [of st]
  by simp

section \<open>The operations\<close>

lemma fillEntropy_room:
  assumes "module_inv st" and "fills_pool entropy"
  shows "module_inv (fillEntropy entropy st)"
    and "poolOffset (fillEntropy entropy st) + 16 \<le> length (pool (fillEntropy entropy st))"
proof -
  show "module_inv (fillEntropy entropy st)"
    using assms by (simp add: module_inv_def fillEntropy_def fills_pool_def)
  obtain q where "poolOffset st = 16 * q" using assms(1) by (auto simp: module_inv_def elim: dvdE)
  then show "poolOffset (fillEntropy entropy st) + 16 \<le> length (pool (fillEntropy entropy st))"
    using assms by (auto simp: module_inv_def fillEntropy_def fills_pool_def)
qed

lemma fresh_next: "fresh (fillEntropy entropy st) = stamp_all (next_bytes entropy st)"
  by (simp add: fresh_def next_bytes_def Let_def)

lemma generate_result:
  assumes "module_inv st" and "fills_pool entropy"
  shows "generateUUIDv4 entropy st =
    (let st1 = fillEntropy entropy st in st1\<lparr>poolOffset := poolOffset st1 + 16,
       outBuffer := format_uuid (stamp_all (next_bytes entropy st))\<rparr>)"
    and "generateUUIDv4Raw entropy st =
    (let st1 = fillEntropy entropy st in st1\<lparr>poolOffset := poolOffset st1 + 16,
       rawBuffer := stamp_all (next_bytes entropy st)\<rparr>)"
  using fillEntropy_room [OF assms] format_loop_16 [of "fillEntropy entropy st"]
    raw_loop_16 [of "fillEntropy entropy st"]
  by (simp_all add: generateUUIDv4_def generateUUIDv4Raw_def Let_def fresh_next module_inv_def)

lemma length_next_bytes:
  assumes "module_inv st" and "fills_pool entropy"
  shows "length (next_bytes entropy st) = 16"
  using fillEntropy_room [OF assms] by (simp add: next_bytes_def Let_def)

lemma hyphenated_format:
  assumes "length bs = 16" shows "hyphenated (format_uuid bs)"
  using assms by (simp add: hyphenated_def format_uuid_def nth_append)

lemma dvd_16: "(16 :: nat) dvd m \<Longrightarrow> 16 dvd m + 16"
  by (intro dvd_add) simp_all

lemma operations_inv:
  assumes "module_inv st" and "fills_pool entropy"
  shows "module_inv (fillEntropy entropy st)" "module_inv (generateUUIDv4 entropy st)"
    "module_inv (generateUUIDv4Raw entropy st)"
  using fillEntropy_room [OF assms] length_next_bytes [OF assms] hyphenated_format
  by (simp_all add: generate_result [OF assms] Let_def module_inv_def dvd_16 stamp_all_def)

text \<open>The states the module can be in: any sequence of calls of its three functions.\<close>

inductive reachable :: "(nat \<Rightarrow> byte list) \<Rightarrow> uuid_state \<Rightarrow> bool" for entropy where
  start: "reachable entropy init_state"
| fill: "reachable entropy st \<Longrightarrow> reachable entropy (fillEntropy entropy st)"
| v4: "reachable entropy st \<Longrightarrow> reachable entropy (generateUUIDv4 entropy st)"
| raw: "reachable entropy st \<Longrightarrow> reachable entropy (generateUUIDv4Raw entropy st)"

lemma init_inv: "module_inv init_state"
  by (simp add: module_inv_def init_state_def hyphenated_def del: replicate.simps replicate_Suc)

lemma reachable_inv:
  assumes "fills_pool entropy" and "reachable entropy st"
  shows "module_inv st"
  using assms(2) by (induction rule: reachable.induct) (simp_all add: init_inv operations_inv assms(1))

section \<open>Generators that share the pool\<close>

text \<open>
  What a generator promises the module: from a good state it takes the next sixteen bytes
  and leaves a good state whose pool position is sixteen bytes further. Position \<open>16 k\<close> of
  the stream of all fills is what a run of \<open>k\<close> calls has used, whichever generator runs.
\<close>

definition used :: "uuid_state \<Rightarrow> nat" where
  "used st = fills st * POOL_SIZE + poolOffset st - POOL_SIZE"

definition stream_byte :: "(nat \<Rightarrow> byte list) \<Rightarrow> nat \<Rightarrow> byte" where
  "stream_byte entropy n = entropy (n div POOL_SIZE) ! (n mod POOL_SIZE)"

definition on_stream :: "(nat \<Rightarrow> byte list) \<Rightarrow> uuid_state \<Rightarrow> bool" where
  "on_stream entropy st \<longleftrightarrow> module_inv st \<and>
     (fills st = 0 \<longrightarrow> poolOffset st = POOL_SIZE) \<and>
     (0 < fills st \<longrightarrow> pool st = entropy (fills st - 1))"

locale pool_client =
  fixes gen :: "(nat \<Rightarrow> byte list) \<Rightarrow> uuid_state \<Rightarrow> uuid_state"
    and made :: "uuid_state \<Rightarrow> byte list"
    and shape :: "byte list \<Rightarrow> byte list"
  assumes gen_stream: "fills_pool entropy \<Longrightarrow> on_stream entropy st \<Longrightarrow> on_stream entropy (gen entropy st)"
    and gen_used: "fills_pool entropy \<Longrightarrow> on_stream entropy st \<Longrightarrow> used (gen entropy st) = used st + 16"
    and gen_made: "fills_pool entropy \<Longrightarrow> on_stream entropy st \<Longrightarrow>
      made (gen entropy st) = shape (stamp_all (map (stream_byte entropy) [used st..<used st + 16]))"
begin

lemma iterate_stream:
  assumes "fills_pool entropy" and "on_stream entropy st"
  shows "on_stream entropy ((gen entropy ^^ k) st) \<and> used ((gen entropy ^^ k) st) = used st + 16 * k"
  using assms gen_stream gen_used by (induction k) auto

lemma iterate_made:
  assumes "fills_pool entropy" and "on_stream entropy st"
  shows "made ((gen entropy ^^ Suc k) st) =
    shape (stamp_all (map (stream_byte entropy) [used st + 16 * k..<used st + 16 * k + 16]))"
  using gen_made [OF assms(1), of "(gen entropy ^^ k) st"] iterate_stream [OF assms, of k] by simp

end

lemma fill_stream:
  assumes "fills_pool entropy" and "on_stream entropy st"
  shows "on_stream entropy (fillEntropy entropy st)" "used (fillEntropy entropy st) = used st"
    "0 < fills (fillEntropy entropy st)"
  using assms operations_inv(1) [of st entropy]
  by (auto simp: on_stream_def fillEntropy_def used_def module_inv_def)

lemma next_bytes_stream:
  assumes "fills_pool entropy" and "on_stream entropy st"
  shows "next_bytes entropy st = map (stream_byte entropy) [used st..<used st + 16]"
proof -
  define st1 where "st1 = fillEntropy entropy st"
  have inv: "module_inv st" using assms(2) by (simp add: on_stream_def)
  have room: "poolOffset st1 + 16 \<le> POOL_SIZE" "length (pool st1) = POOL_SIZE"
    using fillEntropy_room [OF inv assms(1)] by (simp_all add: st1_def module_inv_def)
  have st1: "0 < fills st1" "pool st1 = entropy (fills st1 - 1)" "used st = used st1"
    using fill_stream [OF assms] by (simp_all add: st1_def on_stream_def)
  have used: "used st1 = (fills st1 - 1) * POOL_SIZE + poolOffset st1"
    using st1(1) by (cases "fills st1") (simp_all add: used_def)
  have "stream_byte entropy (used st1 + j) = pool st1 ! (poolOffset st1 + j)" if "j < 16" for j
  proof -
    have small: "poolOffset st1 + j < POOL_SIZE" using room(1) that by linarith
    have "used st1 + j = (poolOffset st1 + j) + (fills st1 - 1) * POOL_SIZE" by (simp add: used)
    then have "(used st1 + j) div POOL_SIZE = fills st1 - 1" "(used st1 + j) mod POOL_SIZE = poolOffset st1 + j"
      using small by (simp_all only: div_mult_self3 mod_mult_self1 div_less mod_less)
    then show ?thesis by (simp add: stream_byte_def st1(2))
  qed
  then show ?thesis
    using room by (intro nth_equalityI) (simp_all add: next_bytes_def Let_def st1_def [symmetric] st1(3))
qed

lemma generate_stream:
  assumes "fills_pool entropy" and "on_stream entropy st"
  shows "on_stream entropy (generateUUIDv4 entropy st)" "on_stream entropy (generateUUIDv4Raw entropy st)"
    "used (generateUUIDv4 entropy st) = used st + 16" "used (generateUUIDv4Raw entropy st) = used st + 16"
proof -
  have inv: "module_inv st" using assms(2) by (simp add: on_stream_def)
  note result = generate_result [OF inv assms(1)] and fill = fill_stream [OF assms]
  show "on_stream entropy (generateUUIDv4 entropy st)" "on_stream entropy (generateUUIDv4Raw entropy st)"
    using fill operations_inv [OF inv assms(1)] by (simp_all add: on_stream_def result Let_def)
  show "used (generateUUIDv4 entropy st) = used st + 16" "used (generateUUIDv4Raw entropy st) = used st + 16"
    using fill by (simp_all add: used_def result Let_def)
qed

lemma generate_made:
  assumes "fills_pool entropy" and "on_stream entropy st"
  shows "outBuffer (generateUUIDv4 entropy st) =
      format_uuid (stamp_all (map (stream_byte entropy) [used st..<used st + 16]))"
    and "rawBuffer (generateUUIDv4Raw entropy st) =
      stamp_all (map (stream_byte entropy) [used st..<used st + 16])"
proof -
  have inv: "module_inv st" using assms(2) by (simp add: on_stream_def)
  show "outBuffer (generateUUIDv4 entropy st) =
      format_uuid (stamp_all (map (stream_byte entropy) [used st..<used st + 16]))"
    "rawBuffer (generateUUIDv4Raw entropy st) =
      stamp_all (map (stream_byte entropy) [used st..<used st + 16])"
    by (simp_all add: generate_result [OF inv assms(1)] Let_def next_bytes_stream [OF assms])
qed

interpretation text_ids: pool_client generateUUIDv4 outBuffer format_uuid
  by unfold_locales (simp_all add: generate_stream generate_made)

interpretation raw_ids: pool_client generateUUIDv4Raw rawBuffer "\<lambda>bs. bs"
  by unfold_locales (simp_all add: generate_stream generate_made)

lemma init_on_stream: "on_stream entropy init_state" and init_used: "used init_state = 0"
  using init_inv by (simp_all add: on_stream_def used_def) (simp_all add: init_state_def)

section \<open>Properties\<close>

text \<open>C17. The module's state stays well-formed. If every fill fills the pool, then after any
  sequence of calls of the three functions the pool has 65536 bytes, its offset is a
  multiple of 16 inside it, the text buffer has its four hyphens and the raw buffer 16
  bytes.\<close>
theorem reachable_states_well_formed:
  assumes "fills_pool entropy" and "reachable entropy st"
  shows "length (pool st) = 65536 \<and> poolOffset st \<le> 65536 \<and> 16 dvd poolOffset st \<and>
    hyphenated (outBuffer st) \<and> length (rawBuffer st) = 16"
  using reachable_inv [OF assms] by (simp add: module_inv_def)

theorem reachable_states_well_formed_sample:
  "length (pool (generateUUIDv4 (\<lambda>k. replicate 65536 7) init_state)) = 65536 \<and>
   poolOffset (generateUUIDv4 (\<lambda>k. replicate 65536 7) init_state) \<le> 65536 \<and>
   16 dvd poolOffset (generateUUIDv4 (\<lambda>k. replicate 65536 7) init_state) \<and>
   hyphenated (outBuffer (generateUUIDv4 (\<lambda>k. replicate 65536 7) init_state)) \<and>
   length (rawBuffer (generateUUIDv4 (\<lambda>k. replicate 65536 7) init_state)) = 16"
  by (rule reachable_states_well_formed [of "\<lambda>k. replicate 65536 7"])
    (auto simp: fills_pool_def intro: reachable.intros)



text \<open>C14. No entropy is used twice. The call number \<open>k\<close> of a fresh module, counted from 0,
  makes its identifier of the bytes \<open>16 k\<close> to \<open>16 k + 15\<close> of the stream of fills, across
  refills, so no byte enters two identifiers and none is skipped; the same holds for raw
  identifiers.\<close>
theorem entropy_used_once:
  assumes "fills_pool entropy"
  shows "outBuffer ((generateUUIDv4 entropy ^^ Suc k) init_state) =
      format_uuid (stamp_all (map (stream_byte entropy) [16 * k..<16 * k + 16])) \<and>
    rawBuffer ((generateUUIDv4Raw entropy ^^ Suc k) init_state) =
      stamp_all (map (stream_byte entropy) [16 * k..<16 * k + 16])"
  using text_ids.iterate_made [OF assms init_on_stream, of k] raw_ids.iterate_made [OF assms init_on_stream, of k]
  by (simp add: init_used)

theorem entropy_used_once_sample:
  "outBuffer ((generateUUIDv4 (\<lambda>k. replicate 65536 (of_nat k)) ^^ Suc 4096) init_state) =
      format_uuid (stamp_all (map (stream_byte (\<lambda>k. replicate 65536 (of_nat k))) [16 * 4096..<16 * 4096 + 16])) \<and>
    rawBuffer ((generateUUIDv4Raw (\<lambda>k. replicate 65536 (of_nat k)) ^^ Suc 4096) init_state) =
      stamp_all (map (stream_byte (\<lambda>k. replicate 65536 (of_nat k))) [16 * 4096..<16 * 4096 + 16])"
  by (rule entropy_used_once) (simp add: fills_pool_def)

text \<open>The digits the version and variant bits lead to.\<close>

lemma nibbles_of_stamp:
  "high_nibble (stamp 6 b) = 52" "high_nibble (stamp 8 b) \<in> {56, 57, 97, 98}"
proof -
  have "drop_bit 4 (stamp 6 b) = 4"
    by (rule bit_word_eqI) (auto simp: stamp_def bit_simps bit_consts)
  then show "high_nibble (stamp 6 b) = 52" by (simp add: high_nibble_def hexLookup_def)
  have "drop_bit 4 (stamp 8 b) = 8 OR (drop_bit 4 b AND 3)"
    by (rule bit_word_eqI) (auto simp: stamp_def bit_simps bit_consts)
  moreover have "drop_bit 4 b AND 3 \<in> {0, 1, 2, 3}"
  proof -
    have "unat (drop_bit 4 b AND 3) < 4"
      using unat_and_mask [of "drop_bit 4 b" 2] by (simp add: mask_eq_exp_minus_1)
    then have "unat (drop_bit 4 b AND 3) \<in> {0, 1, 2, 3}" by auto
    then show ?thesis by (auto simp: word_unat_eq_iff)
  qed
  ultimately show "high_nibble (stamp 8 b) \<in> {56, 57, 97, 98}"
    by (auto simp: high_nibble_def hexLookup_def)
qed

lemma nibble_digit: "high_nibble b \<in> set hexLookup" "low_nibble b \<in> set hexLookup"
proof -
  have "unat (drop_bit 4 b) < 16"
    using unsigned_less [of b, where ?'a = nat] by (simp add: unat_drop)
  moreover have "unat (b AND 0x0f) < 16"
    using unat_and_mask [of b 4] by (simp add: mask_eq_exp_minus_1)
  moreover have "length hexLookup = 16" by (simp add: hexLookup_def)
  ultimately show "high_nibble b \<in> set hexLookup" "low_nibble b \<in> set hexLookup"
    by (simp_all add: high_nibble_def low_nibble_def)
qed

lemma hex_digits: "set (hex bs) \<subseteq> set hexLookup"
  using nibble_digit by (auto simp: hex_def hex2_def)

text \<open>C31. The text is a version 4 identifier. From every reachable state \<open>generateUUIDv4\<close>
  leaves 36 bytes: hyphens at 8, 13, 18 and 23, the digit 4 at 14, one of 8, 9, a, b at 19,
  and nothing but hyphens and lower-case hexadecimal digits.\<close>
theorem uuid_text_shape:
  assumes "fills_pool entropy" and "reachable entropy st"
  shows "hyphenated (outBuffer (generateUUIDv4 entropy st)) \<and>
    outBuffer (generateUUIDv4 entropy st) ! 14 = 52 \<and>
    outBuffer (generateUUIDv4 entropy st) ! 19 \<in> {56, 57, 97, 98} \<and>
    set (outBuffer (generateUUIDv4 entropy st)) \<subseteq> insert HYPHEN (set hexLookup)"
proof -
  define bs where "bs = next_bytes entropy st"
  have inv: "module_inv st" by (rule reachable_inv [OF assms])
  have len: "length bs = 16" using length_next_bytes [OF inv assms(1)] by (simp add: bs_def)
  define cs where "cs = stamp_all bs"
  have cs: "length cs = 16" "cs ! 6 = stamp 6 (bs ! 6)" "cs ! 8 = stamp 8 (bs ! 8)"
    by (simp_all add: cs_def stamp_all_def len)
  have out: "outBuffer (generateUUIDv4 entropy st) = format_uuid cs"
    using generate_result(1) [OF inv assms(1)] by (simp add: Let_def cs_def bs_def)
  have "drop 6 cs = cs ! 6 # drop 7 cs" "drop 8 cs = cs ! 8 # drop 9 cs"
    using cs(1) Cons_nth_drop_Suc [of 6 cs] Cons_nth_drop_Suc [of 8 cs] by simp_all
  then have "format_uuid cs ! 14 = high_nibble (cs ! 6)" "format_uuid cs ! 19 = high_nibble (cs ! 8)"
    using cs(1) by (simp_all add: format_uuid_def nth_append hex_def hex2_def length_hex [unfolded hex_def])
  moreover have "set (format_uuid cs) \<subseteq> insert HYPHEN (set hexLookup)"
    using hex_digits by (auto simp: format_uuid_def)
  ultimately show ?thesis
    using hyphenated_format [OF cs(1)] nibbles_of_stamp by (simp add: out cs)
qed

theorem uuid_text_shape_sample:
  "hyphenated (outBuffer (generateUUIDv4 (\<lambda>k. replicate 65536 7) init_state)) \<and>
    outBuffer (generateUUIDv4 (\<lambda>k. replicate 65536 7) init_state) ! 14 = 52 \<and>
    outBuffer (generateUUIDv4 (\<lambda>k. replicate 65536 7) init_state) ! 19 \<in> {56, 57, 97, 98} \<and>
    set (outBuffer (generateUUIDv4 (\<lambda>k. replicate 65536 7) init_state)) \<subseteq> insert HYPHEN (set hexLookup)"
  by (rule uuid_text_shape) (auto simp: fills_pool_def intro: reachable.intros)

end
