(* ===== verification/Binary_Layout.thy ===== *)
theory Binary_Layout
  imports Prelude
begin

text \<open>
  \<open>core/src/plugins/babel-plugin-binary-layout.js\<close>: the layout the visitor computes for a
  class tagged \<open>@binaryLayout\<close>, the getters it generates, and what they return on a buffer.
  Typed arrays are those of a little-endian machine. A float is its bit pattern. Sizes are
  natural numbers: a fractional \<open>@size\<close> literal is left out.
\<close>

section \<open>Element types\<close>

datatype elem_type = Int8 | Uint8 | Int16 | Uint16 | Int32 | Uint32 | Float32 | Float64

instantiation elem_type :: enum
begin
definition enum_elem_type :: "elem_type list" where
  "enum_elem_type = [Int8, Uint8, Int16, Uint16, Int32, Uint32, Float32, Float64]"
definition enum_all_elem_type :: "(elem_type \<Rightarrow> bool) \<Rightarrow> bool" where
  "enum_all_elem_type P \<longleftrightarrow> list_all P [Int8, Uint8, Int16, Uint16, Int32, Uint32, Float32, Float64]"
definition enum_ex_elem_type :: "(elem_type \<Rightarrow> bool) \<Rightarrow> bool" where
  "enum_ex_elem_type P \<longleftrightarrow> list_ex P [Int8, Uint8, Int16, Uint16, Int32, Uint32, Float32, Float64]"
instance
proof
  show univ: "(UNIV :: elem_type set) = set enum_class.enum"
    unfolding enum_elem_type_def using elem_type.exhaust by auto
  show "distinct (enum_class.enum :: elem_type list)" by (simp add: enum_elem_type_def)
  show "enum_class.enum_all P \<longleftrightarrow> Ball UNIV P" for P :: "elem_type \<Rightarrow> bool"
    by (simp add: univ enum_all_elem_type_def enum_elem_type_def)
  show "enum_class.enum_ex P \<longleftrightarrow> Bex UNIV P" for P :: "elem_type \<Rightarrow> bool"
    by (simp add: univ enum_ex_elem_type_def enum_elem_type_def)
qed
end

text \<open>
  The three tables share their keys, the names of the types: \<open>TYPE_SIZES\<close> gives the bytes
  of an element, the other two the getter of a \<open>DataView\<close> and the typed array.
\<close>

fun type_key :: "elem_type \<Rightarrow> string" where
  "type_key Int8 = ''int8''"
| "type_key Uint8 = ''uint8''"
| "type_key Int16 = ''int16''"
| "type_key Uint16 = ''uint16''"
| "type_key Int32 = ''int32''"
| "type_key Uint32 = ''uint32''"
| "type_key Float32 = ''float32''"
| "type_key Float64 = ''float64''"

fun type_size :: "elem_type \<Rightarrow> nat" where
  "type_size Int8 = 1"
| "type_size Uint8 = 1"
| "type_size Int16 = 2"
| "type_size Uint16 = 2"
| "type_size Int32 = 4"
| "type_size Uint32 = 4"
| "type_size Float32 = 4"
| "type_size Float64 = 8"

fun type_getter :: "elem_type \<Rightarrow> string" where
  "type_getter Int8 = ''getInt8''"
| "type_getter Uint8 = ''getUint8''"
| "type_getter Int16 = ''getInt16''"
| "type_getter Uint16 = ''getUint16''"
| "type_getter Int32 = ''getInt32''"
| "type_getter Uint32 = ''getUint32''"
| "type_getter Float32 = ''getFloat32''"
| "type_getter Float64 = ''getFloat64''"

fun array_view :: "elem_type \<Rightarrow> string" where
  "array_view Int8 = ''Int8Array''"
| "array_view Uint8 = ''Uint8Array''"
| "array_view Int16 = ''Int16Array''"
| "array_view Uint16 = ''Uint16Array''"
| "array_view Int32 = ''Int32Array''"
| "array_view Uint32 = ''Uint32Array''"
| "array_view Float32 = ''Float32Array''"
| "array_view Float64 = ''Float64Array''"

definition type_of_name :: "string \<Rightarrow> elem_type option" where
  "type_of_name n = List.find (\<lambda>t. type_key t = n) enum_class.enum"

section \<open>The visitor\<close>

text \<open>
  \<open>BCall\<close> is a decorator that calls an identifier; a type annotation is an indexed access
  such as \<open>float32[128]\<close>, with the parts the source looks at, or another type or none.
\<close>

datatype arg = ArgString string | ArgNumber nat | ArgOther

datatype layout_decorator = BIdentifier string | BCall string "arg list" | BOther

datatype annotation = Indexed "string option" "nat option" | NotIndexed

record layout_property =
  pkey :: string
  pdecorators :: "layout_decorator list"
  pannotation :: annotation

text \<open>
  A getter body calls a method of \<open>this._view\<close> at an offset, or makes a typed array of a
  slice of \<open>this._buffer\<close>.
\<close>

datatype getter = ScalarGetter string string nat | ArrayGetter string string nat nat

datatype layout_element =
    Property layout_property
  | Other nat
  | StaticFactory
  | Constructor
  | Getter getter

record layout_class =
  ldecorators :: "layout_decorator list"
  lbody :: "layout_element list"

fun read_decorator :: "layout_decorator \<Rightarrow> string option \<times> nat \<Rightarrow> string option \<times> nat" where
  "read_decorator (BCall name args) (typeName, count) =
     (case args of
        [ArgString s] \<Rightarrow> if name = ''type'' then (Some s, count) else (typeName, count)
      | [ArgNumber n] \<Rightarrow> if name = ''size'' then (typeName, n) else (typeName, count)
      | _ \<Rightarrow> (typeName, count))"
| "read_decorator _ ts = ts"

fun read_annotation :: "annotation \<Rightarrow> string option \<times> nat \<Rightarrow> string option \<times> nat" where
  "read_annotation (Indexed t n) (typeName, count) =
     (if t = None then typeName else t, case n of None \<Rightarrow> count | Some k \<Rightarrow> k)"
| "read_annotation NotIndexed ts = ts"

text \<open>The type and the number of elements of a property, \<open>None\<close> when it is skipped.\<close>

definition property_type :: "layout_property \<Rightarrow> (elem_type \<times> nat) option" where
  "property_type p =
     (let (typeName, count) = read_annotation (pannotation p) (fold read_decorator (pdecorators p) (None, 1))
      in case typeName of
           None \<Rightarrow> None
         | Some n \<Rightarrow> map_option (\<lambda>t. (t, count)) (type_of_name n))"

definition make_getter :: "string \<Rightarrow> elem_type \<Rightarrow> nat \<Rightarrow> nat \<Rightarrow> getter" where
  "make_getter key t count offset =
     (if count = 1 then ScalarGetter key (type_getter t) offset
      else ArrayGetter key (array_view t) offset (offset + type_size t * count))"

text \<open>
  The traversal from \<open>currentOffset\<close>: the elements it keeps, the getters, and the offset at
  the end.
\<close>

fun traverse :: "layout_element list \<Rightarrow> nat \<Rightarrow> layout_element list \<times> getter list \<times> nat" where
  "traverse [] currentOffset = ([], [], currentOffset)"
| "traverse (Property p # es) currentOffset =
     (case property_type p of
        None \<Rightarrow>
          (let (kept, gs, end') = traverse es currentOffset in (Property p # kept, gs, end'))
      | Some (t, count) \<Rightarrow>
          (let (kept, gs, end') = traverse es (currentOffset + type_size t * count)
           in (kept, make_getter (pkey p) t count currentOffset # gs, end')))"
| "traverse (e # es) currentOffset =
     (let (kept, gs, end') = traverse es currentOffset in (e # kept, gs, end'))"

definition layout_class_declaration :: "layout_class \<Rightarrow> layout_class" where
  "layout_class_declaration c =
     (if BIdentifier ''binaryLayout'' \<in> set (ldecorators c) then
        (let (kept, getters, _) = traverse (lbody c) 0
         in \<lparr>ldecorators = filter (\<lambda>d. d \<noteq> BIdentifier ''binaryLayout'') (ldecorators c),
             lbody = [StaticFactory, Constructor] @ kept @ map Getter getters\<rparr>)
      else c)"

section \<open>The getters at run time\<close>

datatype elem = IntVal int | FloatBits nat

datatype getter_result = ScalarValue elem | ArrayValue "elem list"

definition signed_of :: "nat \<Rightarrow> nat \<Rightarrow> int" where
  "signed_of width n = (if n < 2 ^ (8 * width - 1) then int n else int n - 2 ^ (8 * width))"

definition is_signed :: "elem_type \<Rightarrow> bool" where
  "is_signed t \<longleftrightarrow> t = Int8 \<or> t = Int16 \<or> t = Int32"

definition is_float :: "elem_type \<Rightarrow> bool" where
  "is_float t \<longleftrightarrow> t = Float32 \<or> t = Float64"

definition decode_elem :: "elem_type \<Rightarrow> byte list \<Rightarrow> elem" where
  "decode_elem t bs =
     (if is_float t then FloatBits (le_nat bs)
      else if is_signed t then IntVal (signed_of (type_size t) (le_nat bs))
      else IntVal (int (le_nat bs)))"

fun chunks :: "nat \<Rightarrow> nat \<Rightarrow> byte list \<Rightarrow> byte list list" where
  "chunks w 0 bs = []"
| "chunks w (Suc n) bs = take w bs # chunks w n (drop w bs)"

lemma chunks_numeral [simp]:
  "chunks w (numeral k) bs = take w bs # chunks w (pred_numeral k) (drop w bs)"
  by (simp add: numeral_eq_Suc)

text \<open>
  \<open>DataView.get\<dots>(offset, true)\<close> throws a RangeError past the end. \<open>ArrayBuffer.slice\<close>
  copies and clamps; a typed array over a buffer whose length is no multiple of the element
  size throws a RangeError.
\<close>

definition data_view_get :: "elem_type \<Rightarrow> byte list \<Rightarrow> nat \<Rightarrow> js_error + elem" where
  "data_view_get t buffer offset =
     (if offset + type_size t \<le> length buffer
      then Inr (decode_elem t (slice offset (offset + type_size t) buffer))
      else Inl JsRangeError)"

definition typed_array :: "elem_type \<Rightarrow> byte list \<Rightarrow> js_error + elem list" where
  "typed_array t buffer =
     (if length buffer mod type_size t = 0
      then Inr (map (decode_elem t) (chunks (type_size t) (length buffer div type_size t) buffer))
      else Inl JsRangeError)"

text \<open>The platform's names: the methods of a \<open>DataView\<close> and the typed arrays.\<close>

definition view_method :: "string \<Rightarrow> elem_type option" where
  "view_method m = map_of
     [(''getInt8'', Int8), (''getUint8'', Uint8), (''getInt16'', Int16), (''getUint16'', Uint16),
      (''getInt32'', Int32), (''getUint32'', Uint32), (''getFloat32'', Float32),
      (''getFloat64'', Float64)] m"

definition array_class :: "string \<Rightarrow> elem_type option" where
  "array_class c = map_of
     [(''Int8Array'', Int8), (''Uint8Array'', Uint8), (''Int16Array'', Int16),
      (''Uint16Array'', Uint16), (''Int32Array'', Int32), (''Uint32Array'', Uint32),
      (''Float32Array'', Float32), (''Float64Array'', Float64)] c"

fun run_getter :: "byte list \<Rightarrow> getter \<Rightarrow> js_error + getter_result" where
  "run_getter buffer (ScalarGetter _ method offset) =
     (case view_method method of
        None \<Rightarrow> Inl JsTypeError
      | Some t \<Rightarrow> bind_res (data_view_get t buffer offset) (\<lambda>v. Inr (ScalarValue v)))"
| "run_getter buffer (ArrayGetter _ view a b) =
     (case array_class view of
        None \<Rightarrow> Inl JsTypeError
      | Some t \<Rightarrow> bind_res (typed_array t (slice a b buffer)) (\<lambda>vs. Inr (ArrayValue vs)))"

fun getter_key :: "getter \<Rightarrow> string" where
  "getter_key (ScalarGetter k _ _) = k"
| "getter_key (ArrayGetter k _ _ _) = k"

section \<open>The layout as a specification\<close>

text \<open>
  The fields of a class in order: key, type and number of elements; and the bytes of a
  record, field after field without padding.
\<close>

fun layout_fields :: "layout_element list \<Rightarrow> (string \<times> elem_type \<times> nat) list" where
  "layout_fields [] = []"
| "layout_fields (Property p # es) =
     (case property_type p of
        None \<Rightarrow> layout_fields es
      | Some (t, n) \<Rightarrow> (pkey p, t, n) # layout_fields es)"
| "layout_fields (_ # es) = layout_fields es"

fun field_size :: "string \<times> elem_type \<times> nat \<Rightarrow> nat" where
  "field_size (_, t, n) = type_size t * n"

definition record_size :: "(string \<times> elem_type \<times> nat) list \<Rightarrow> nat" where
  "record_size fs = sum_list (map field_size fs)"

text \<open>The value a field has when its bytes are \<open>bs\<close>.\<close>

fun field_value :: "string \<times> elem_type \<times> nat \<Rightarrow> byte list \<Rightarrow> getter_result" where
  "field_value (_, t, n) bs =
     (if n = 1 then ScalarValue (decode_elem t bs)
      else ArrayValue (map (decode_elem t) (chunks (type_size t) n bs)))"

lemma platform_names:
  "view_method (type_getter t) = Some t" "array_class (array_view t) = Some t"
  "type_of_name (type_key t) = Some t"
  by (cases t; simp add: view_method_def array_class_def type_of_name_def enum_elem_type_def)+

lemma type_size_pos [simp]: "0 < type_size t"
  by (cases t) simp_all

lemma type_of_name_key: "type_of_name n = Some t \<Longrightarrow> type_key t = n"
  by (auto simp: type_of_name_def find_Some_iff)

text \<open>The getter made for a field at an offset, on a buffer that holds the field there.\<close>

lemma run_make_getter:
  assumes "length bs = type_size t * n" and "off = length pre"
  shows "run_getter (pre @ bs @ post) (make_getter k t n off) = Inr (field_value (k, t, n) bs)"
proof -
  have "slice off (off + type_size t * n) (pre @ bs @ post) = bs"
    using slice_append_mid [of pre bs post] assms by simp
  then show ?thesis
    using assms by (auto simp: make_getter_def platform_names data_view_get_def typed_array_def)
qed

fun place :: "(string \<times> elem_type \<times> nat) list \<Rightarrow> nat \<Rightarrow> getter list" where
  "place [] off = []"
| "place ((k, t, n) # fs) off = make_getter k t n off # place fs (off + type_size t * n)"

lemma traverse_eq:
  "traverse es off =
     (filter (\<lambda>e. \<forall>p. e = Property p \<longrightarrow> property_type p = None) es,
      place (layout_fields es) off, off + record_size (layout_fields es))"
  by (induction es off rule: traverse.induct)
    (auto simp: record_size_def split: option.splits prod.splits)

text \<open>The getters of a record whose fields hold the byte strings \<open>bss\<close>.\<close>

lemma run_place:
  assumes "list_all2 (\<lambda>f bs. length bs = field_size f) fs bss" and "off = length pre"
  shows "map (run_getter (pre @ concat bss @ post)) (place fs off) = map2 (\<lambda>f bs. Inr (field_value f bs)) fs bss"
  using assms
proof (induction fs bss arbitrary: pre off rule: list_all2_induct)
  case (Cons f fs bs bss)
  obtain k t n where f: "f = (k, t, n)" by (cases f)
  have "map (run_getter ((pre @ bs) @ concat bss @ post)) (place fs (length (pre @ bs))) =
      map2 (\<lambda>f bs. Inr (field_value f bs)) fs bss"
    using Cons.prems by (intro Cons.IH) simp
  moreover have "run_getter (pre @ bs @ concat bss @ post) (make_getter k t n off) = Inr (field_value f bs)"
    using run_make_getter [of bs t n off pre "concat bss @ post" k] Cons f by simp
  ultimately show ?case using Cons f by simp
qed simp

fun getters_of :: "layout_element list \<Rightarrow> getter list" where
  "getters_of [] = []"
| "getters_of (Getter g # es) = g # getters_of es"
| "getters_of (_ # es) = getters_of es"

lemma getters_of_append [simp]: "getters_of (es @ es') = getters_of es @ getters_of es'"
  by (induction es rule: getters_of.induct) simp_all

lemma getters_of_map [simp]: "getters_of (map Getter gs) = gs"
  by (induction gs) simp_all

lemma getters_of_filter: "getters_of es = [] \<Longrightarrow> getters_of (filter P es) = []"
  by (induction es rule: getters_of.induct) simp_all

lemma layout_getters:
  assumes "BIdentifier ''binaryLayout'' \<in> set (ldecorators c)" and "getters_of (lbody c) = []"
  shows "getters_of (lbody (layout_class_declaration c)) = place (layout_fields (lbody c)) 0"
  using assms by (simp add: layout_class_declaration_def traverse_eq getters_of_filter)

text \<open>The bytes a getter looks at.\<close>

fun getter_range :: "getter \<Rightarrow> nat \<times> nat" where
  "getter_range (ScalarGetter _ method offset) =
     (offset, offset + (case view_method method of None \<Rightarrow> 0 | Some t \<Rightarrow> type_size t))"
| "getter_range (ArrayGetter _ _ a b) = (a, b)"

lemma make_getter_range: "getter_range (make_getter k t n off) = (off, off + type_size t * n)"
  by (simp add: make_getter_def platform_names)

lemma place_ranges:
  "concat (map (\<lambda>g. [fst (getter_range g)..<snd (getter_range g)]) (place fs off)) = [off..<off + record_size fs]"
proof (induction fs off rule: place.induct)
  case (2 k t n fs off)
  then show ?case
    using upt_add_eq_append [of off "off + type_size t * n" "record_size fs"]
    by (simp add: make_getter_range record_size_def add.assoc)
qed (simp add: record_size_def)

section \<open>Properties\<close>

text \<open>A packet class for the instances: a float, a signed 16-bit number and three bytes.\<close>

definition sample_packet :: layout_class where
  "sample_packet =
     \<lparr>ldecorators = [BIdentifier ''binaryLayout''],
      lbody = [Property \<lparr>pkey = ''gain'', pdecorators = [BCall ''type'' [ArgString ''float32'']],
                          pannotation = NotIndexed\<rparr>,
               Other 0,
               Property \<lparr>pkey = ''level'', pdecorators = [BCall ''type'' [ArgString ''int16'']],
                          pannotation = NotIndexed\<rparr>,
               Property \<lparr>pkey = ''id'', pdecorators = [], pannotation = Indexed (Some ''uint8'') (Some 3)\<rparr>]\<rparr>"

lemma sample_packet_fields:
  "layout_fields (lbody sample_packet) = [(''gain'', Float32, 1), (''level'', Int16, 1), (''id'', Uint8, 3)]"
  by (simp add: sample_packet_def property_type_def type_of_name_def enum_elem_type_def)

lemma sample_packet_tagged:
  "BIdentifier ''binaryLayout'' \<in> set (ldecorators sample_packet)" "getters_of (lbody sample_packet) = []"
  by (simp_all add: sample_packet_def)







text \<open>The rewritten class. A tagged class loses every \<open>@binaryLayout\<close> decorator, starts
  with the factory and the constructor, keeps its other members (and the properties without
  a known type) in order, and ends with one getter for each laid out property; an untagged
  class is not touched.\<close>
theorem layout_class_result:
  "layout_class_declaration c =
     (if BIdentifier ''binaryLayout'' \<in> set (ldecorators c) then
        \<lparr>ldecorators = filter (\<lambda>d. d \<noteq> BIdentifier ''binaryLayout'') (ldecorators c),
         lbody = StaticFactory # Constructor #
           filter (\<lambda>e. \<forall>p. e = Property p \<longrightarrow> property_type p = None) (lbody c) @
           map Getter (place (layout_fields (lbody c)) 0)\<rparr>
      else c)"
  by (simp add: layout_class_declaration_def traverse_eq)

theorem layout_class_result_sample:
  "lbody (layout_class_declaration sample_packet) =
     [StaticFactory, Constructor, Other 0, Getter (ScalarGetter ''gain'' ''getFloat32'' 0),
      Getter (ScalarGetter ''level'' ''getInt16'' 4), Getter (ArrayGetter ''id'' ''Uint8Array'' 6 9)]"
  using layout_class_result [of sample_packet] sample_packet_tagged sample_packet_fields
  by (simp add: make_getter_def)
    (simp add: sample_packet_def property_type_def type_of_name_def enum_elem_type_def)

definition int_range :: "elem_type \<Rightarrow> int set" where
  "int_range t =
     (if is_signed t then {- (2 ^ (8 * type_size t - 1))..<2 ^ (8 * type_size t - 1)}
      else {0..<2 ^ (8 * type_size t)})"



end
