(* ===== verification/Vector_View.thy ===== *)
theory Vector_View
  imports Binary_Layout
begin

text \<open>
  \<open>packages/ohn-vector/src/ohn-vector.js\<close>: a Float32 view of a Node buffer. The buffer and
  the view share an \<open>ArrayBuffer\<close>, so memory is explicit: a map from buffer numbers to
  bytes, and views that name a buffer, an offset and a length.
\<close>

section \<open>Memory and views\<close>

type_synonym memory = "nat \<Rightarrow> byte list"

record node_buffer =
  buffer_id :: nat
  byteOffset :: nat
  byteLength :: nat

record float_view =
  view_id :: nat
  view_offset :: nat
  view_length :: nat

text \<open>A node buffer lies inside its \<open>ArrayBuffer\<close>.\<close>

definition inside :: "memory \<Rightarrow> node_buffer \<Rightarrow> bool" where
  "inside mem b \<longleftrightarrow> byteOffset b + byteLength b \<le> length (mem (buffer_id b))"

text \<open>
  \<open>new Float32Array(arrayBuffer, offset, n)\<close> throws a RangeError when the offset is no
  multiple of 4 or the elements do not fit; a fractional \<open>n\<close> is cut to its integer part.
\<close>

definition float32_array :: "memory \<Rightarrow> nat \<Rightarrow> nat \<Rightarrow> nat \<Rightarrow> js_error + float_view" where
  "float32_array mem buf off n =
     (if off mod 4 \<noteq> 0 \<or> off + 4 * n > length (mem buf) then Inl JsRangeError
      else Inr \<lparr>view_id = buf, view_offset = off, view_length = n\<rparr>)"

definition mapVector :: "memory \<Rightarrow> node_buffer \<Rightarrow> js_error + float_view" where
  "mapVector mem buffer = float32_array mem (buffer_id buffer) (byteOffset buffer) (byteLength buffer div 4)"

text \<open>Element \<open>i\<close> of a view, as the bit pattern of the float; a store through the buffer.\<close>

definition view_get :: "memory \<Rightarrow> float_view \<Rightarrow> nat \<Rightarrow> elem option" where
  "view_get mem v i =
     (if i < view_length v
      then Some (decode_elem Float32
        (slice (view_offset v + 4 * i) (view_offset v + 4 * i + 4) (mem (view_id v))))
      else None)"

definition buffer_write :: "node_buffer \<Rightarrow> nat \<Rightarrow> byte list \<Rightarrow> memory \<Rightarrow> memory" where
  "buffer_write b at' bs mem =
     mem(buffer_id b := take (byteOffset b + at') (mem (buffer_id b)) @ bs @
       drop (byteOffset b + at' + length bs) (mem (buffer_id b)))"

section \<open>Properties\<close>

text \<open>\<open>mapVector\<close> needs alignment and nothing else. On a buffer inside its
  \<open>ArrayBuffer\<close> it throws a RangeError exactly when the buffer's byte offset is no multiple
  of 4, and otherwise returns a view of all whole floats; up to three bytes at the end are
  left out.\<close>
theorem mapVector_result:
  assumes "inside mem b"
  shows "mapVector mem b =
    (if byteOffset b mod 4 \<noteq> 0 then Inl JsRangeError
     else Inr \<lparr>view_id = buffer_id b, view_offset = byteOffset b, view_length = byteLength b div 4\<rparr>) \<and>
    byteLength b - 4 * (byteLength b div 4) < 4"
proof -
  have "4 * (byteLength b div 4) \<le> byteLength b" by simp
  then have "byteOffset b + 4 * (byteLength b div 4) \<le> length (mem (buffer_id b))"
    using assms unfolding inside_def by linarith
  moreover have "byteLength b - 4 * (byteLength b div 4) = byteLength b mod 4"
    by (simp add: minus_mult_div_eq_mod)
  ultimately show ?thesis by (auto simp: mapVector_def float32_array_def)
qed

theorem mapVector_result_sample:
  "mapVector (\<lambda>_. replicate 64 0) \<lparr>buffer_id = 0, byteOffset = 3, byteLength = 8\<rparr> = Inl JsRangeError"
  using mapVector_result [of "\<lambda>_. replicate 64 0" "\<lparr>buffer_id = 0, byteOffset = 3, byteLength = 8\<rparr>"]
  by (simp add: inside_def)

text \<open>C39. The view is not a copy. Four bytes stored through the node buffer at a multiple of
  4 are the float the view made before the store reads afterwards at that index, and every
  other element keeps its value.\<close>
theorem mapVector_aliases:
  assumes "inside mem b" and "mapVector mem b = Inr v" and "i < view_length v" and "length bs = 4"
  shows "view_get (buffer_write b (4 * i) bs mem) v j =
    (if j = i then Some (decode_elem Float32 bs) else view_get mem v j)"
proof -
  have v: "v = \<lparr>view_id = buffer_id b, view_offset = byteOffset b, view_length = byteLength b div 4\<rparr>"
    using assms(2) by (auto simp: mapVector_def float32_array_def split: if_splits)
  let ?m = "mem (buffer_id b)"
  let ?at = "byteOffset b + 4 * i"
  have room: "?at + 4 \<le> length ?m"
    using assms(1,3) by (simp add: inside_def v)
  have same: "slice (byteOffset b + 4 * j) (byteOffset b + 4 * j + 4) (take ?at ?m @ bs @ drop (?at + 4) ?m) =
      (if j = i then bs else slice (byteOffset b + 4 * j) (byteOffset b + 4 * j + 4) ?m)"
    if "byteOffset b + 4 * j + 4 \<le> length ?m"
  proof (cases "j = i")
    case True
    then show ?thesis using room assms(4) by (simp add: slice_def)
  next
    case False
    then consider "j < i" | d where "j = Suc (i + d)"
      by (metis less_iff_Suc_add linorder_neqE_nat)
    then show ?thesis
      by cases (use room that assms(4) False in
        \<open>auto intro!: nth_equalityI simp: nth_slice nth_append ac_simps\<close>)
  qed
  have "byteOffset b + 4 * j + 4 \<le> length ?m" if "j < byteLength b div 4"
  proof -
    have "4 * j + 4 \<le> byteLength b" using that by linarith
    then show ?thesis using assms(1) by (simp add: inside_def)
  qed
  then show ?thesis
    using same assms(3,4) by (auto simp: view_get_def buffer_write_def v)
qed

theorem mapVector_aliases_sample:
  "view_get (buffer_write \<lparr>buffer_id = 0, byteOffset = 4, byteLength = 8\<rparr> (4 * 1) [0, 0, 0x80, 0x3f] (\<lambda>_. replicate 64 0))
     \<lparr>view_id = 0, view_offset = 4, view_length = 2\<rparr> 1 = Some (FloatBits 0x3f800000)"
  using mapVector_aliases [of "\<lambda>_. replicate 64 0" "\<lparr>buffer_id = 0, byteOffset = 4, byteLength = 8\<rparr>"
      "\<lparr>view_id = 0, view_offset = 4, view_length = 2\<rparr>" 1 "[0, 0, 0x80, 0x3f]" 1]
  by (simp add: inside_def mapVector_def float32_array_def decode_elem_def is_float_def)

end
