(* ===== verification/Serializer.thy ===== *)
theory Serializer
  imports Js_Text
begin

text \<open>
  \<open>compiler/src/shim/serializer.js\<close>: the flat binary form of a syntax tree. A node is an
  8-byte header (type, flags, total length), a payload and its children. The parser is
  Babel's; the tree is the argument. Warnings on the console are left out.
\<close>

section \<open>The tree and the writer\<close>

text \<open>
  A declarator is the name, \<open>None\<close> for a destructuring pattern, and the initialiser. A
  number is its 64-bit pattern. \<open>OtherNode\<close> is every type the switch has no case for.
\<close>

datatype node =
    Program "node list"
  | BlockStatement "node list"
  | VariableDeclaration string "(js_string option \<times> node option) list"
  | NumericLiteral "64 word"
  | StringLiteral js_string
  | ExpressionStatement node
  | OtherNode string

definition NODE_TYPES :: "string \<Rightarrow> nat option" where
  "NODE_TYPES = map_of
     [(''Program'', 0), (''VariableDeclaration'', 1), (''NumericLiteral'', 2),
      (''StringLiteral'', 3), (''BlockStatement'', 4)]"

definition VAR_KINDS :: "string \<Rightarrow> nat option" where
  "VAR_KINDS = map_of [(''var'', 0), (''let'', 1), (''const'', 2)]"

definition kind_flag :: "string \<Rightarrow> nat" where
  "kind_flag kind = (case VAR_KINDS kind of None \<Rightarrow> 0 | Some n \<Rightarrow> n)"

definition text_payload :: "js_string \<Rightarrow> byte list" where
  "text_payload s = le_bytes 4 (length (utf8_encode s)) @ utf8_encode s"

definition name_payload :: "js_string option \<Rightarrow> byte list" where
  "name_payload name = (case name of None \<Rightarrow> [] | Some n \<Rightarrow> text_payload n)"

text \<open>\<open>writeUInt32LE\<close> throws a RangeError for a length of 2^32 or more.\<close>

definition emit :: "string \<Rightarrow> nat \<Rightarrow> byte list \<Rightarrow> byte list \<Rightarrow> js_error + byte list" where
  "emit type flags payload childrenBuffer =
     (let totalLength = 8 + length payload + length childrenBuffer in
      if totalLength < 2 ^ 32 then
        Inr (le_bytes 2 (case NODE_TYPES type of None \<Rightarrow> 0 | Some n \<Rightarrow> n) @ le_bytes 2 flags @
             le_bytes 4 totalLength @ payload @ childrenBuffer)
      else Inl JsRangeError)"

fun serialize :: "node \<Rightarrow> js_error + byte list"
  and serialize_all :: "node list \<Rightarrow> js_error + byte list" where
  "serialize (Program body) = bind_res (serialize_all body) (emit ''Program'' 0 [])"
| "serialize (BlockStatement body) = bind_res (serialize_all body) (emit ''BlockStatement'' 0 [])"
| "serialize (VariableDeclaration kind []) = emit ''VariableDeclaration'' (kind_flag kind) [] []"
| "serialize (VariableDeclaration kind ((name, None) # _)) =
     emit ''VariableDeclaration'' (kind_flag kind) (name_payload name) []"
| "serialize (VariableDeclaration kind ((name, Some init) # _)) =
     bind_res (serialize init) (emit ''VariableDeclaration'' (kind_flag kind) (name_payload name))"
| "serialize (NumericLiteral w) = emit ''NumericLiteral'' 0 (le_bytes 8 (unat w)) []"
| "serialize (StringLiteral s) = emit ''StringLiteral'' 0 (text_payload s) []"
| "serialize (ExpressionStatement e) = serialize e"
| "serialize (OtherNode type) = Inr []"
| "serialize_all [] = Inr []"
| "serialize_all (child # children) =
     bind_res (serialize child) (\<lambda>b. bind_res (serialize_all children) (\<lambda>bs. Inr (b @ bs)))"

text \<open>\<open>compileCode\<close>, over the parser it calls.\<close>

definition compileCode :: "(js_string \<Rightarrow> js_error + node) \<Rightarrow> js_string \<Rightarrow> js_error + byte list" where
  "compileCode parse code = bind_res (parse code) serialize"

section \<open>A reader of the format\<close>

text \<open>
  The reader takes the format at its word: it trusts the lengths, reads a name at the head
  of every declaration, and leaves the rest of a body to the children. Fuel above the
  length of the buffer is enough, as each node takes at least its header.
\<close>

definition kind_of_flag :: "nat \<Rightarrow> string" where
  "kind_of_flag n = (if n = 1 then ''let'' else if n = 2 then ''const'' else ''var'')"

definition read_text :: "byte list \<Rightarrow> (js_string \<times> byte list) option" where
  "read_text bs =
     (let n = le_nat (take 4 bs) in
      if 4 \<le> length bs \<and> 4 + n \<le> length bs
      then Some (utf8_decode (take n (drop 4 bs)), drop (4 + n) bs) else None)"

definition read_header :: "byte list \<Rightarrow> (nat \<times> nat \<times> byte list \<times> byte list) option" where
  "read_header bs =
     (let total = le_nat (take 4 (drop 4 bs)) in
      if length bs < 8 \<or> total < 8 \<or> length bs < total then None
      else Some (le_nat (take 2 bs), le_nat (take 2 (drop 2 bs)), take (total - 8) (drop 8 bs), drop total bs))"

definition read_literal :: "nat \<Rightarrow> byte list \<Rightarrow> node option" where
  "read_literal type body =
     (if type = 2 then (if length body = 8 then Some (NumericLiteral (of_nat (le_nat body))) else None)
      else if type = 3 then
        (case read_text body of Some (s, []) \<Rightarrow> Some (StringLiteral s) | _ \<Rightarrow> None)
      else None)"

definition declared_node :: "nat \<Rightarrow> js_string \<Rightarrow> node list \<Rightarrow> node option" where
  "declared_node flags name children =
     (case children of
        [] \<Rightarrow> Some (VariableDeclaration (kind_of_flag flags) [(Some name, None)])
      | [init] \<Rightarrow> Some (VariableDeclaration (kind_of_flag flags) [(Some name, Some init)])
      | _ \<Rightarrow> None)"

fun read_node :: "nat \<Rightarrow> byte list \<Rightarrow> (node \<times> byte list) option"
  and read_nodes :: "nat \<Rightarrow> byte list \<Rightarrow> node list option" where
  "read_node 0 bs = None"
| "read_node (Suc fuel) bs =
     Option.bind (read_header bs) (\<lambda>(type, flags, body, rest).
       map_option (\<lambda>n. (n, rest))
         (if type = 0 then map_option Program (read_nodes fuel body)
          else if type = 4 then map_option BlockStatement (read_nodes fuel body)
          else if type = 1 then
            Option.bind (read_text body) (\<lambda>(name, r).
              Option.bind (read_nodes fuel r) (declared_node flags name))
          else read_literal type body))"
| "read_nodes 0 bs = None"
| "read_nodes (Suc fuel) bs =
     (if bs = [] then Some []
      else Option.bind (read_node fuel bs) (\<lambda>(n, rest).
        map_option (\<lambda>ns. n # ns) (read_nodes fuel rest)))"

section \<open>The trees the format carries\<close>

text \<open>
  One declarator with a plain name and one of the three kinds; an initialiser that is
  itself carried; statements are carried through their expression.
\<close>

fun carried :: "node \<Rightarrow> bool" where
  "carried (Program body) = list_all carried body"
| "carried (BlockStatement body) = list_all carried body"
| "carried (VariableDeclaration kind [(Some name, None)]) =
     (VAR_KINDS kind \<noteq> None \<and> well_formed name)"
| "carried (VariableDeclaration kind [(Some name, Some init)]) =
     (VAR_KINDS kind \<noteq> None \<and> well_formed name \<and> carried init)"
| "carried (VariableDeclaration kind _) = False"
| "carried (NumericLiteral w) = True"
| "carried (StringLiteral s) = well_formed s"
| "carried (ExpressionStatement e) = carried e"
| "carried (OtherNode type) = False"

fun plain :: "node \<Rightarrow> node" where
  "plain (Program body) = Program (map plain body)"
| "plain (BlockStatement body) = BlockStatement (map plain body)"
| "plain (VariableDeclaration kind [(name, Some init)]) = VariableDeclaration kind [(name, Some (plain init))]"
| "plain (ExpressionStatement e) = plain e"
| "plain n = n"

section \<open>Reading what was written\<close>

lemma type_codes:
  "NODE_TYPES ''Program'' = Some 0" "NODE_TYPES ''VariableDeclaration'' = Some 1"
  "NODE_TYPES ''NumericLiteral'' = Some 2" "NODE_TYPES ''StringLiteral'' = Some 3"
  "NODE_TYPES ''BlockStatement'' = Some 4"
  by (simp_all add: NODE_TYPES_def)

lemma kind_flag_cases:
  "kind_flag kind \<le> 2" "VAR_KINDS kind \<noteq> None \<Longrightarrow> kind_of_flag (kind_flag kind) = kind"
  by (auto simp: kind_flag_def VAR_KINDS_def kind_of_flag_def split: if_splits)

lemma emit_layout:
  assumes "emit type flags payload kids = Inr bs"
  shows "length bs = 8 + length payload + length kids" and "length bs < 2 ^ 32"
    and "bs = le_bytes 2 (case NODE_TYPES type of None \<Rightarrow> 0 | Some n \<Rightarrow> n) @ le_bytes 2 flags @
      le_bytes 4 (length bs) @ payload @ kids"
  using assms by (auto simp: emit_def Let_def add.assoc split: if_splits)

lemma read_header_emit:
  assumes "emit type flags payload kids = Inr bs" and "NODE_TYPES type = Some code" and "flags < 2 ^ 16"
  shows "read_header (bs @ rest) = Some (code, flags, payload @ kids, rest)"
proof -
  note lay = emit_layout [OF assms(1)]
  have "code < 2 ^ 16" using assms(2) by (auto simp: NODE_TYPES_def split: if_splits)
  define total where "total = length bs"
  have t: "le_nat (le_bytes 4 total) = total" using lay(2) by (intro le_nat_le_bytes) (simp add: total_def)
  have c: "le_nat (le_bytes 2 code) = code" "le_nat (le_bytes 2 flags) = flags"
    using \<open>code < 2 ^ 16\<close> assms(3) by (intro le_nat_le_bytes; simp)+
  have b: "bs = le_bytes 2 code @ le_bytes 2 flags @ le_bytes 4 total @ payload @ kids"
    using lay(3) assms(2) by (simp add: total_def)
  have n: "total = 8 + length payload + length kids" using lay(1) by (simp add: total_def)
  define all where "all = bs @ rest"
  have "take 4 (drop 4 all) = le_bytes 4 total" "take 2 all = le_bytes 2 code"
    "take 2 (drop 2 all) = le_bytes 2 flags" "take (total - 8) (drop 8 all) = payload @ kids"
    "drop total all = rest" "total \<le> length all" "8 \<le> length all" "8 \<le> total"
    unfolding all_def b by (simp_all add: n)
  then have "read_header all = Some (code, flags, payload @ kids, rest)"
    by (simp add: read_header_def Let_def t c)
  then show ?thesis by (simp add: all_def)
qed

lemma read_text_payload:
  assumes "length (utf8_encode s) < 2 ^ 32" and "well_formed s"
  shows "read_text (text_payload s @ r) = Some (s, r)"
proof -
  have "le_nat (le_bytes 4 (length (utf8_encode s))) = length (utf8_encode s)"
    using assms(1) by (intro le_nat_le_bytes) simp
  then show ?thesis
    using assms(2) by (simp add: read_text_def text_payload_def Let_def utf8_decode_encode to_well_formed_id)
qed

lemma length_text_payload: "length (text_payload s) = 4 + length (utf8_encode s)"
  by (simp add: text_payload_def)

lemma read_declaration:
  assumes "emit ''VariableDeclaration'' (kind_flag kind) (name_payload (Some name)) kids = Inr bs"
    and "well_formed name" and "read_nodes fuel kids = Some ns"
  shows "read_node (Suc fuel) (bs @ rest) = map_option (\<lambda>n. (n, rest)) (declared_node (kind_flag kind) name ns)"
proof -
  have "length (utf8_encode name) < 2 ^ 32"
    using emit_layout(1,2) [OF assms(1)] by (simp add: name_payload_def length_text_payload)
  then show ?thesis
    using read_header_emit [OF assms(1) type_codes(2), of rest] kind_flag_cases(1) [of kind] assms(2,3)
    by (simp add: name_payload_def read_text_payload)
qed

lemma read_back:
  "carried n \<Longrightarrow> serialize n = Inr bs \<Longrightarrow> length bs \<le> fuel \<Longrightarrow>
     read_node fuel (bs @ rest) = Some (plain n, rest) \<and> 8 \<le> length bs"
  "list_all carried ns \<Longrightarrow> serialize_all ns = Inr cs \<Longrightarrow> length cs < fuel \<Longrightarrow>
     read_nodes fuel cs = Some (map plain ns)"
proof (induction n and ns arbitrary: bs fuel rest and cs fuel rule: serialize_serialize_all.induct)
  case (1 body)
  then obtain kids where kids: "serialize_all body = Inr kids" "emit ''Program'' 0 [] kids = Inr bs"
    by (auto simp: bind_res_Inr_iff)
  note lay = emit_layout(1) [OF kids(2)]
  then obtain f where f: "fuel = Suc f" "length kids < f" using 1(4) by (cases fuel) auto
  show ?case
    using 1(1) [OF _ kids(1) f(2)] 1(2) read_header_emit [OF kids(2) type_codes(1), of rest] lay
    by (simp add: f(1))
next
  case (2 body)
  then obtain kids where kids: "serialize_all body = Inr kids" "emit ''BlockStatement'' 0 [] kids = Inr bs"
    by (auto simp: bind_res_Inr_iff)
  note lay = emit_layout(1) [OF kids(2)]
  then obtain f where f: "fuel = Suc f" "length kids < f" using 2(4) by (cases fuel) auto
  show ?case
    using 2(1) [OF _ kids(1) f(2)] 2(2) read_header_emit [OF kids(2) type_codes(5), of rest] lay
    by (simp add: f(1))
next
  case (4 kind name ds)
  then obtain nm where nm: "name = Some nm" "ds = []" "VAR_KINDS kind \<noteq> None" "well_formed nm"
    by (cases name; cases ds) auto
  have e: "emit ''VariableDeclaration'' (kind_flag kind) (name_payload (Some nm)) [] = Inr bs"
    using 4(2) nm by simp
  note lay = emit_layout(1) [OF e]
  then obtain f where f: "fuel = Suc (Suc f)" using 4(3) by (cases fuel; cases "fuel - 1") auto
  show ?case
    using read_declaration [OF e nm(4), of "Suc f" "[]" rest] lay nm
    by (simp add: f declared_node_def kind_flag_cases)
next
  case (5 kind name init ds)
  then obtain nm where nm: "name = Some nm" "ds = []" "VAR_KINDS kind \<noteq> None" "well_formed nm" "carried init"
    by (cases name; cases ds) auto
  obtain kids where kids: "serialize init = Inr kids"
      "emit ''VariableDeclaration'' (kind_flag kind) (name_payload (Some nm)) kids = Inr bs"
    using 5(3) nm by (auto simp: bind_res_Inr_iff)
  note lay = emit_layout(1) [OF kids(2)]
  obtain f where f: "fuel = Suc (Suc f)" "length kids \<le> f" "0 < f"
    using 5(4) lay by (cases fuel; cases "fuel - 1") auto
  have "read_node f (kids @ []) = Some (plain init, [])" "8 \<le> length kids"
    using 5(1) [OF nm(5) kids(1) f(2), of "[]"] by auto
  then have "read_nodes (Suc f) kids = Some [plain init]"
    using f(3) by (cases f) (auto simp del: read_node.simps)
  then show ?case
    using read_declaration [OF kids(2) nm(4), of "Suc f" "[plain init]" rest] lay nm
    by (simp add: f(1) declared_node_def kind_flag_cases)
next
  case (6 w)
  then have e: "emit ''NumericLiteral'' 0 (le_bytes 8 (unat w)) [] = Inr bs" by simp
  note lay = emit_layout(1) [OF e]
  then obtain f where f: "fuel = Suc f" using 6(3) by (cases fuel) auto
  have "le_nat (le_bytes 8 (unat w)) = unat w"
    using unsigned_less [of w, where ?'a = nat] by (intro le_nat_le_bytes) simp
  then show ?case
    using read_header_emit [OF e type_codes(3), of rest] lay by (simp add: f read_literal_def)
next
  case (7 s)
  then have e: "emit ''StringLiteral'' 0 (text_payload s) [] = Inr bs" by simp
  note lay = emit_layout [OF e]
  then obtain f where f: "fuel = Suc f" using 7(3) by (cases fuel) auto
  have "read_text (text_payload s @ []) = Some (s, [])"
    using lay 7(1) by (intro read_text_payload) (simp_all add: length_text_payload)
  then show ?case
    using read_header_emit [OF e type_codes(4), of rest] lay by (simp add: f read_literal_def)
next
  case 10
  then show ?case by (cases fuel) auto
next
  case (11 child children)
  then obtain b bs' where b: "serialize child = Inr b" "serialize_all children = Inr bs'" "cs = b @ bs'"
    by (auto simp: bind_res_Inr_iff)
  obtain f where f: "fuel = Suc f" "length cs \<le> f" using 11(5) by (cases fuel) auto
  have one: "read_node f (b @ bs') = Some (plain child, bs')" "8 \<le> length b"
    using 11(1) [of b f bs'] 11(3) b f by auto
  moreover have "read_nodes f bs' = Some (map plain children)"
    using 11(2) [of bs' f] 11(3) b f one(2) by auto
  ultimately show ?case using b(3) by (auto simp: f(1) simp del: read_node.simps)
qed auto

text \<open>Every buffer but the empty one announces its own length.\<close>

lemma emit_total:
  assumes "emit type flags payload kids = Inr bs"
  shows "8 \<le> length bs \<and> le_nat (take 4 (drop 4 bs)) = length bs"
proof -
  note lay = emit_layout [OF assms]
  define total where "total = length bs"
  have "take 4 (drop 4 bs) = le_bytes 4 total"
    using arg_cong [OF lay(3), of "\<lambda>b. take 4 (drop 4 b)"] by (simp add: total_def)
  moreover have "le_nat (le_bytes 4 total) = total"
    using lay(2) by (intro le_nat_le_bytes) (simp add: total_def)
  ultimately show ?thesis using lay(1) by (simp add: total_def)
qed

lemma serialize_total:
  "serialize n = Inr bs \<Longrightarrow> bs \<noteq> [] \<Longrightarrow> 8 \<le> length bs \<and> le_nat (take 4 (drop 4 bs)) = length bs"
  "serialize_all ns = Inr cs \<Longrightarrow> True"
  by (induction n and ns arbitrary: bs and cs rule: serialize_serialize_all.induct)
    (auto simp: bind_res_Inr_iff dest: emit_total)

text \<open>Stepping from node to node by the lengths in the headers.\<close>

fun walk :: "nat \<Rightarrow> byte list \<Rightarrow> byte list list" where
  "walk 0 bs = []"
| "walk (Suc fuel) bs =
     (if bs = [] then []
      else (let total = le_nat (take 4 (drop 4 bs)) in take total bs # walk fuel (drop total bs)))"

lemma serialize_all_parts:
  "serialize_all ns = Inr cs \<Longrightarrow> \<exists>parts. list_all2 (\<lambda>n c. serialize n = Inr c) ns parts \<and> cs = concat parts"
proof (induction ns arbitrary: cs)
  case (Cons n ns)
  then obtain b bs where "serialize n = Inr b" "serialize_all ns = Inr bs" "cs = b @ bs"
    by (auto simp: bind_res_Inr_iff)
  moreover from this obtain parts where "list_all2 (\<lambda>n c. serialize n = Inr c) ns parts" "bs = concat parts"
    using Cons.IH by blast
  ultimately have "list_all2 (\<lambda>n c. serialize n = Inr c) (n # ns) (b # parts) \<and> cs = concat (b # parts)"
    by simp
  then show ?case by blast
qed simp

lemma walk_parts:
  "list_all2 (\<lambda>n c. serialize n = Inr c) ns parts \<Longrightarrow> length parts < fuel \<Longrightarrow>
   walk fuel (concat parts) = filter (\<lambda>c. c \<noteq> []) parts"
proof (induction ns parts arbitrary: fuel rule: list_all2_induct)
  case Nil
  then show ?case by (cases fuel) simp_all
next
  case (Cons n ns c cs)
  obtain f where f: "fuel = Suc f" "length cs < f" using Cons.prems by (cases fuel) auto
  show ?case
  proof (cases "c = []")
    case True
    then show ?thesis using Cons.IH [of fuel] Cons.prems by simp
  next
    case False
    then have "8 \<le> length c" "le_nat (take 4 (drop 4 c)) = length c"
      using serialize_total(1) [OF Cons.hyps(1)] by auto
    then show ?thesis using False Cons.IH [OF f(2)] by (simp add: f(1) Let_def)
  qed
qed

section \<open>Properties\<close>

text \<open>A program for the instances: \<open>let x = "hi"; { 0 }\<close>.\<close>

definition sample_program :: node where
  "sample_program = Program
     [VariableDeclaration ''let'' [(Some (js ''x''), Some (StringLiteral (js ''hi'')))],
      BlockStatement [ExpressionStatement (NumericLiteral 0)]]"

lemma sample_program_bytes:
  "\<exists>bs. serialize sample_program = Inr bs"
  by (simp add: sample_program_def emit_def Let_def type_codes utf8_encode_ascii text_payload_def
    name_payload_def)

lemma sample_carried: "carried sample_program"
  by (simp add: sample_program_def VAR_KINDS_def high_surrogate_def low_surrogate_def)

text \<open>C10. A reader of the format recovers the tree. For programs of blocks, literals and
  single-name declarations, reading the serialized bytes with fuel their length gives the
  tree back, expression statements unwrapped, and leaves what follows.\<close>
theorem serialize_read_back:
  assumes "carried n" and "serialize n = Inr bs"
  shows "read_node (length bs) (bs @ rest) = Some (plain n, rest)"
  using read_back(1) [OF assms order_refl] by blast

theorem serialize_read_back_sample:
  "\<exists>bs. serialize sample_program = Inr bs \<and>
    (\<forall>rest. read_node (length bs) (bs @ rest) = Some (plain sample_program, rest))"
  using sample_program_bytes serialize_read_back [OF sample_carried] by blast



text \<open>Every node announces its own length. Whatever the tree, a serialized node is empty
  or at least 8 bytes, fits 32 bits, and the 32-bit field at offset 4 is its length.\<close>
theorem serialize_length_field:
  assumes "serialize n = Inr bs"
  shows "bs = [] \<or> 8 \<le> length bs \<and> le_nat (take 4 (drop 4 bs)) = length bs"
  using serialize_total(1) [OF assms] by blast

theorem serialize_length_field_sample:
  "\<exists>bs. serialize sample_program = Inr bs \<and> (bs = [] \<or> 8 \<le> length bs \<and> le_nat (take 4 (drop 4 bs)) = length bs)"
  using sample_program_bytes serialize_length_field by blast

text \<open>What the format drops. Only the first declarator of a declaration is written
  (\<open>let a = 1, b = 2\<close> is serialized as \<open>let a = 1\<close>), and a statement of a type without a
  case disappears from its block: different programs have the same bytes.\<close>
theorem serialize_drops:
  "serialize (VariableDeclaration kind (d # ds)) = serialize (VariableDeclaration kind [d]) \<and>
   serialize (Program (before @ OtherNode type # after')) = serialize (Program (before @ after'))"
proof -
  have "serialize (VariableDeclaration kind (d # ds)) = serialize (VariableDeclaration kind [d])"
    by (cases d; cases "snd d") auto
  moreover have "serialize_all (before @ OtherNode type # after') = serialize_all (before @ after')"
  proof (induction before)
    case Nil
    then show ?case by (cases "serialize_all after'") simp_all
  qed simp
  ultimately show ?thesis by simp
qed

end
