(* ===== verification/Require_Paths.thy ===== *)
theory Require_Paths
  imports Prelude "HOL-Library.Sublist"
begin

text \<open>
  The post-processing that \<open>compiler/scripts/compile.js\<close> and both stages of
  \<open>compiler/scripts/bootstrap.js\<close> apply to generated code: replace every match of
  \<open>require\(['"]([^'"]*?)\.ohn['"]\)\<close> by \<open>require('$1.js')\<close>. As the group holds no quote,
  a match is \<open>require(\<close>, a quote, the text up to the next quote, which must end in \<open>.ohn\<close>,
  that quote and a closing bracket.
\<close>

section \<open>The replacement\<close>

definition is_quote :: "code_unit \<Rightarrow> bool" where
  "is_quote c \<longleftrightarrow> c = 0x27 \<or> c = 0x22"

definition match_require :: "js_string \<Rightarrow> (js_string \<times> js_string) option" where
  "match_require s =
     (if prefix (js ''require('') s then
        (case drop 8 s of
           [] \<Rightarrow> None
         | q # t \<Rightarrow>
             if is_quote q \<and> suffix (js ''.ohn'') (takeWhile (\<lambda>c. \<not> is_quote c) t) then
               (case dropWhile (\<lambda>c. \<not> is_quote c) t of
                  q2 # c # post \<Rightarrow>
                    if c = 0x29 then
                      Some (take (length (takeWhile (\<lambda>c. \<not> is_quote c) t) - 4) (takeWhile (\<lambda>c. \<not> is_quote c) t), post)
                    else None
                | _ \<Rightarrow> None)
             else None)
      else None)"

lemma match_require_shorter:
  assumes "match_require s = Some (g, post)" shows "length post < length s"
proof -
  obtain q t q2 c where "drop 8 s = q # t" "dropWhile (\<lambda>c. \<not> is_quote c) t = q2 # c # post"
    using assms by (auto simp: match_require_def split: if_splits list.splits)
  then have "length (drop 8 s) = Suc (length t)" "length (q2 # c # post) \<le> length t"
    by (simp, metis length_dropWhile_le)
  then show ?thesis by simp
qed

function fix_requires :: "js_string \<Rightarrow> js_string" where
  "fix_requires [] = []"
| "fix_requires (c # s) =
     (case match_require (c # s) of
        Some (g, post) \<Rightarrow> js ''require('' @ [0x27] @ g @ js ''.js'' @ [0x27, 0x29] @ fix_requires post
      | None \<Rightarrow> c # fix_requires s)"
  by pat_completeness auto
termination
  by (relation "measure length") (auto dest: match_require_shorter)

declare fix_requires.simps(2) [simp del]

section \<open>Matches\<close>

abbreviation unquoted :: "js_string \<Rightarrow> js_string" where
  "unquoted s \<equiv> takeWhile (\<lambda>c. \<not> is_quote c) s"

abbreviation from_quote :: "js_string \<Rightarrow> js_string" where
  "from_quote s \<equiv> dropWhile (\<lambda>c. \<not> is_quote c) s"

lemma not_quotes [simp]:
  "\<not> is_quote 0x72" "\<not> is_quote 0x65" "\<not> is_quote 0x71" "\<not> is_quote 0x75" "\<not> is_quote 0x69"
  "\<not> is_quote 0x28" "\<not> is_quote 0x29" "is_quote 0x27" "\<not> is_quote 0x6a" "\<not> is_quote 0x73" "\<not> is_quote 0x2e"
  by (simp_all add: is_quote_def)

lemma js_require: "js ''require('' = [0x72, 0x65, 0x71, 0x75, 0x69, 0x72, 0x65, 0x28]"
  by simp

text \<open>The shape of a match, in both directions.\<close>

lemma match_require_iff:
  "match_require s = Some (g, post) \<longleftrightarrow>
     (\<exists>q q2. s = js ''require('' @ q # g @ js ''.ohn'' @ q2 # 0x29 # post \<and>
        is_quote q \<and> is_quote q2 \<and> list_all (\<lambda>c. \<not> is_quote c) g)"
proof
  assume m: "match_require s = Some (g, post)"
  then obtain q t q2 where s: "prefix (js ''require('') s" "drop 8 s = q # t" "is_quote q"
      and suf: "suffix (js ''.ohn'') (unquoted t)"
      and rest: "from_quote t = q2 # 0x29 # post"
      and g: "g = take (length (unquoted t) - 4) (unquoted t)"
    by (auto simp: match_require_def simp del: js_Cons split: if_splits list.splits)
  obtain u where u: "unquoted t = u @ js ''.ohn''" using suf by (auto simp: suffix_def simp del: js_Cons)
  then have "g = u" using g by simp
  have "s = js ''require('' @ drop 8 s" using s(1) by (auto simp: prefix_def)
  moreover have "t = unquoted t @ from_quote t" by simp
  ultimately have "s = js ''require('' @ q # g @ js ''.ohn'' @ q2 # 0x29 # post"
    using s(2) u rest \<open>g = u\<close> by (metis append.assoc append_Cons append_Nil)
  moreover have "is_quote q2" using rest hd_dropWhile [of "\<lambda>c. \<not> is_quote c" t] by auto
  moreover have "list_all (\<lambda>c. \<not> is_quote c) g"
    using \<open>g = u\<close> u set_takeWhileD [of _ "\<lambda>c. \<not> is_quote c" t] by (auto simp: list_all_iff)
  ultimately show "\<exists>q q2. s = js ''require('' @ q # g @ js ''.ohn'' @ q2 # 0x29 # post \<and>
        is_quote q \<and> is_quote q2 \<and> list_all (\<lambda>c. \<not> is_quote c) g"
    using s(3) by blast
next
  assume "\<exists>q q2. s = js ''require('' @ q # g @ js ''.ohn'' @ q2 # 0x29 # post \<and>
        is_quote q \<and> is_quote q2 \<and> list_all (\<lambda>c. \<not> is_quote c) g"
  then obtain q q2 where s: "s = js ''require('' @ q # g @ js ''.ohn'' @ q2 # 0x29 # post"
      and q: "is_quote q" "is_quote q2" "\<forall>c \<in> set g. \<not> is_quote c"
    by (auto simp: list_all_iff simp del: js_Cons)
  have ohn: "\<forall>c \<in> set (g @ js ''.ohn''). \<not> is_quote c" using q(3) by (auto simp: is_quote_def)
  have "unquoted (w @ q2 # 0x29 # post) = w \<and> from_quote (w @ q2 # 0x29 # post) = q2 # 0x29 # post"
    if "\<forall>c \<in> set w. \<not> is_quote c" for w
    using that q(2) by (induction w) auto
  from this [OF ohn]
  have parts: "unquoted (g @ js ''.ohn'' @ q2 # 0x29 # post) = g @ js ''.ohn''"
    "from_quote (g @ js ''.ohn'' @ q2 # 0x29 # post) = q2 # 0x29 # post"
    by simp_all
  have "drop 8 s = q # g @ js ''.ohn'' @ q2 # 0x29 # post" by (simp add: s)
  moreover have "prefix (js ''require('') s" by (simp add: s)
  ultimately show "match_require s = Some (g, post)"
    using q(1) parts by (simp add: match_require_def suffix_def del: js_Cons) simp
qed

text \<open>A match can only start where the text up to the next quote is \<open>require(\<close>.\<close>

lemma match_unquoted:
  assumes "match_require s = Some (g, post)"
  shows "unquoted s = js ''require(''"
proof -
  obtain q r where "s = js ''require('' @ q # r" "is_quote q"
    using assms by (auto simp: match_require_iff simp del: js_Cons)
  then show ?thesis by simp
qed

lemma match_quote: "is_quote q \<Longrightarrow> match_require (q # s) = None"
  using match_unquoted [of "q # s"] by (cases "match_require (q # s)") auto

lemma unquoted_until:
  "list_all (\<lambda>c. \<not> is_quote c) w \<Longrightarrow> is_quote q \<Longrightarrow> unquoted (w @ q # s) = w \<and> from_quote (w @ q # s) = q # s"
  by (induction w) auto

lemma no_match_before:
  assumes "list_all (\<lambda>c. \<not> is_quote c) (c # w)" "is_quote q" "\<not> suffix (js ''require('') (c # w)"
  shows "match_require ((c # w) @ q # s) = None"
proof (cases "match_require ((c # w) @ q # s)")
  case (Some m)
  then have "unquoted ((c # w) @ q # s) = js ''require(''" using match_unquoted by (cases m) blast
  then have "c # w = js ''require(''" using unquoted_until [OF assms(1,2), of s] by simp
  then show ?thesis using assms(3) by (metis suffix_order.order_refl)
qed simp

lemma fix_until_quote:
  "list_all (\<lambda>c. \<not> is_quote c) w \<Longrightarrow> is_quote q \<Longrightarrow> \<not> suffix (js ''require('') w \<Longrightarrow>
   fix_requires (w @ q # s) = w @ q # fix_requires s"
proof (induction w)
  case Nil
  then show ?case by (simp add: fix_requires.simps(2) match_quote)
next
  case (Cons c w)
  have "match_require ((c # w) @ q # s) = None" by (rule no_match_before [OF Cons.prems])
  moreover have "\<not> suffix (js ''require('') w" using Cons.prems(3) by (meson suffix_ConsI)
  ultimately show ?case using Cons by (simp add: fix_requires.simps(2))
qed

text \<open>No match left.\<close>

fun clean :: "js_string \<Rightarrow> bool" where
  "clean [] = True"
| "clean (c # s) = (match_require (c # s) = None \<and> clean s)"

lemma clean_until_quote:
  "list_all (\<lambda>c. \<not> is_quote c) w \<Longrightarrow> is_quote q \<Longrightarrow> \<not> suffix (js ''require('') w \<Longrightarrow>
   clean (w @ q # s) = clean s"
proof (induction w)
  case Nil
  then show ?case by (simp add: match_quote)
next
  case (Cons c w)
  have "match_require ((c # w) @ q # s) = None" by (rule no_match_before [OF Cons.prems])
  moreover have "\<not> suffix (js ''require('') w" using Cons.prems(3) by (meson suffix_ConsI)
  ultimately show ?case using Cons by simp
qed

lemma fix_clean: "clean s \<Longrightarrow> fix_requires s = s"
  by (induction s) (simp_all add: fix_requires.simps(2))

lemma unquoted_fix: "unquoted (fix_requires s) = unquoted s"
proof (induction s rule: fix_requires.induct)
  case (2 c s)
  show ?case
  proof (cases "match_require (c # s)")
    case None
    then show ?thesis using 2(1) [OF None] by (simp add: fix_requires.simps(2))
  next
    case (Some m)
    then obtain g post where m: "match_require (c # s) = Some (g, post)" by (cases m) auto
    then show ?thesis using match_unquoted [OF m] by (simp add: fix_requires.simps(2))
  qed
qed simp

lemma fix_no_quote: "from_quote s = [] \<Longrightarrow> fix_requires s = s"
proof (induction s)
  case (Cons c s)
  have "match_require (c # s) = None"
  proof (cases "match_require (c # s)")
    case (Some m)
    then obtain q g q2 post where "c # s = js ''require('' @ q # g @ js ''.ohn'' @ q2 # 0x29 # post" "is_quote q"
      by (cases m) (auto simp: match_require_iff simp del: js_Cons)
    then have "q \<in> set (c # s)" by (metis in_set_conv_decomp)
    moreover have "\<forall>x \<in> set (c # s). \<not> is_quote x" using Cons.prems by (simp only: dropWhile_eq_Nil_conv)
    ultimately show ?thesis using \<open>is_quote q\<close> by blast
  qed simp
  then show ?case using Cons by (simp add: fix_requires.simps(2) split: if_splits)
qed simp

lemma ends_not_bracket:
  assumes "last w \<noteq> 0x28" and "w \<noteq> []" shows "\<not> suffix (js ''require('') w"
  using assms by (auto simp: suffix_def)

text \<open>The replacement makes no new match in front of it.\<close>

lemma fix_first: "fix_requires t = 0x29 # post \<Longrightarrow> \<exists>post'. t = 0x29 # post'"
  by (cases t) (auto simp: fix_requires.simps(2) split: option.splits)

lemma split_at_quote:
  assumes "from_quote t \<noteq> []"
  obtains q r where "t = unquoted t @ q # r" "is_quote q"
proof -
  obtain q r where "from_quote t = q # r" using assms by (cases "from_quote t") auto
  then have "t = unquoted t @ q # r" "is_quote q"
    using takeWhile_dropWhile_id [of "\<lambda>c. \<not> is_quote c" t] hd_dropWhile [of "\<lambda>c. \<not> is_quote c" t] by auto
  then show thesis by (rule that)
qed

lemma unquoted_all: "list_all (\<lambda>c. \<not> is_quote c) (unquoted t)"
  by (auto simp: list_all_iff dest: set_takeWhileD)

lemma fix_no_new_match:
  assumes "match_require (c # fix_requires s) = Some (g, post)"
  shows "\<exists>post'. match_require (c # s) = Some (g, post')"
proof -
  let ?equire = "[0x65, 0x71, 0x75, 0x69, 0x72, 0x65, 0x28] :: js_string"
  obtain q q2 where m: "c # fix_requires s = js ''require('' @ q # g @ js ''.ohn'' @ q2 # 0x29 # post"
      and q: "is_quote q" "is_quote q2" and g: "list_all (\<lambda>c. \<not> is_quote c) g"
    using assms by (auto simp: match_require_iff simp del: js_Cons)
  then have c: "c = 0x72" and fs: "fix_requires s = ?equire @ q # g @ js ''.ohn'' @ q2 # 0x29 # post" by simp_all
  have us: "unquoted s = ?equire" using unquoted_fix [of s] q(1) by (simp add: fs)
  have "from_quote s \<noteq> []"
  proof
    assume "from_quote s = []"
    then show False using fix_no_quote [of s] takeWhile_dropWhile_id [of "\<lambda>c. \<not> is_quote c" s] us fs by auto
  qed
  then obtain q' t where s: "s = ?equire @ q' # t" "is_quote q'" using us by (metis split_at_quote)
  have "fix_requires s = ?equire @ q' # fix_requires t"
    unfolding s(1) by (rule fix_until_quote) (use s(2) in \<open>auto simp: suffix_def\<close>)
  then have q': "q' = q" and ft: "fix_requires t = g @ js ''.ohn'' @ q2 # 0x29 # post" using fs by simp_all
  have ohn: "list_all (\<lambda>c. \<not> is_quote c) (g @ js ''.ohn'')" using g by (simp add: is_quote_def)
  have ut: "unquoted t = g @ js ''.ohn''"
    using unquoted_fix [of t] unquoted_until [OF ohn q(2), of "0x29 # post"] by (simp add: ft)
  have "from_quote t \<noteq> []"
  proof
    assume "from_quote t = []"
    then have "t = g @ js ''.ohn''"
      using ut takeWhile_dropWhile_id [of "\<lambda>c. \<not> is_quote c" t] by (metis append_Nil2)
    then show False using ft fix_no_quote [OF \<open>from_quote t = []\<close>] by simp
  qed
  then obtain q3 r where t: "t = (g @ js ''.ohn'') @ q3 # r" "is_quote q3" using ut by (metis split_at_quote)
  have "fix_requires t = (g @ js ''.ohn'') @ q3 # fix_requires r"
    unfolding t(1) by (rule fix_until_quote [OF ohn t(2)]) (intro ends_not_bracket; simp)
  then have "fix_requires r = 0x29 # post" using ft by simp
  then obtain post' where "r = 0x29 # post'" using fix_first by blast
  then have "c # s = js ''require('' @ q # g @ js ''.ohn'' @ q3 # 0x29 # post'"
    using c s(1) t(1) q' by simp
  then show ?thesis using q(1) t(2) g unfolding match_require_iff by blast
qed

lemma clean_fix: "clean (fix_requires s)"
proof (induction s rule: fix_requires.induct)
  case (2 c s)
  show ?case
  proof (cases "match_require (c # s)")
    case None
    then have "match_require (c # fix_requires s) = None"
      using fix_no_new_match [of c s] by (cases "match_require (c # fix_requires s)") auto
    then show ?thesis using 2(1) [OF None] None by (simp add: fix_requires.simps(2))
  next
    case (Some m)
    then obtain g post where m: "match_require (c # s) = Some (g, post)" by (cases m) auto
    have "list_all (\<lambda>c. \<not> is_quote c) g" using m unfolding match_require_iff by blast
    then have g: "list_all (\<lambda>c. \<not> is_quote c) (g @ js ''.js'')" by simp
    have not_suffix: "\<not> suffix (js ''require('') (g @ js ''.js'')" by (intro ends_not_bracket) simp_all
    let ?tail = "(g @ js ''.js'') @ 0x27 # 0x29 # fix_requires post"
    have tail: "clean (0x29 # fix_requires post)"
    proof -
      have "match_require (0x29 # fix_requires post) = None"
        using match_unquoted [of "0x29 # fix_requires post"]
        by (cases "match_require (0x29 # fix_requires post)") auto
      then show ?thesis using 2(2) [OF m refl] by simp
    qed
    have "clean ?tail" using clean_until_quote [OF g _ not_suffix] tail by simp
    moreover have "unquoted ?tail = g @ js ''.js''"
      using unquoted_until [OF g, of "0x27"] by simp
    then have "match_require (js ''require('' @ 0x27 # ?tail) = None"
    proof (cases "match_require (js ''require('' @ 0x27 # ?tail)")
      case (Some m')
      then obtain q g' q2 post' where "js ''require('' @ 0x27 # ?tail = js ''require('' @ q # g' @ js ''.ohn'' @ q2 # 0x29 # post'"
          "is_quote q2" "list_all (\<lambda>c. \<not> is_quote c) g'"
        by (cases m') (auto simp: match_require_iff simp del: js_Cons)
      then have eq: "?tail = (g' @ js ''.ohn'') @ q2 # 0x29 # post'" and "list_all (\<lambda>c. \<not> is_quote c) (g' @ js ''.ohn'')"
        by (simp_all add: is_quote_def)
      then have "unquoted ?tail = g' @ js ''.ohn''" using unquoted_until [of "g' @ js ''.ohn''" q2] \<open>is_quote q2\<close> by metis
      then have "last (g' @ js ''.ohn'') = last (g @ js ''.js'')" using \<open>unquoted ?tail = g @ js ''.js''\<close> by metis
      then show ?thesis by simp
    qed simp
    moreover have "clean ([0x65, 0x71, 0x75, 0x69, 0x72, 0x65, 0x28] @ 0x27 # ?tail) = clean ?tail"
      by (rule clean_until_quote) (auto simp: suffix_def)
    ultimately show ?thesis by (simp add: fix_requires.simps(2) m)
  qed
qed simp

lemma fix_requires_match:
  assumes "is_quote q" and "is_quote q2" and "list_all (\<lambda>c. \<not> is_quote c) g"
  shows "fix_requires (js ''require('' @ q # g @ js ''.ohn'' @ q2 # 0x29 # post) =
    js ''require('' @ 0x27 # g @ js ''.js'' @ 0x27 # 0x29 # fix_requires post"
proof -
  have "match_require (js ''require('' @ q # g @ js ''.ohn'' @ q2 # 0x29 # post) = Some (g, post)"
    using assms unfolding match_require_iff by blast
  then show ?thesis by (simp add: fix_requires.simps(2))
qed

lemma fix_until_match:
  "(\<And>i. i < length w \<Longrightarrow> match_require (drop i (w @ s)) = None) \<Longrightarrow> fix_requires (w @ s) = w @ fix_requires s"
proof (induction w)
  case (Cons c w)
  have "match_require (c # w @ s) = None" using Cons.prems [of 0] by simp
  moreover have "match_require (drop i (w @ s)) = None" if "i < length w" for i
    using Cons.prems [of "Suc i"] that by simp
  ultimately show ?case using Cons.IH by (simp add: fix_requires.simps(2))
qed simp

section \<open>Properties\<close>


text \<open>The first match is replaced by its group. When no match starts in \<open>w\<close>, the text
  \<open>w require("g.ohn") post\<close> with either quote becomes \<open>w require('g.js')\<close> followed by the
  rewritten \<open>post\<close>; the text before the match is kept to the letter.\<close>
theorem fix_requires_first_match:
  assumes "\<forall>i < length w. match_require (drop i (w @ js ''require('' @ q # g @ js ''.ohn'' @ q2 # 0x29 # post)) = None"
    and "is_quote q" and "is_quote q2" and "list_all (\<lambda>c. \<not> is_quote c) g"
  shows "fix_requires (w @ js ''require('' @ q # g @ js ''.ohn'' @ q2 # 0x29 # post) =
    w @ js ''require('' @ 0x27 # g @ js ''.js'' @ 0x27 # 0x29 # fix_requires post"
  using fix_until_match [of w "js ''require('' @ q # g @ js ''.ohn'' @ q2 # 0x29 # post"] assms(1)
    fix_requires_match [OF assms(2-4)] by simp

theorem fix_requires_first_match_sample:
  "fix_requires (js ''x='' @ js ''require('' @ 0x22 # js ''a'' @ js ''.ohn'' @ 0x22 # 0x29 # js '';'') =
     js ''x='' @ js ''require('' @ 0x27 # js ''a'' @ js ''.js'' @ 0x27 # 0x29 # js '';''"
proof -
  have none: "match_require (c # s) = None" if "c \<noteq> 0x72" for c s
    using that match_unquoted [of "c # s"] by (cases "match_require (c # s)") (auto split: if_splits)
  have "\<forall>i < length (js ''x=''). match_require (drop i (js ''x='' @ js ''require('' @ 0x22 # js ''a'' @ js ''.ohn'' @ 0x22 # 0x29 # js '';'')) = None"
    by (auto simp: less_Suc_eq none)
  from fix_requires_first_match [OF this] show ?thesis
    by (simp add: is_quote_def fix_requires.simps(2) none)
qed

end
