(* ===== verification/Bootstrap.thy ===== *)
theory Bootstrap
  imports Js_Text Require_Paths "HOL-Library.AList" "HOL-Library.List_Lexorder" "HOL-Library.Char_ord"
begin

text \<open>
  The self-hosting protocol of \<open>compiler/scripts/bootstrap.js\<close>. Stage 0 compiles the five
  sources with Babel into \<open>stage1\<close>; then the compiler found in \<open>stage1\<close> compiles the same
  sources into \<open>stage2\<close> and the one found in \<open>stage2\<close> compiles them into \<open>stage3\<close>; the
  directories \<open>stage2\<close> and \<open>stage3\<close> are compared by hash. A directory is the list of its files
  with their bytes, in the order in which they were written.

  Babel, the module loader and the loaded compilers are the record \<open>toolchain\<close>, a parameter:
  \<open>'m\<close> is the state of the loaded modules (parser tables included), and \<open>generate_code\<close>
  returns the bytes it leaves in the output file even when it throws. The hash is the
  parameter \<open>H\<close>. That they are functions says that they depend on nothing else.
\<close>

section \<open>Files and tools\<close>

type_synonym dir = "(string \<times> byte list) list"

datatype failure = FileNotFound string | Thrown js_error

record 'm toolchain =
  babel :: "string \<Rightarrow> js_string \<Rightarrow> failure + js_string"
  no_modules :: 'm
  require_module :: "dir \<Rightarrow> string \<Rightarrow> 'm \<Rightarrow> failure + 'm"
  parse_source :: "'m \<Rightarrow> byte list \<Rightarrow> failure + nat \<times> 'm"
  generate_code :: "'m \<Rightarrow> nat \<Rightarrow> byte list \<times> (failure + 'm)"

definition SOURCE_FILES :: "string list" where
  "SOURCE_FILES =
     [''frontend/lexer.ohn'', ''frontend/parser.ohn'', ''core/arena.ohn'',
      ''codegen/emitter.ohn'', ''codegen/generator.ohn'']"

text \<open>\<open>rel.replace(/\.ohn$/, '.js')\<close>.\<close>

definition js_name :: "string \<Rightarrow> string" where
  "js_name rel = (if suffix ''.ohn'' rel then take (length rel - 4) rel @ ''.js'' else rel)"

definition cleanDir :: "dir option \<Rightarrow> dir" where
  "cleanDir d = []"

text \<open>\<open>readFileSync(f, 'utf-8')\<close>, the replacement, and \<open>writeFileSync\<close>.\<close>

definition rewrite_file :: "byte list \<Rightarrow> byte list" where
  "rewrite_file bs = utf8_encode (fix_requires (utf8_decode bs))"

section \<open>The stages\<close>

fun stage0_files :: "'m toolchain \<Rightarrow> dir \<Rightarrow> string list \<Rightarrow> dir \<Rightarrow> dir \<times> failure option" where
  "stage0_files tc src [] d = (d, None)"
| "stage0_files tc src (rel # rels) d =
     (case map_of src rel of
        None \<Rightarrow> (d, Some (FileNotFound rel))
      | Some raw \<Rightarrow>
          (case babel tc rel (utf8_decode raw) of
             Inl e \<Rightarrow> (d, Some e)
           | Inr code \<Rightarrow>
               stage0_files tc src rels (AList.update (js_name rel) (utf8_encode (fix_requires code)) d)))"

definition stage0 :: "'m toolchain \<Rightarrow> dir \<Rightarrow> dir option \<Rightarrow> dir \<times> failure option" where
  "stage0 tc src out = stage0_files tc src SOURCE_FILES (cleanDir out)"

fun stage_files :: "'m toolchain \<Rightarrow> dir \<Rightarrow> string list \<Rightarrow> 'm \<Rightarrow> dir \<Rightarrow> dir \<times> failure option" where
  "stage_files tc src [] m d = (d, None)"
| "stage_files tc src (rel # rels) m d =
     (case map_of src rel of
        None \<Rightarrow> (d, Some (FileNotFound rel))
      | Some raw \<Rightarrow>
          (case parse_source tc m raw of
             Inl e \<Rightarrow> (d, Some e)
           | Inr (rootIndex, m1) \<Rightarrow>
               (case generate_code tc m1 rootIndex of
                  (bs, Inl e) \<Rightarrow> (AList.update (js_name rel) bs d, Some e)
                | (bs, Inr m2) \<Rightarrow>
                    stage_files tc src rels m2 (AList.update (js_name rel) (rewrite_file bs) d))))"

definition load_stage :: "'m toolchain \<Rightarrow> dir \<Rightarrow> failure + 'm" where
  "load_stage tc stage_dir =
     bind_res (require_module tc stage_dir ''frontend/parser.js'' (no_modules tc))
       (require_module tc stage_dir ''codegen/generator.js'')"

definition stageN :: "'m toolchain \<Rightarrow> dir \<Rightarrow> dir \<Rightarrow> dir option \<Rightarrow> dir \<times> failure option" where
  "stageN tc src stage_dir out =
     (case load_stage tc stage_dir of
        Inl e \<Rightarrow> (cleanDir out, Some e)
      | Inr m \<Rightarrow> stage_files tc src SOURCE_FILES m (cleanDir out))"

section \<open>Verification\<close>

definition hashDirectory :: "(byte list \<Rightarrow> 'h) \<Rightarrow> dir \<Rightarrow> (string \<times> 'h) list" where
  "hashDirectory H d = map (\<lambda>f. (f, H (the (map_of d f)))) (sort (map fst d))"

fun compare_files :: "(string \<rightharpoonup> 'h) \<Rightarrow> (string \<rightharpoonup> 'h) \<Rightarrow> string list \<Rightarrow> bool \<Rightarrow> bool" where
  "compare_files hashes1 hashes2 [] allMatch = allMatch"
| "compare_files hashes1 hashes2 (file # files) allMatch =
     compare_files hashes1 hashes2 files (if hashes1 file \<noteq> hashes2 file then False else allMatch)"

definition verify :: "(byte list \<Rightarrow> 'h) \<Rightarrow> dir \<Rightarrow> dir \<Rightarrow> bool" where
  "verify H dir1 dir2 =
     (let hashes1 = hashDirectory H dir1; hashes2 = hashDirectory H dir2;
          files1 = sort (map fst hashes1); files2 = sort (map fst hashes2) in
      if length files1 \<noteq> length files2 then False
      else compare_files (map_of hashes1) (map_of hashes2) files1 True)"

section \<open>The protocol\<close>

record stages =
  stage1 :: "dir option"
  stage2 :: "dir option"
  stage3 :: "dir option"

datatype exit = Exit nat | Uncaught failure

definition main :: "(byte list \<Rightarrow> 'h) \<Rightarrow> 'm toolchain \<Rightarrow> dir \<Rightarrow> stages \<Rightarrow> stages \<times> exit" where
  "main H tc src st =
     (case stage0 tc src (stage1 st) of
        (d1, Some e) \<Rightarrow> (st\<lparr>stage1 := Some d1\<rparr>, Uncaught e)
      | (d1, None) \<Rightarrow>
          (case stageN tc src d1 (stage2 st) of
             (d2, Some e) \<Rightarrow> (st\<lparr>stage1 := Some d1, stage2 := Some d2\<rparr>, Uncaught e)
           | (d2, None) \<Rightarrow>
               (case stageN tc src d2 (stage3 st) of
                  (d3, Some e) \<Rightarrow> (\<lparr>stage1 = Some d1, stage2 = Some d2, stage3 = Some d3\<rparr>, Uncaught e)
                | (d3, None) \<Rightarrow>
                    (\<lparr>stage1 = Some d1, stage2 = Some d2, stage3 = Some d3\<rparr>,
                     Exit (if verify H d2 d3 then 0 else 1)))))"

section \<open>What a stage writes\<close>

definition stage_outputs :: "string list" where
  "stage_outputs = map js_name SOURCE_FILES"

lemma stage_outputs_list:
  "stage_outputs = [''frontend/lexer.js'', ''frontend/parser.js'', ''core/arena.js'',
     ''codegen/emitter.js'', ''codegen/generator.js'']"
  by (simp add: stage_outputs_def SOURCE_FILES_def js_name_def suffix_def)

text \<open>A file of generated code whose \<open>require\<close> paths have been rewritten.\<close>

definition rewritten :: "byte list \<Rightarrow> bool" where
  "rewritten bs \<longleftrightarrow> (\<exists>code. bs = utf8_encode code \<and> clean code)"

definition complete_stage :: "dir \<Rightarrow> bool" where
  "complete_stage d \<longleftrightarrow> map fst d = stage_outputs \<and> (\<forall>(f, bs) \<in> set d. rewritten bs)"

lemma rewritten_rewrite [simp]: "rewritten (rewrite_file bs)" "rewritten (utf8_encode (fix_requires code))"
  unfolding rewritten_def rewrite_file_def using clean_fix by blast+

lemma update_new: "k \<notin> fst ` set d \<Longrightarrow> AList.update k v d = d @ [(k, v)]"
  by (induction d) auto

text \<open>
  The files appear in the order of the sources; a stage that fails has written a prefix of
  them, and all but possibly the last file are rewritten.
\<close>

lemma stage_files_outputs:
  assumes "stage_files tc src rels m d = (d', r)"
    and "distinct (map fst d @ map js_name rels)" and "\<forall>(f, bs) \<in> set d. rewritten bs"
  shows "(\<exists>k \<le> length rels. map fst d' = map fst d @ map js_name (take k rels)) \<and>
    (r = None \<longrightarrow> map fst d' = map fst d @ map js_name rels \<and> (\<forall>(f, bs) \<in> set d'. rewritten bs))"
  using assms
proof (induction rels arbitrary: m d)
  case (Cons rel rels)
  let ?n = "js_name rel"
  have new: "AList.update ?n bs d = d @ [(?n, bs)]" for bs
    using Cons.prems(2) by (intro update_new) auto
  show ?case
  proof (cases "map_of src rel")
    case None
    then show ?thesis using Cons.prems by (auto intro: exI [of _ 0])
  next
    case (Some raw)
    show ?thesis
    proof (cases "parse_source tc m raw")
      case (Inl e)
      then show ?thesis using Cons.prems Some by (auto intro: exI [of _ 0])
    next
      case (Inr p)
      obtain rootIndex m1 where p: "parse_source tc m raw = Inr (rootIndex, m1)" using Inr by (cases p) auto
      obtain bs g where g: "generate_code tc m1 rootIndex = (bs, g)" by (cases "generate_code tc m1 rootIndex")
      show ?thesis
      proof (cases g)
        case (Inl e)
        then have "d' = d @ [(?n, bs)]" "r \<noteq> None" using Cons.prems(1) Some p g new by auto
        then show ?thesis by (auto intro: exI [of _ 1])
      next
        case (Inr m2)
        let ?d = "d @ [(?n, rewrite_file bs)]"
        have run: "stage_files tc src rels m2 ?d = (d', r)" using Cons.prems(1) Some p g Inr new by simp
        have "distinct (map fst ?d @ map js_name rels)" "\<forall>(f, bs) \<in> set ?d. rewritten bs"
          using Cons.prems(2,3) by auto
        from Cons.IH [OF run this] obtain k where "k \<le> length rels"
            "map fst d' = map fst ?d @ map js_name (take k rels)"
            "r = None \<longrightarrow> map fst d' = map fst ?d @ map js_name rels \<and> (\<forall>(f, bs) \<in> set d'. rewritten bs)"
          by blast
        then show ?thesis by (intro conjI exI [of _ "Suc k"]) auto
      qed
    qed
  qed
qed (auto intro: exI [of _ 0])

lemma stageN_outputs:
  assumes "stageN tc src sd out = (d, r)"
  shows "(\<exists>k. map fst d = take k stage_outputs) \<and> (r = None \<longrightarrow> complete_stage d)"
proof (cases "load_stage tc sd")
  case (Inl e)
  then show ?thesis using assms by (auto simp: stageN_def cleanDir_def intro: exI [of _ 0])
next
  case (Inr m)
  have "distinct (map fst [] @ map js_name SOURCE_FILES)"
    using stage_outputs_list by (simp add: stage_outputs_def)
  from stage_files_outputs [OF _ this, of tc src m d r] show ?thesis
    using assms Inr by (auto simp: stageN_def cleanDir_def complete_stage_def stage_outputs_def take_map)
qed

section \<open>What the comparison decides\<close>

lemma compare_files_iff:
  "compare_files h1 h2 files b \<longleftrightarrow> b \<and> (\<forall>f \<in> set files. h1 f = h2 f)"
  by (induction files arbitrary: b) auto

lemma map_of_hashDirectory: "map_of (hashDirectory H d) = map_option H \<circ> map_of d"
proof
  fix f
  have "map_of (map (\<lambda>f. (f, g f)) fs) f = (if f \<in> set fs then Some (g f) else None)" for g :: "string \<Rightarrow> 'a" and fs
    by (induction fs) auto
  then show "map_of (hashDirectory H d) f = (map_option H \<circ> map_of d) f"
    by (cases "map_of d f") (auto simp: hashDirectory_def map_of_eq_None_iff weak_map_of_SomeI dest: map_of_SomeD
        intro!: image_eqI [where x = "(f, the (map_of d f))"])
qed

lemma names_hashDirectory: "sort (map fst (hashDirectory H d)) = sort (map fst d)"
  by (simp add: hashDirectory_def comp_def sorted_sort_id)

lemma length_hashDirectory [simp]: "length (hashDirectory H d) = length d"
  by (simp add: hashDirectory_def)

lemma verify_hashes:
  assumes "distinct (map fst d1)" and "distinct (map fst d2)"
  shows "verify H d1 d2 \<longleftrightarrow> map_option H \<circ> map_of d1 = map_option H \<circ> map_of d2"
proof
  assume v: "verify H d1 d2"
  then have len: "length (map fst d1) = length (map fst d2)"
    and same: "\<forall>f \<in> set (map fst d1). map_option H (map_of d1 f) = map_option H (map_of d2 f)"
    by (auto simp: verify_def Let_def names_hashDirectory map_of_hashDirectory compare_files_iff split: if_splits)
  have sub: "set (map fst d1) \<subseteq> set (map fst d2)"
  proof
    fix f assume f: "f \<in> set (map fst d1)"
    then have "map_of d1 f \<noteq> None" by (simp add: map_of_eq_None_iff)
    then have "map_of d2 f \<noteq> None" using same f by (metis option.map_disc_iff)
    then show "f \<in> set (map fst d2)" by (simp add: map_of_eq_None_iff)
  qed
  then have "set (map fst d1) = set (map fst d2)"
    using len by (intro card_subset_eq) (simp_all only: distinct_card [OF assms(1)] distinct_card [OF assms(2)] List.finite_set)
  then have "map_of d2 f = None" if "f \<notin> set (map fst d1)" for f
    using that by (simp add: map_of_eq_None_iff)
  then show "map_option H \<circ> map_of d1 = map_option H \<circ> map_of d2"
    using same by (intro ext) (metis comp_apply map_of_eq_None_iff set_map)
next
  assume eq: "map_option H \<circ> map_of d1 = map_option H \<circ> map_of d2"
  have "set (map fst d1) = set (map fst d2)"
  proof -
    have "map_of d1 f = None \<longleftrightarrow> map_of d2 f = None" for f
      using fun_cong [OF eq, of f] by (cases "map_of d1 f"; cases "map_of d2 f") auto
    then show ?thesis by (auto simp: map_of_eq_None_iff set_map)
  qed
  then have "length (map fst d1) = length (map fst d2)" using assms by (metis distinct_card)
  then show "verify H d1 d2"
    using fun_cong [OF eq]
    by (auto simp: verify_def Let_def names_hashDirectory map_of_hashDirectory compare_files_iff)
qed

text \<open>Without colliding files, equal hashes mean equal files.\<close>

definition collision_free :: "(byte list \<Rightarrow> 'h) \<Rightarrow> dir \<Rightarrow> dir \<Rightarrow> bool" where
  "collision_free H d1 d2 \<longleftrightarrow> inj_on H (snd ` (set d1 \<union> set d2))"

lemma same_hashes_same_files:
  assumes "collision_free H d1 d2" and "map_option H \<circ> map_of d1 = map_option H \<circ> map_of d2"
  shows "map_of d1 = map_of d2"
proof
  fix f
  have h: "map_option H (map_of d1 f) = map_option H (map_of d2 f)" using fun_cong [OF assms(2), of f] by simp
  show "map_of d1 f = map_of d2 f"
  proof (cases "map_of d1 f")
    case None
    then show ?thesis using h by auto
  next
    case (Some x)
    then obtain y where y: "map_of d2 f = Some y" "H x = H y" using h by (cases "map_of d2 f") auto
    have "x \<in> snd ` (set d1 \<union> set d2)" "y \<in> snd ` (set d1 \<union> set d2)"
      using map_of_SomeD [OF Some] map_of_SomeD [OF y(1)] by force+
    then have "x = y" using assms(1) y(2) by (auto simp: collision_free_def dest: inj_onD)
    then show ?thesis using Some y by simp
  qed
qed

lemma same_map_same_list:
  "map fst d1 = map fst d2 \<Longrightarrow> distinct (map fst d1) \<Longrightarrow> map_of d1 = map_of d2 \<Longrightarrow> d1 = d2"
proof (induction d1 arbitrary: d2)
  case (Cons p d1)
  obtain k v where p: "p = (k, v)" by (cases p)
  obtain v' d2' where d2: "d2 = (k, v') # d2'" using Cons.prems(1) p by (cases d2) auto
  have "v = v'" using fun_cong [OF Cons.prems(3), of k] p d2 by simp
  moreover have "map_of d1 f = map_of d2' f" for f
  proof (cases "f = k")
    case True
    have "k \<notin> fst ` set d1" using Cons.prems(2) p by simp
    moreover have "k \<notin> fst ` set d2'"
      using Cons.prems(1,2) p d2 by (metis distinct.simps(2) fst_conv list.inject list.set_map list.simps(9))
    ultimately show ?thesis using True by (metis map_of_eq_None_iff)
  next
    case False
    then show ?thesis using fun_cong [OF Cons.prems(3), of f] p d2 by simp
  qed
  ultimately show ?case using Cons.IH [of d2'] Cons.prems(1,2) p d2 by auto
qed simp

section \<open>Compiling with the compiler just compiled\<close>

primrec iterate :: "('d \<Rightarrow> 'd \<times> 'e option) \<Rightarrow> nat \<Rightarrow> 'd \<Rightarrow> 'd \<times> 'e option" where
  "iterate stage 0 d = (d, None)"
| "iterate stage (Suc n) d = (case iterate stage n d of (d', None) \<Rightarrow> stage d' | (d', Some e) \<Rightarrow> (d', Some e))"

text \<open>
  The contract between a stage and the check: a completed stage is well-formed, and on
  well-formed directories the check compares a view of them. Then the check accepts two
  consecutive stages exactly when their views agree, and an accepted stage whose view
  determines it is a fixed point: every later stage reproduces it.
\<close>

locale stage_check =
  fixes stage :: "'d \<Rightarrow> 'd \<times> 'e option" and same :: "'d \<Rightarrow> 'd \<Rightarrow> bool"
    and wf :: "'d \<Rightarrow> bool" and view :: "'d \<Rightarrow> 'v"
  assumes stage_wf: "stage d = (d', None) \<Longrightarrow> wf d'"
    and same_view: "wf d \<Longrightarrow> wf d' \<Longrightarrow> same d d' \<longleftrightarrow> view d = view d'"
begin

lemma accepts_iff:
  "stage d1 = (d2, None) \<Longrightarrow> stage d2 = (d3, None) \<Longrightarrow> same d2 d3 \<longleftrightarrow> view d2 = view d3"
  using stage_wf same_view by blast

lemma fixpoint_iterates: "stage d = (d, None) \<Longrightarrow> iterate stage n d = (d, None)"
  by (induction n) simp_all

lemma accepted_fixpoint:
  assumes "stage d1 = (d2, None)" and "stage d2 = (d3, None)" and "same d2 d3"
    and "wf d2 \<Longrightarrow> wf d3 \<Longrightarrow> view d2 = view d3 \<Longrightarrow> d2 = d3"
  shows "d3 = d2 \<and> iterate stage n d2 = (d2, None)"
proof -
  have "d2 = d3" using assms(4) accepts_iff [OF assms(1,2)] assms(3) stage_wf assms(1,2) by blast
  then show ?thesis using fixpoint_iterates assms(2) by blast
qed

end

definition hashes :: "(byte list \<Rightarrow> 'h) \<Rightarrow> dir \<Rightarrow> string \<rightharpoonup> 'h" where
  "hashes H d = map_option H \<circ> map_of d"

abbreviation self_compile :: "'m toolchain \<Rightarrow> dir \<Rightarrow> dir \<Rightarrow> dir \<times> failure option" where
  "self_compile tc src d \<equiv> stageN tc src d None"

lemma stageN_out: "stageN tc src sd out = self_compile tc src sd"
  unfolding stageN_def cleanDir_def ..

lemma complete_distinct: "complete_stage d \<Longrightarrow> distinct (map fst d)"
  by (simp add: complete_stage_def stage_outputs_list)

interpretation bootstrap: stage_check "self_compile tc src" "verify H" complete_stage "hashes H" for tc src H
proof
  show "complete_stage d'" if "self_compile tc src d = (d', None)" for d d'
    using stageN_outputs [OF that] by simp
  show "verify H d d' \<longleftrightarrow> hashes H d = hashes H d'" if "complete_stage d" "complete_stage d'" for d d'
    using verify_hashes [OF complete_distinct complete_distinct, OF that] by (simp add: hashes_def)
qed

lemma collision_free_stages:
  "collision_free H d d' \<Longrightarrow> complete_stage d \<Longrightarrow> complete_stage d' \<Longrightarrow> hashes H d = hashes H d' \<Longrightarrow> d = d'"
  using same_map_same_list [of d d'] same_hashes_same_files [of H d d'] complete_distinct [of d]
  by (simp add: complete_stage_def hashes_def)

lemma main_success:
  "main H tc src st = (st', Exit 0) \<longleftrightarrow>
     (\<exists>d1 d2 d3. stage0 tc src (stage1 st) = (d1, None) \<and> self_compile tc src d1 = (d2, None) \<and>
        self_compile tc src d2 = (d3, None) \<and> verify H d2 d3 \<and>
        st' = \<lparr>stage1 = Some d1, stage2 = Some d2, stage3 = Some d3\<rparr>)"
proof -
  obtain d1 r1 where 1: "stage0 tc src (stage1 st) = (d1, r1)" by fastforce
  obtain d2 r2 where 2: "self_compile tc src d1 = (d2, r2)" by fastforce
  obtain d3 r3 where 3: "self_compile tc src d2 = (d3, r3)" by fastforce
  show ?thesis
    by (cases r1; cases r2; cases r3) (auto simp: main_def stageN_out [of _ _ _ "Some _"] stageN_out [of _ _ _ "stage2 st"] stageN_out [of _ _ _ "stage3 st"] 1 2 3)
qed

section \<open>Properties\<close>

text \<open>C22. The check compares the files. On directories without repeated names in which no two
  different files have the same hash, \<open>verify\<close> returns true exactly when both directories hold
  the same files with the same bytes.\<close>
theorem verify_compares_files:
  assumes "distinct (map fst d1)" and "distinct (map fst d2)" and "collision_free H d1 d2"
  shows "verify H d1 d2 \<longleftrightarrow> map_of d1 = map_of d2"
  using verify_hashes [OF assms(1,2)] same_hashes_same_files [OF assms(3)] by metis

theorem verify_compares_files_sample:
  "verify (\<lambda>bs. bs) [(''a'', [1]), (''b'', [2])] [(''b'', [2]), (''a'', [1])] \<and>
   \<not> verify (\<lambda>bs. bs) [(''a'', [1])] [(''b'', [1])]"
proof -
  have "verify (\<lambda>bs. bs) [(''a'', [1]), (''b'', [2])] [(''b'', [2]), (''a'', [1])]"
    by (subst verify_compares_files) (auto simp: collision_free_def inj_on_def)
  moreover have "\<not> verify (\<lambda>bs. bs) [(''a'', [1])] [(''b'', [1])]"
    by (subst verify_compares_files) (auto simp: collision_free_def inj_on_def dest: fun_cong [of _ _ "''a''"])
  ultimately show ?thesis by blast
qed

text \<open>C23. What a stage leaves behind. A stage writes its outputs in the order of the sources
  and stops at the first failure, so whatever the compiler does the directory holds a prefix of
  the five names; when the stage completes it holds all five, each file UTF-8 text in which no
  \<open>require\<close> of an \<open>.ohn\<close> path is left.\<close>
theorem stage_leaves_outputs:
  assumes "stageN tc src stage_dir out = (d, r)"
  shows "(\<exists>k. map fst d = take k stage_outputs) \<and> (r = None \<longrightarrow> complete_stage d)"
  by (rule stageN_outputs [OF assms])

text \<open>C4. A verified bootstrap is a fixed point. When the protocol exits with 0 and no two
  different files of \<open>stage2\<close> and \<open>stage3\<close> have the same hash, both directories are equal, and
  any number of further self-compilations from them succeeds and reproduces them.\<close>
theorem verified_bootstrap_fixpoint:
  assumes "main H tc src st = (st', Exit 0)"
    and "\<And>d2 d3. stage2 st' = Some d2 \<Longrightarrow> stage3 st' = Some d3 \<Longrightarrow> collision_free H d2 d3"
  shows "\<exists>d. stage2 st' = Some d \<and> stage3 st' = Some d \<and> complete_stage d \<and>
    (\<forall>n. iterate (self_compile tc src) n d = (d, None))"
proof -
  from assms(1) obtain d1 d2 d3 where run: "self_compile tc src d1 = (d2, None)" "self_compile tc src d2 = (d3, None)"
      "verify H d2 d3" and st: "stage2 st' = Some d2" "stage3 st' = Some d3"
    unfolding main_success by auto
  have "d3 = d2 \<and> iterate (self_compile tc src) n d2 = (d2, None)" for n
    by (rule bootstrap.accepted_fixpoint [OF run]) (rule collision_free_stages [OF assms(2) [OF st]])
  moreover have "complete_stage d2" by (rule bootstrap.stage_wf [OF run(1)])
  ultimately show ?thesis using st by blast
qed

text \<open>
  A concrete toolchain: its modules keep the parsed source and generate it unchanged, and a
  stage can be loaded when the requested file is there.
\<close>

definition copying :: "byte list toolchain" where
  "copying = \<lparr>babel = (\<lambda>f code. Inr code), no_modules = [],
     require_module = (\<lambda>d f m. if map_of d f = None then Inl (FileNotFound f) else Inr m),
     parse_source = (\<lambda>m bs. Inr (0, bs)), generate_code = (\<lambda>m r. (m, Inr m))\<rparr>"

definition sample_ohn :: "byte list" where
  "sample_ohn = ascii ''require('' @ [0x27] @ ascii ''a.ohn'' @ [0x27, 0x29]"

definition sample_js :: "byte list" where
  "sample_js = ascii ''require('' @ [0x27] @ ascii ''a.js'' @ [0x27, 0x29]"

definition sample_sources :: dir where
  "sample_sources = [(''frontend/lexer.ohn'', []), (''frontend/parser.ohn'', sample_ohn), (''core/arena.ohn'', []),
     (''codegen/emitter.ohn'', []), (''codegen/generator.ohn'', [])]"

definition sample_stage :: dir where
  "sample_stage = [(''frontend/lexer.js'', []), (''frontend/parser.js'', sample_js), (''core/arena.js'', []),
     (''codegen/emitter.js'', []), (''codegen/generator.js'', [])]"

lemma sample_rewrite: "utf8_encode (fix_requires (utf8_decode sample_ohn)) = sample_js"
proof -
  have "utf8_decode sample_ohn = js ''require('' @ [0x27] @ js ''a.ohn'' @ [0x27, 0x29]"
    by (simp add: sample_ohn_def utf8_decode_def payload6_def units_of_scalar_def)
  moreover have "fix_requires (js ''require('' @ [0x27] @ js ''a.ohn'' @ [0x27, 0x29]) = js ''require('' @ [0x27] @ js ''a.js'' @ [0x27, 0x29]"
    using fix_requires_match [of "0x27" "0x27" "js ''a''" "[]"] by (simp add: is_quote_def)
  ultimately show ?thesis by (simp add: utf8_encode_ascii sample_js_def)
qed

lemma rewrite_empty: "utf8_encode (fix_requires (utf8_decode [])) = []"
  by (simp add: utf8_decode_def utf8_encode_def)

lemmas sample_run = copying_def sample_sources_def sample_stage_def SOURCE_FILES_def js_name_def suffix_def cleanDir_def
  rewrite_file_def sample_rewrite rewrite_empty

lemma sample_stage0: "stage0 copying sample_sources out = (sample_stage, None)"
  by (simp add: stage0_def sample_run)

lemma sample_stageN: "self_compile copying sample_sources sample_stage = (sample_stage, None)"
  by (simp add: stageN_def load_stage_def sample_run)

lemma sample_main:
  "main (\<lambda>bs. bs) copying sample_sources st =
     (\<lparr>stage1 = Some sample_stage, stage2 = Some sample_stage, stage3 = Some sample_stage\<rparr>, Exit 0)"
proof -
  have "verify (\<lambda>bs. bs) sample_stage sample_stage"
    using bootstrap.accepts_iff [OF sample_stageN sample_stageN] by simp
  then show ?thesis unfolding main_success using sample_stage0 sample_stageN by blast
qed

theorem stage_leaves_outputs_sample:
  "complete_stage sample_stage \<and> (\<exists>k. map fst sample_stage = take k stage_outputs)"
  using stage_leaves_outputs [OF sample_stageN] by simp

theorem verified_bootstrap_fixpoint_sample:
  "\<forall>n. iterate (self_compile copying sample_sources) n sample_stage = (sample_stage, None)"
proof -
  have "collision_free (\<lambda>bs. bs) d d'" for d d' by (simp add: collision_free_def)
  from verified_bootstrap_fixpoint [OF sample_main [of undefined] this] show ?thesis by simp
qed

end
