(* ===== verification/Compile_Cli.thy ===== *)
theory Compile_Cli
  imports Bootstrap
begin

text \<open>
  The two command-line compilers: \<open>compiler/scripts/compile.js\<close>, which drives the self-hosted
  compiler that \<open>bootstrap.js\<close> leaves in \<open>.bootstrap/stage2\<close> (or the sources, when that is
  missing), and \<open>core/bin/ohnc.js\<close>, which drives Babel. The world is the stage directories and
  the files by path; a path names a readable file or nothing, and every output path can be
  written. \<open>llc\<close> says whether \<open>llc --version\<close> succeeds, and \<open>src\<close> is the compiler's source
  directory, the files that \<open>toolchain\<close> loads modules from.
\<close>

record world = stages +
  files :: "string \<rightharpoonup> byte list"

section \<open>Arguments\<close>

record options =
  target :: string
  inputFile :: "string option"
  outputFile :: "string option"

datatype cli_error = BadTarget | Usage | InputNotFound string | NoLlc | NotLoaded

definition default_options :: options where
  "default_options = \<lparr>target = ''js'', inputFile = None, outputFile = None\<rparr>"

text \<open>\<open>args[++i]\<close> past the end is undefined: no target is accepted, and \<open>outputFile\<close> is reset.\<close>

fun parse_args :: "string list \<Rightarrow> options \<Rightarrow> cli_error + options" where
  "parse_args [] opt = Inr opt"
| "parse_args (arg # args) opt =
     (if arg = ''--target'' then
        (case args of
           [] \<Rightarrow> Inl BadTarget
         | t # args' \<Rightarrow>
             if t \<noteq> ''js'' \<and> t \<noteq> ''llvm'' then Inl BadTarget
             else parse_args args' (opt\<lparr>target := t\<rparr>))
      else if arg = ''-o'' then
        (case args of
           [] \<Rightarrow> Inr (opt\<lparr>outputFile := None\<rparr>)
         | f # args' \<Rightarrow> parse_args args' (opt\<lparr>outputFile := Some f\<rparr>))
      else if \<not> prefix ''-'' arg then parse_args args (opt\<lparr>inputFile := Some arg\<rparr>)
      else parse_args args opt)"

text \<open>An undefined or empty string is falsy.\<close>

definition given :: "string option \<Rightarrow> string option" where
  "given s = (if s = Some [] then None else s)"

definition basename :: "string \<Rightarrow> string \<Rightarrow> string" where
  "basename path ext =
     (let base = rev (takeWhile (\<lambda>c. c \<noteq> CHR ''/'') (rev path)) in
      if path = ext then []
      else if suffix ext base \<and> base \<noteq> ext then take (length base - length ext) base
      else base)"

definition output_name :: "options \<Rightarrow> string \<Rightarrow> string" where
  "output_name opt inp =
     (case given (outputFile opt) of
        Some out \<Rightarrow> out
      | None \<Rightarrow> basename inp ''.ohn'' @ (if target opt = ''llvm'' then ''.ll'' else ''.js''))"

section \<open>Loading the compiler\<close>

definition tryLoadSelfHosted :: "'m toolchain \<Rightarrow> dir option \<Rightarrow> dir \<Rightarrow> string \<Rightarrow> failure + 'm option" where
  "tryLoadSelfHosted tc stage2_dir src tgt =
     (case stage2_dir of
        None \<Rightarrow> Inr None
      | Some d \<Rightarrow>
          if map_of d ''frontend/parser.js'' = None then Inr None
          else
            bind_res (require_module tc d ''frontend/parser.js'' (no_modules tc)) (\<lambda>m.
            bind_res (if tgt = ''llvm'' then require_module tc src ''codegen/generator-llvm.ohn'' m
                      else require_module tc d ''codegen/generator.js'' m) (\<lambda>m'. Inr (Some m'))))"

definition tryLoadFromSource :: "'m toolchain \<Rightarrow> dir \<Rightarrow> string \<Rightarrow> failure + 'm option" where
  "tryLoadFromSource tc src tgt =
     bind_res (require_module tc src ''frontend/parser.ohn'' (no_modules tc)) (\<lambda>m.
     bind_res (if tgt = ''llvm'' then require_module tc src ''codegen/generator-llvm.ohn'' m
               else require_module tc src ''codegen/generator.ohn'' m) (\<lambda>m'. Inr (Some m')))"

text \<open>\<open>tryLoadSelfHosted() || tryLoadFromSource()\<close>.\<close>

definition load_compiler :: "'m toolchain \<Rightarrow> dir option \<Rightarrow> dir \<Rightarrow> string \<Rightarrow> failure + 'm option" where
  "load_compiler tc stage2_dir src tgt =
     bind_res (tryLoadSelfHosted tc stage2_dir src tgt) (\<lambda>loaded.
       case loaded of Some m \<Rightarrow> Inr (Some m) | None \<Rightarrow> tryLoadFromSource tc src tgt)"

section \<open>Compiling\<close>

datatype cli_exit = Done | Message cli_error | Crashed failure

definition run_compiler :: "'m toolchain \<Rightarrow> 'm \<Rightarrow> string \<Rightarrow> string \<Rightarrow> byte list \<Rightarrow> world \<Rightarrow> world \<times> cli_exit" where
  "run_compiler tc m tgt out raw w =
     (case parse_source tc m raw of
        Inl e \<Rightarrow> (w, Crashed e)
      | Inr (rootIndex, m1) \<Rightarrow>
          (case generate_code tc m1 rootIndex of
             (bs, Inl e) \<Rightarrow> (w\<lparr>files := (files w)(out \<mapsto> bs)\<rparr>, Crashed e)
           | (bs, Inr m2) \<Rightarrow>
               (w\<lparr>files := (files w)(out \<mapsto> (if tgt = ''js'' then rewrite_file bs else bs))\<rparr>, Done)))"

definition compile_cli :: "'m toolchain \<Rightarrow> bool \<Rightarrow> dir \<Rightarrow> string list \<Rightarrow> world \<Rightarrow> world \<times> cli_exit" where
  "compile_cli tc llc src args w =
     (case parse_args args default_options of
        Inl e \<Rightarrow> (w, Message e)
      | Inr opt \<Rightarrow>
          (case given (inputFile opt) of
             None \<Rightarrow> (w, Message Usage)
           | Some inp \<Rightarrow>
               (case files w inp of
                  None \<Rightarrow> (w, Message (InputNotFound inp))
                | Some raw \<Rightarrow>
                    if target opt = ''llvm'' \<and> \<not> llc then (w, Message NoLlc)
                    else
                      (case load_compiler tc (stage2 w) src (target opt) of
                         Inl e \<Rightarrow> (w, Crashed e)
                       | Inr None \<Rightarrow> (w, Message NotLoaded)
                       | Inr (Some m) \<Rightarrow> run_compiler tc m (target opt) (output_name opt inp) raw w))))"

section \<open>The Babel driver\<close>

datatype ohnc_exit = Compiled | OhncUsage | CompilationFailed failure | OhncCrashed failure

definition ohnc :: "(string \<Rightarrow> js_string \<Rightarrow> failure + js_string) \<Rightarrow> string list \<Rightarrow> (string \<rightharpoonup> byte list)
    \<Rightarrow> (string \<rightharpoonup> byte list) \<times> ohnc_exit" where
  "ohnc transform args fs =
     (case args of
        [] \<Rightarrow> (fs, OhncUsage)
      | inp # _ \<Rightarrow>
          if inp = [] \<or> \<not> suffix ''.ohn'' inp then (fs, OhncUsage)
          else
            (case fs inp of
               None \<Rightarrow> (fs, OhncCrashed (FileNotFound inp))
             | Some raw \<Rightarrow>
                 (case transform inp (utf8_decode raw) of
                    Inl e \<Rightarrow> (fs, CompilationFailed e)
                  | Inr code \<Rightarrow> (fs(js_name inp \<mapsto> utf8_encode code), Compiled))))"

section \<open>Names\<close>

lemma takeWhile_absent: "x \<notin> set xs \<Longrightarrow> takeWhile (\<lambda>c. c \<noteq> x) xs = xs"
  by (induction xs) auto

lemma absent_takeWhile: "x \<notin> set (takeWhile (\<lambda>c. c \<noteq> x) xs)"
  using set_takeWhileD by fast

lemma basename_no_slash: "CHR ''/'' \<notin> set (basename path ext)"
proof -
  have "CHR ''/'' \<notin> set (rev (takeWhile (\<lambda>c. c \<noteq> CHR ''/'') (rev path)))"
    by (simp only: set_rev absent_takeWhile not_False_eq_True)
  moreover have "set (basename path ext) \<subseteq> set (rev (takeWhile (\<lambda>c. c \<noteq> CHR ''/'') (rev path)))"
    by (simp add: basename_def Let_def set_take_subset del: set_rev)
  ultimately show ?thesis by (rule contra_subsetD [rotated])
qed

lemma basename_of_name:
  assumes "CHR ''/'' \<notin> set path"
  shows "basename path ext = path \<or> path = basename path ext @ ext"
proof -
  have "takeWhile (\<lambda>c. c \<noteq> CHR ''/'') (rev path) = rev path"
    by (rule takeWhile_absent) (simp only: set_rev assms not_False_eq_True)
  then have "basename path ext =
      (if path = ext then [] else if suffix ext path \<and> path \<noteq> ext then take (length path - length ext) path else path)"
    by (simp only: basename_def Let_def rev_rev_ident)
  then show ?thesis by (auto simp: suffix_def)
qed

lemma default_output_not_input:
  assumes "given (outputFile opt) = None" shows "output_name opt inp \<noteq> inp"
proof
  assume eq: "output_name opt inp = inp"
  have "output_name opt inp = basename inp ''.ohn'' @ (if target opt = ''llvm'' then ''.ll'' else ''.js'')" (is "_ = _ @ ?ext")
    by (simp add: output_name_def assms)
  then have inp: "inp = basename inp ''.ohn'' @ ?ext" by (rule trans [OF eq [symmetric]])
  have ext: "CHR ''/'' \<notin> set ?ext" "length ?ext = 3" by (cases "target opt = ''llvm''"; simp)+
  have len: "length inp = length (basename inp ''.ohn'') + length ?ext" by (rule trans [OF arg_cong [OF inp]]) simp
  have "CHR ''/'' \<notin> set inp"
    by (subst inp) (simp only: set_append Un_iff basename_no_slash ext(1) simp_thms)
  from basename_of_name [OF this, of "''.ohn''"] show False
  proof
    assume "basename inp ''.ohn'' = inp"
    from arg_cong [OF this, of length] len ext(2) show False by linarith
  next
    assume "inp = basename inp ''.ohn'' @ ''.ohn''"
    from arg_cong [OF this, of length] have "length inp = length (basename inp ''.ohn'') + 4" by simp
    then show False using len ext(2) by linarith
  qed
qed

lemma js_name_not_input: "suffix ''.ohn'' inp \<Longrightarrow> js_name inp \<noteq> inp"
  by (auto simp: js_name_def suffix_def)

section \<open>Outcomes\<close>

lemma load_compiler_loads: "load_compiler tc st2 src tgt \<noteq> Inr None"
  by (auto simp: load_compiler_def tryLoadFromSource_def bind_res_Inr_iff split: option.splits)

lemma run_compiler_frame:
  "run_compiler tc m tgt out raw w = (w', x) \<Longrightarrow>
     w'\<lparr>files := files w\<rparr> = w \<and> (\<forall>f. f \<noteq> out \<longrightarrow> files w' f = files w f) \<and> (\<forall>e. x \<noteq> Message e)"
  by (auto simp: run_compiler_def split: sum.splits prod.splits)

text \<open>Past the guards, what is left of the script is the compilation.\<close>

lemma compile_cli_cases:
  assumes "parse_args args default_options = Inr opt" and "given (inputFile opt) = Some inp"
  obtains (stopped) x where "compile_cli tc llc src args w = (w, x)"
      "x = Message (InputNotFound inp) \<and> files w inp = None \<or> x = Message NoLlc \<and> \<not> llc \<or> (\<exists>e. x = Crashed e)"
    | (ran) raw m where "files w inp = Some raw" "load_compiler tc (stage2 w) src (target opt) = Inr (Some m)"
        "compile_cli tc llc src args w = run_compiler tc m (target opt) (output_name opt inp) raw w"
proof (cases "files w inp = None \<or> target opt = ''llvm'' \<and> \<not> llc \<or> isl (load_compiler tc (stage2 w) src (target opt))")
  case True
  then show thesis
    using assms by (intro stopped [of "snd (compile_cli tc llc src args w)"])
      (auto simp: compile_cli_def isl_def split: option.splits)
next
  case False
  then obtain raw m where "files w inp = Some raw" "load_compiler tc (stage2 w) src (target opt) = Inr (Some m)"
    using load_compiler_loads [of tc "stage2 w" src "target opt"]
    by (cases "load_compiler tc (stage2 w) src (target opt)") auto
  then show thesis using assms False by (intro ran) (auto simp: compile_cli_def)
qed

section \<open>Properties\<close>

text \<open>C13. The compiler writes one file and never its input by default. Whatever the loaded
  compiler does, the stage directories and every file other than the output are as before; and
  without \<open>-o\<close> the output is not the input, whatever its name.\<close>
theorem compile_cli_frame:
  assumes "parse_args args default_options = Inr opt" and "given (inputFile opt) = Some inp"
    and "compile_cli tc llc src args w = (w', x)"
  shows "w'\<lparr>files := files w\<rparr> = w \<and> (\<forall>f. f \<noteq> output_name opt inp \<longrightarrow> files w' f = files w f) \<and>
    (given (outputFile opt) = None \<longrightarrow> files w' inp = files w inp)"
proof -
  from assms(1,2) have "w'\<lparr>files := files w\<rparr> = w \<and> (\<forall>f. f \<noteq> output_name opt inp \<longrightarrow> files w' f = files w f)"
  proof (cases rule: compile_cli_cases [of args opt inp tc llc src w])
    case (stopped y)
    then show ?thesis using assms(3) by auto
  next
    case (ran raw m)
    then have "run_compiler tc m (target opt) (output_name opt inp) raw w = (w', x)" using assms(3) by simp
    from run_compiler_frame [OF this] show ?thesis by blast
  qed
  then show ?thesis using default_output_not_input [of opt inp] by metis
qed


text \<open>A compilation, with its options in either order. For an existing input and a loaded
  compiler that parses and generates it, the JavaScript target stores the generated text with
  its \<open>require\<close> paths rewritten, and the LLVM target stores the generated bytes as they are.\<close>
theorem compile_cli_compiles:
  assumes "files w inp = Some raw" and "inp \<noteq> []" and "out \<noteq> []" and "\<not> prefix ''-'' inp"
    and "load_compiler tc (stage2 w) src tgt = Inr (Some m)" and "tgt = ''js'' \<or> tgt = ''llvm'' \<and> llc"
    and "parse_source tc m raw = Inr (rootIndex, m1)" and "generate_code tc m1 rootIndex = (bs, Inr m2)"
  shows "compile_cli tc llc src [''--target'', tgt, inp, ''-o'', out] w =
      (w\<lparr>files := (files w)(out \<mapsto> (if tgt = ''js'' then rewrite_file bs else bs))\<rparr>, Done) \<and>
    compile_cli tc llc src [''-o'', out, inp, ''--target'', tgt] w =
      compile_cli tc llc src [''--target'', tgt, inp, ''-o'', out] w"
proof -
  have "inp \<noteq> ''--target''" "inp \<noteq> ''-o''" using assms(4) by auto
  then have "parse_args [''--target'', tgt, inp, ''-o'', out] default_options =
        Inr \<lparr>target = tgt, inputFile = Some inp, outputFile = Some out\<rparr>"
      "parse_args [''-o'', out, inp, ''--target'', tgt] default_options =
        Inr \<lparr>target = tgt, inputFile = Some inp, outputFile = Some out\<rparr>"
    using assms(4,6) by (auto simp: default_options_def)
  then show ?thesis using assms by (auto simp: compile_cli_def run_compiler_def given_def output_name_def)
qed

text \<open>C27. A bootstrap that failed is used all the same. When the protocol exits with 1 because
  \<open>stage2\<close> and \<open>stage3\<close> differ, both stay on disk, and \<open>compile.js\<close> then loads the refused
  compiler from \<open>stage2\<close> instead of the sources.\<close>
theorem refused_stage_is_loaded:
  assumes "main H tc src st = (st', Exit 1)"
  shows "\<exists>d2 d3. stage2 st' = Some d2 \<and> stage3 st' = Some d3 \<and> \<not> verify H d2 d3 \<and>
    load_compiler tc (stage2 st') src ''js'' = bind_res (load_stage tc d2) (\<lambda>m. Inr (Some m))"
proof -
  from assms obtain d1 d2 d3 where d: "self_compile tc src d1 = (d2, None)" "\<not> verify H d2 d3"
      "stage2 st' = Some d2" "stage3 st' = Some d3"
    by (auto simp: main_def stageN_out [of _ _ _ "stage2 st"] split: prod.splits option.splits if_splits)
  have "''frontend/parser.js'' \<in> set (map fst d2)"
    using bootstrap.stage_wf [OF d(1)] by (simp add: complete_stage_def stage_outputs_list)
  then have "map_of d2 ''frontend/parser.js'' \<noteq> None" by (simp add: map_of_eq_None_iff)
  then show ?thesis
    using d by (auto simp: load_compiler_def tryLoadSelfHosted_def load_stage_def bind_res_assoc)
qed

text \<open>The Babel driver. \<open>ohnc\<close> refuses every name that does not end in \<open>.ohn\<close>; otherwise it
  stores the transformed text beside its input, under a different name, or writes nothing when
  the input is missing or the transformation fails.\<close>
theorem ohnc_result:
  assumes "ohnc transform (inp # rest) fs = (fs', x)"
  shows "(x = OhncUsage \<longleftrightarrow> \<not> suffix ''.ohn'' inp) \<and>
    (x = Compiled \<longrightarrow> (\<exists>raw code. fs inp = Some raw \<and> transform inp (utf8_decode raw) = Inr code \<and>
       js_name inp \<noteq> inp \<and> fs' = fs(js_name inp \<mapsto> utf8_encode code))) \<and>
    (x \<noteq> Compiled \<longrightarrow> fs' = fs)"
  using assms js_name_not_input [of inp]
  by (auto simp: ohnc_def split: if_splits option.splits sum.splits)

section \<open>Samples\<close>

definition sample_world :: world where
  "sample_world = \<lparr>stage1 = None, stage2 = Some sample_stage, stage3 = None, files = [''a.ohn'' \<mapsto> sample_ohn]\<rparr>"

lemma load_sample: "load_compiler copying (Some sample_stage) src ''js'' = Inr (Some [])"
  by (simp add: load_compiler_def tryLoadSelfHosted_def copying_def sample_stage_def)

theorem compile_cli_frame_sample:
  "files (fst (compile_cli copying True [] [''a.ohn''] sample_world)) ''a.ohn'' = Some sample_ohn"
proof -
  obtain w' x where r: "compile_cli copying True [] [''a.ohn''] sample_world = (w', x)" by fastforce
  have "parse_args [''a.ohn''] default_options = Inr \<lparr>target = ''js'', inputFile = Some ''a.ohn'', outputFile = None\<rparr>"
    by (simp add: default_options_def)
  from compile_cli_frame [OF this _ r] have "files w' ''a.ohn'' = Some sample_ohn" by (simp add: given_def sample_world_def)
  then show ?thesis by (simp only: r fst_conv)
qed


theorem compile_cli_compiles_sample:
  "compile_cli copying False [] [''--target'', ''js'', ''a.ohn'', ''-o'', ''b.js''] sample_world =
     (sample_world\<lparr>files := [''a.ohn'' \<mapsto> sample_ohn, ''b.js'' \<mapsto> sample_js]\<rparr>, Done)"
proof -
  have "files sample_world ''a.ohn'' = Some sample_ohn" "load_compiler copying (stage2 sample_world) [] ''js'' = Inr (Some [])"
      "parse_source copying [] sample_ohn = Inr (0, sample_ohn)" "generate_code copying sample_ohn 0 = (sample_ohn, Inr sample_ohn)"
    by (simp_all add: sample_world_def load_sample) (simp_all add: copying_def)
  from compile_cli_compiles [OF this(1) _ _ _ this(2) _ this(3,4), of "''b.js''" False]
  show ?thesis by (simp add: rewrite_file_def sample_rewrite sample_world_def)
qed

text \<open>A toolchain whose compilers differ: it numbers the files it is asked for by the length of
  the stage they come from.\<close>

definition drifting :: "nat toolchain" where
  "drifting = \<lparr>babel = (\<lambda>f code. Inr []), no_modules = 0,
     require_module = (\<lambda>d f m. Inr (length (concat (map snd d)))),
     parse_source = (\<lambda>m bs. Inr (0, m)), generate_code = (\<lambda>m r. (if m = 0 then [0x61] else [], Inr m))\<rparr>"

theorem refused_stage_is_loaded_sample:
  "\<exists>d2. stage2 (fst (main (\<lambda>bs. bs) drifting sample_sources \<lparr>stage1 = None, stage2 = None, stage3 = None\<rparr>)) = Some d2 \<and>
     load_compiler drifting (Some d2) sample_sources ''js'' = bind_res (load_stage drifting d2) (\<lambda>m. Inr (Some m))"
proof -
  let ?st = "\<lparr>stage1 = None, stage2 = None, stage3 = None\<rparr>"
  let ?dir = "\<lambda>bs. map (\<lambda>f. (f, bs)) stage_outputs"
  have rw: "rewrite_file [0x61] = [0x61]" "rewrite_file [] = []"
    by (simp_all add: rewrite_file_def utf8_decode_def units_of_scalar_def utf8_encode_ascii match_require_def
        fix_requires.simps(2))
  have "stage0 drifting sample_sources None = (?dir [], None)"
    by (simp add: stage0_def drifting_def sample_sources_def SOURCE_FILES_def stage_outputs_list js_name_def suffix_def
        cleanDir_def utf8_encode_def)
  moreover have "self_compile drifting sample_sources (?dir []) = (?dir [0x61], None)"
      "self_compile drifting sample_sources (?dir [0x61]) = (?dir [], None)"
    by (simp_all add: stageN_def load_stage_def drifting_def sample_sources_def SOURCE_FILES_def stage_outputs_list js_name_def
        suffix_def cleanDir_def rw)
  moreover have "\<not> verify (\<lambda>bs. bs) (?dir [0x61]) (?dir [])"
    by (subst verify_hashes) (auto simp: stage_outputs_list dest: fun_cong [of _ _ "''core/arena.js''"])
  ultimately have "main (\<lambda>bs. bs) drifting sample_sources ?st =
      (\<lparr>stage1 = Some (?dir []), stage2 = Some (?dir [0x61]), stage3 = Some (?dir [])\<rparr>, Exit 1)"
    by (simp add: main_def)
  from refused_stage_is_loaded [OF this] this show ?thesis by auto
qed

theorem ohnc_result_sample:
  "ohnc (\<lambda>f code. Inr (js ''1'')) [''a.ohn''] [''a.ohn'' \<mapsto> []] = ([''a.ohn'' \<mapsto> [], ''a.js'' \<mapsto> [0x31]], Compiled)"
proof -
  obtain fs x where r: "ohnc (\<lambda>f code. Inr (js ''1'')) [''a.ohn''] [''a.ohn'' \<mapsto> []] = (fs, x)" by fastforce
  have "x = Compiled" using r by (simp add: ohnc_def suffix_def)
  with ohnc_result [OF r] r show ?thesis by (simp add: js_name_def suffix_def utf8_encode_ascii)
qed

end
