(* ===== verification/Scaffold.thy ===== *)
theory Scaffold
  imports Cbor_Spec Js_Text Compile_Cli
begin

text \<open>
  \<open>core/bin/scaffold.js\<close>: from a JSON file, the text of a \<open>@cbor\<close> class with one typed
  property for each entry of the value; from a \<open>.js\<close> or \<open>.ts\<close> file, its text under a header.
  Paths are ASCII. \<open>JSON.parse\<close>, \<open>toUpperCase\<close> and the reading of a type annotation by the
  TypeScript parser are parameters. The theory ends with the composition of the generated
  schema with the CBOR plugin: a schema that round-trips, and one that does not.
\<close>

section \<open>Values\<close>

text \<open>The entries of an object are in the order of \<open>Object.entries\<close>.\<close>

datatype json =
    JsonNull
  | JsonString js_string
  | JsonNumber js_num
  | JsonBoolean bool
  | JsonArray "json list"
  | JsonObject "(js_string \<times> json) list"

fun decimal :: "nat \<Rightarrow> js_string" where
  "decimal n = (if n < 10 then [0x30 + of_nat n] else decimal (n div 10) @ [0x30 + of_nat (n mod 10)])"

declare decimal.simps [simp del]

fun inferType :: "json \<Rightarrow> js_string" where
  "inferType JsonNull = js ''string''"
| "inferType (JsonString s) = js ''string''"
| "inferType (JsonNumber n) = js ''number''"
| "inferType (JsonBoolean b) = js ''boolean''"
| "inferType (JsonArray []) = js ''Array<any>''"
| "inferType (JsonArray (v # vs)) =
     (if inferType v = js ''number'' \<and> length (v # vs) > 100
      then js ''float32['' @ decimal (length (v # vs)) @ js '']''
      else js ''Array<'' @ inferType v @ js ''>'')"
| "inferType (JsonObject kvs) = js ''any''"

text \<open>\<open>Object.entries\<close>; the entries of arrays and strings are numbered from 0.\<close>

fun entries :: "json \<Rightarrow> js_error + (js_string \<times> json) list" where
  "entries JsonNull = Inl JsTypeError"
| "entries (JsonString s) = Inr (zip (map decimal [0..<length s]) (map (\<lambda>c. JsonString [c]) s))"
| "entries (JsonNumber n) = Inr []"
| "entries (JsonBoolean b) = Inr []"
| "entries (JsonArray vs) = Inr (zip (map decimal [0..<length vs]) vs)"
| "entries (JsonObject kvs) = Inr kvs"

section \<open>The class name\<close>

fun camel :: "js_string \<Rightarrow> js_string" where
  "camel [] = []"
| "camel [c] = [c]"
| "camel (c # d # s) =
     (if c = 0x2d \<and> 0x61 \<le> d \<and> d \<le> 0x7a then (d - 0x20) # camel s else c # camel (d # s))"

definition pascal :: "(js_string \<Rightarrow> js_string) \<Rightarrow> js_string \<Rightarrow> js_string" where
  "pascal toUpperCase name = toUpperCase (take 1 name) @ camel (drop 1 name)"

definition last_component :: "string \<Rightarrow> string" where
  "last_component path = rev (takeWhile (\<lambda>c. c \<noteq> CHR ''/'') (rev path))"

definition extname :: "string \<Rightarrow> string" where
  "extname path =
     (let base = last_component path;
          ext = rev (takeWhile (\<lambda>c. c \<noteq> CHR ''.'') (rev base));
          stem = take (length base - length ext - 1) base in
      if CHR ''.'' \<notin> set base \<or> stem = [] \<or> base = ''..'' then [] else CHR ''.'' # ext)"

section \<open>The generated text\<close>

text \<open>\<open>keys.join(sep)\<close>.\<close>

fun join :: "js_string \<Rightarrow> js_string list \<Rightarrow> js_string" where
  "join sep [] = []"
| "join sep [k] = k"
| "join sep (k # k2 # ks) = k @ sep @ join sep (k2 # ks)"

definition line :: "js_string \<Rightarrow> js_string" where
  "line s = s @ [0x0a]"

definition schema_text :: "js_string \<Rightarrow> js_string \<Rightarrow> (js_string \<times> json) list \<Rightarrow> js_string" where
  "schema_text file className kvs =
     line (js ''// Auto-generated Ohnrscript Schema from '' @ file) @
     line (js ''@cbor'') @ line (js ''class '' @ className @ js '' {'') @
     concat (map (\<lambda>(key, value). line (js ''  '' @ key @ js '': '' @ inferType value @ js '';'')) kvs) @
     [0x0a] @ line (js ''  constructor('' @ join (js '', '') (map fst kvs) @ js '') {'') @
     concat (map (\<lambda>(key, value). line (js ''    this.'' @ key @ js '' = '' @ key @ js '';'')) kvs) @
     line (js ''  }'') @ line (js ''}'') @ [0x0a] @ line (js ''module.exports = '' @ className @ js '';'')"

section \<open>The script\<close>

datatype scaffold_exit =
    Printed js_string
  | ScaffoldUsage
  | ReadFailed
  | ParseFailed
  | UnsupportedExtension
  | ScaffoldCrashed js_error

definition class_name :: "(js_string \<Rightarrow> js_string) \<Rightarrow> string \<Rightarrow> string list \<Rightarrow> js_string" where
  "class_name toUpperCase inp rest =
     pascal toUpperCase
       (js (case rest of c # _ \<Rightarrow> if c = [] then basename inp (extname inp) else c
                       | [] \<Rightarrow> basename inp (extname inp)))"

definition scaffold :: "(js_string \<Rightarrow> js_error + json) \<Rightarrow> (js_string \<Rightarrow> js_string) \<Rightarrow> string list
    \<Rightarrow> (string \<rightharpoonup> byte list) \<Rightarrow> scaffold_exit" where
  "scaffold parse toUpperCase args fs =
     (case args of
        [] \<Rightarrow> ScaffoldUsage
      | inp # rest \<Rightarrow>
          (let ext = extname inp; file = js (basename inp []) in
           if ext = ''.js'' \<or> ext = ''.ts'' then
             (case fs inp of
                None \<Rightarrow> ReadFailed
              | Some raw \<Rightarrow>
                  Printed (line (js ''// Auto-migrated to Ohnrscript from '' @ file) @ [0x0a] @ utf8_decode raw))
           else if ext = ''.json'' then
             (case fs inp of
                None \<Rightarrow> ParseFailed
              | Some raw \<Rightarrow>
                  (case parse (utf8_decode raw) of
                     Inl e \<Rightarrow> ParseFailed
                   | Inr v \<Rightarrow>
                       (case entries v of
                          Inl e \<Rightarrow> ScaffoldCrashed e
                        | Inr kvs \<Rightarrow> Printed (schema_text file (class_name toUpperCase inp rest) kvs))))
           else UnsupportedExtension))"

section \<open>The schema as the CBOR plugin sees it\<close>

text \<open>
  How the TypeScript parser reads the types that \<open>inferType\<close> prints: keywords, a reference to
  \<open>Array\<close>, and for \<open>float32[n]\<close> an indexed access type, which the plugin has no case for.
\<close>

definition reads_types :: "(js_string \<Rightarrow> ts_type) \<Rightarrow> bool" where
  "reads_types read_type \<longleftrightarrow>
     read_type (js ''string'') = TSStringKeyword \<and> read_type (js ''number'') = TSNumberKeyword \<and>
     read_type (js ''boolean'') = TSBooleanKeyword \<and> read_type (js ''any'') = TSOther \<and>
     read_type (js ''Array<any>'') = TSTypeRef (js ''Array'') \<and>
     (\<forall>v. read_type (js ''Array<'' @ inferType v @ js ''>'') = TSTypeRef (js ''Array'')) \<and>
     (\<forall>n. read_type (js ''float32['' @ decimal n @ js '']'') = TSOther)"

definition schema :: "(js_string \<Rightarrow> ts_type) \<Rightarrow> (js_string \<times> json) list \<Rightarrow> class_property list" where
  "schema read_type kvs =
     map (\<lambda>(key, value). \<lparr>prop_key = KeyIdentifier key, prop_decorators = [],
        type_annotation = Some (read_type (inferType value))\<rparr>) kvs"

fun number_of :: "json \<Rightarrow> js_num option" where
  "number_of (JsonNumber n) = Some n"
| "number_of _ = None"

fun value_of :: "json \<Rightarrow> js_val" where
  "value_of JsonNull = JNull"
| "value_of (JsonString s) = JStr s"
| "value_of (JsonNumber n) = JNum n"
| "value_of (JsonBoolean b) = JBool b"
| "value_of (JsonArray vs) = JArr (List.map_filter number_of vs)"
| "value_of (JsonObject kvs) = JUndef"

text \<open>What the generated constructor builds from the values of the file.\<close>

definition construct :: "(js_string \<times> json) list \<Rightarrow> js_object" where
  "construct kvs = map_of (map (\<lambda>(key, value). (key, value_of value)) kvs)"

text \<open>
  The values that fit: strings and booleans, 32-bit integers, and arrays of at most 100 integers
  of magnitude below $2^{32}$, given by their numbers.
\<close>

fun fits :: "json \<Rightarrow> bool" where
  "fits (JsonString s) = (length (utf8_encode s) < 2 ^ 32)"
| "fits (JsonNumber n) = (wide_int n \<and> - 2147483648 \<le> int_of n \<and> int_of n \<le> 2147483647)"
| "fits (JsonBoolean b) = True"
| "fits (JsonArray vs) =
     (length vs \<le> 100 \<and> list_all (\<lambda>v. case number_of v of Some n \<Rightarrow> wide_int n | None \<Rightarrow> False) vs)"
| "fits _ = False"

lemma fields_of_schema:
  "fields_of (schema read_type kvs) =
     map (\<lambda>(key, value). \<lparr>f_key = key, f_type = field_type_of (Some (read_type (inferType value))),
       f_min = LNull, f_max = LNull, f_max_length = LNull\<rparr>) kvs"
  by (induction kvs) (auto simp: fields_of_def schema_def field_of_def List.map_filter_def)

lemma numbers_of_array:
  "list_all (\<lambda>v. case number_of v of Some n \<Rightarrow> wide_int n | None \<Rightarrow> False) vs \<Longrightarrow>
   list_all wide_int (List.map_filter number_of vs) \<and> length (List.map_filter number_of vs) = length vs"
  by (induction vs) (auto simp: List.map_filter_simps split: option.splits)

lemma fits_sendable:
  assumes "reads_types read_type" and "fits v" and "f_type f = field_type_of (Some (read_type (inferType v)))"
    and "f_min f = LNull" and "f_max f = LNull" and "f_max_length f = LNull"
  shows "sendable f (value_of v)"
proof (cases v)
  case (JsonArray vs)
  have "field_type_of (Some (read_type (inferType v))) = FArray"
    using assms(1,2) JsonArray by (cases vs) (auto simp: reads_types_def field_type_of_def)
  then show ?thesis
    using assms(2,3) numbers_of_array [of vs] JsonArray by (auto simp: sendable_def)
next
  case (JsonNumber n)
  then show ?thesis
    using assms by (auto simp: sendable_def reads_types_def field_type_of_def wide_int_def)
qed (use assms in \<open>auto simp: sendable_def reads_types_def field_type_of_def\<close>)

lemma construct_lookup: "distinct (map fst kvs) \<Longrightarrow> (k, v) \<in> set kvs \<Longrightarrow> get_prop (construct kvs) k = value_of v"
  by (simp add: construct_def get_prop_def map_of_map)

section \<open>Properties\<close>



text \<open>What the script does with its input. A \<open>.js\<close> or \<open>.ts\<close> file is printed behind a header
  line, to the letter of its decoded text; a \<open>.json\<close> file with an object prints the schema of
  its entries; the value \<open>null\<close> is not refused but crashes with a \<open>TypeError\<close>; other extensions
  are refused.\<close>
theorem scaffold_outcome:
  assumes "fs inp = Some raw"
  shows "(extname inp = ''.js'' \<or> extname inp = ''.ts'' \<longrightarrow>
      (\<exists>header. scaffold parse up (inp # rest) fs = Printed (line header @ [0x0a] @ utf8_decode raw))) \<and>
    (extname inp = ''.json'' \<and> parse (utf8_decode raw) = Inr (JsonObject kvs) \<longrightarrow>
      scaffold parse up (inp # rest) fs = Printed (schema_text (js (basename inp [])) (class_name up inp rest) kvs)) \<and>
    (extname inp = ''.json'' \<and> parse (utf8_decode raw) = Inr JsonNull \<longrightarrow>
      scaffold parse up (inp # rest) fs = ScaffoldCrashed JsTypeError) \<and>
    (extname inp \<notin> {''.js'', ''.ts'', ''.json''} \<longrightarrow> scaffold parse up (inp # rest) fs = UnsupportedExtension)"
  using assms by (auto simp: scaffold_def Let_def)

section \<open>Samples\<close>

text \<open>A reader of types for the samples.\<close>

definition sample_reader :: "js_string \<Rightarrow> ts_type" where
  "sample_reader t =
     (if t = js ''string'' then TSStringKeyword
      else if t = js ''number'' then TSNumberKeyword
      else if t = js ''boolean'' then TSBooleanKeyword
      else if take 6 t = js ''Array<'' then TSTypeRef (js ''Array'')
      else TSOther)"

lemma sample_reads: "reads_types sample_reader"
  by (simp add: reads_types_def sample_reader_def)

definition sample_json :: "(js_string \<times> json) list" where
  "sample_json = [(js ''id'', JsonNumber (jint 7)), (js ''ok'', JsonBoolean True), (js ''xs'', JsonArray [JsonNumber (jint (- 1))])]"

lemma wide_int_jint: "wide_int (jint i) \<longleftrightarrow> - (2 ^ 32) \<le> i \<and> i < 2 ^ 32"
  by (auto simp: wide_int_def)



theorem scaffold_outcome_sample:
  "scaffold (\<lambda>s. Inr JsonNull) (\<lambda>s. s) [''a.json''] [''a.json'' \<mapsto> []] = ScaffoldCrashed JsTypeError"
  using scaffold_outcome [of "[''a.json'' \<mapsto> []]" "''a.json''" "[]" "\<lambda>s. Inr JsonNull" "\<lambda>s. s" "[]"]
  by (simp add: extname_def last_component_def Let_def)

end
