(* ===== verification/Plugin_Pipeline.thy ===== *)
theory Plugin_Pipeline
  imports Binary_Layout Cbor_Spec
begin

text \<open>
  The plugin list of \<open>core/bin/ohnc.js\<close>: on every class declaration Babel runs the visitor of
  \<open>babel-plugin-binary-layout.js\<close> and then that of \<open>babel-plugin-cbor-aot.js\<close> on its result.
  The two plugins read the same nodes in different ways: \<open>reading\<close> gives what the second one
  reads of a property that the first one has left in place. The members that the first one
  injects are methods, which the second one passes on.
\<close>

fun class_tag :: "layout_decorator \<Rightarrow> decorator" where
  "class_tag (BIdentifier name) = DecIdentifier (js name)"
| "class_tag (BCall name args) = DecCall (js name) None"
| "class_tag BOther = DecOther"

text \<open>The methods are numbered apart from the members of the class.\<close>

fun cbor_element :: "(layout_property \<Rightarrow> class_property) \<Rightarrow> layout_element \<Rightarrow> class_element" where
  "cbor_element reading (Property p) = ClassProperty (reading p)"
| "cbor_element reading (Other n) = OtherElement (n + 3)"
| "cbor_element reading StaticFactory = OtherElement 0"
| "cbor_element reading Constructor = OtherElement 1"
| "cbor_element reading (Getter g) = OtherElement 2"

definition cbor_class :: "(layout_property \<Rightarrow> class_property) \<Rightarrow> layout_class \<Rightarrow> class_decl" where
  "cbor_class reading c =
     \<lparr>cls_decorators = Some (map class_tag (ldecorators c)), cls_body = map (cbor_element reading) (lbody c)\<rparr>"

definition ohnc_class :: "(js_string \<Rightarrow> bool) \<Rightarrow> (layout_property \<Rightarrow> class_property) \<Rightarrow> layout_class
    \<Rightarrow> js_error + class_decl" where
  "ohnc_class accepts reading c = class_declaration accepts (cbor_class reading (layout_class_declaration c))"

section \<open>Which plugin takes which property\<close>

fun untyped :: "layout_element list \<Rightarrow> layout_property list" where
  "untyped [] = []"
| "untyped (Property p # es) = (if property_type p = None then p # untyped es else untyped es)"
| "untyped (e # es) = untyped es"

lemma properties_append [simp]: "properties_of (es @ es') = properties_of es @ properties_of es'"
  by (induction es rule: properties_of.induct) simp_all

lemma properties_getters [simp]: "properties_of (map (cbor_element reading \<circ> Getter) gs) = []"
  by (induction gs) simp_all

lemma properties_kept:
  "properties_of (map (cbor_element reading) (filter (\<lambda>e. \<forall>p. e = Property p \<longrightarrow> property_type p = None) es)) =
     map reading (untyped es)"
  by (induction es rule: untyped.induct) simp_all

lemma properties_after_layout:
  assumes "BIdentifier ''binaryLayout'' \<in> set (ldecorators c)"
  shows "properties_of (cls_body (cbor_class reading (layout_class_declaration c))) = map reading (untyped (lbody c))"
  using assms by (simp add: cbor_class_def layout_class_declaration_def traverse_eq properties_kept)

lemma tag_after_layout:
  assumes "BIdentifier ''cbor'' \<in> set (ldecorators c)"
  shows "DecIdentifier (js ''cbor'') \<in> class_tag ` set (ldecorators (layout_class_declaration c))"
proof -
  have "BIdentifier ''cbor'' \<in> set (ldecorators (layout_class_declaration c))"
    using assms by (simp add: layout_class_declaration_def traverse_eq)
  from imageI [OF this, of class_tag] show ?thesis by (simp only: class_tag.simps)
qed

lemma toCBOR_of_both:
  assumes "BIdentifier ''binaryLayout'' \<in> set (ldecorators c)" and "BIdentifier ''cbor'' \<in> set (ldecorators c)"
    and "distinct (map f_key (fields_of (map reading (untyped (lbody c)))))"
    and "\<forall>f \<in> set (fields_of (map reading (untyped (lbody c)))). accepts (f_key f) \<and> f_type f \<noteq> FUnsupported"
  obtains c' kept where "ohnc_class accepts reading c = Inr c'" and "properties_of kept = []"
    and "cls_body c' = kept @ inject (generate (map reading (untyped (lbody c))))"
proof -
  let ?c = "cbor_class reading (layout_class_declaration c)"
  let ?ds = "map class_tag (ldecorators (layout_class_declaration c))"
  have ds: "cls_decorators ?c = Some ?ds" by (simp add: cbor_class_def)
  have tag: "DecIdentifier (js ''cbor'') \<in> set ?ds" using tag_after_layout [OF assms(2)] by (simp only: set_map)
  then have "?ds \<noteq> []" by auto
  have ps: "properties_of (cls_body ?c) = map reading (untyped (lbody c))" by (rule properties_after_layout [OF assms(1)])
  have "code_parses accepts (fields_of (properties_of (cls_body ?c)))"
    unfolding ps using assms(3,4) by (rule code_parses_distinct)
  then have "\<exists>c'. class_declaration accepts ?c = Inr c' \<and>
      cls_body c' = filter (\<lambda>e. \<not> is_property e) (cls_body ?c) @ inject (generate (map reading (untyped (lbody c))))"
    using ds tag \<open>?ds \<noteq> []\<close> ps by (simp add: class_declaration_def Let_def del: js_Cons)
  moreover have "properties_of (filter (\<lambda>e. \<not> is_property e) es) = []" for es
    by (induction es rule: properties_of.induct) simp_all
  ultimately show thesis using that unfolding ohnc_class_def by blast
qed

text \<open>A class without properties encodes to the empty map.\<close>

lemma toCBOR_empty: "to_cbor (generate []) obj = Inr [0xa0]"
  using to_cbor_sendable [of "[]" obj] by (simp add: fields_of_def map_filter_simps head_bytes_def object_bytes_def)

text \<open>Every property goes to one of the two.\<close>

fun count_properties :: "layout_element list \<Rightarrow> nat" where
  "count_properties [] = 0"
| "count_properties (Property p # es) = 1 + count_properties es"
| "count_properties (e # es) = count_properties es"

lemma length_place: "length (place fs off) = length fs"
  by (induction fs off rule: place.induct) simp_all

lemma partition_count: "length (layout_fields es) + length (untyped es) = count_properties es"
  by (induction es rule: count_properties.induct) (auto split: option.splits)

end
