(* ===== verification/Spec2Isabelle.thy ===== *)
theory Spec2Isabelle
  imports Cbor_Properties Cookie Websocket Uuid Binary_Layout Vector_View Serializer Require_Paths Bootstrap Compile_Cli
    Scaffold Plugin_Pipeline
begin

text \<open>
  Ohnrscript: a verification development for the JavaScript part of the repository.

  \<^bold>\<open>The program.\<close> Ohnrscript is a typed dialect of JavaScript with two compilers: a Babel
  pipeline (\<open>core/bin/ohnc.js\<close>) with two plugins of its own, and a self-hosted compiler, written in
  Ohnrscript, that the scripts in \<open>compiler/scripts\<close> build and run. The packages are small
  libraries over raw buffers. The JavaScript of these parts is what is modelled; every theory
  says in its opening text what it takes from the source.

  \<^bold>\<open>Common ground.\<close>
  \<^item> \<open>Prelude\<close>: bytes, UTF-16 code units and strings, errors as values (\<open>js_error\<close>, \<open>bind_res\<close>),
    the numbers and values of the language as far as the code uses them, cursors for writing and
    reading, big-endian and little-endian fields, and the bit lemmas (\<open>bit_consts\<close>, \<open>cursor\<close>).
  \<^item> \<open>Js_Text\<close>: the platform's UTF-8 encoder and decoder (\<open>Buffer.from\<close>, \<open>toString('utf8')\<close>).

  \<^bold>\<open>The CBOR plugin\<close> (\<open>core/src/plugins/babel-plugin-cbor-aot.js\<close>).
  \<^item> \<open>Cbor_Plugin\<close>: the class visitor, from the decorators and annotations of a class to the three
    lists of generated statements. One constructor stands for each template string.
  \<^item> \<open>Cbor_Runtime\<close>: what the generated \<open>toCBOR\<close> and \<open>fromCBOR\<close> do, statement by statement.
  \<^item> \<open>Cbor_Utf8\<close>: the injected helpers \<open>_utf8ByteLength\<close>, \<open>_writeString\<close>, \<open>_readString\<close>.
  \<^item> \<open>Cbor_Codec\<close>, \<open>Cbor_Roundtrip\<close>: item by item, what is written and what reading it gives.
  \<^item> \<open>Cbor_Spec\<close>: a decoder of RFC 8949 items, the reference for the format. It runs with fuel
    (\<open>decode_fuel\<close> bounds it by twice the length of the buffer: each item takes a byte).
  \<^item> \<open>Cbor_Safety\<close>: what \<open>fromCBOR\<close> can do on arbitrary bytes.
  \<^item> \<open>Cbor_Properties\<close>: the properties of the component.

  \<^bold>\<open>The layout plugin\<close> (\<open>core/src/plugins/babel-plugin-binary-layout.js\<close>): \<open>Binary_Layout\<close> holds the
  type tables, the visitor and the generated getters, with a record layout as specification.
  \<open>Plugin_Pipeline\<close> composes both visitors as \<open>ohnc\<close> lists them.

  \<^bold>\<open>The packages.\<close>
  \<^item> \<open>Cookie\<close> (\<open>packages/ohn-cookie\<close>): the index loops of \<open>scanCookies\<close> against the list of
    trimmed pairs of the header; the lookup is proved over the locale \<open>cookie_scanner\<close>.
  \<^item> \<open>Websocket\<close> (\<open>packages/ohn-ws\<close>): \<open>parseFrame\<close> and its mutation of the buffer.
  \<^item> \<open>Uuid\<close> (\<open>packages/ohn-uuid\<close>): the module as a state machine over its entropy pool, with an
    invariant of the reachable states; the locale \<open>pool_client\<close> has both generators as instances.
  \<^item> \<open>Vector_View\<close> (\<open>packages/ohn-vector\<close>): views over a shared memory.

  \<^bold>\<open>The compiler's tooling.\<close>
  \<^item> \<open>Serializer\<close> (\<open>compiler/src/shim/serializer.js\<close>): the binary form of a syntax tree, and a reader
    of it with fuel above the length of the buffer, as every node takes at least its header.
  \<^item> \<open>Require_Paths\<close>: the regular expression that rewrites \<open>require\<close> paths in generated code.
  \<^item> \<open>Bootstrap\<close> (\<open>compiler/scripts/bootstrap.js\<close>): the three stages and their comparison. The locale
    \<open>stage_check\<close> states what a stage owes to the comparison; it is interpreted on \<open>stageN\<close> and
    \<open>verify\<close>, for every toolchain and hash.
  \<^item> \<open>Compile_Cli\<close> (\<open>compiler/scripts/compile.js\<close>, \<open>core/bin/ohnc.js\<close>): the command lines.
  \<^item> \<open>Scaffold\<close> (\<open>core/bin/scaffold.js\<close>): the schema generator, and its composition with the CBOR
    plugin.

  \<^bold>\<open>How the parts meet.\<close> \<open>scaffold.js\<close> prints classes for the CBOR plugin, and \<open>Scaffold\<close> shows
  which data survive the round trip through both. \<open>bootstrap.js\<close> leaves the compiler that \<open>compile.js\<close>
  loads, and both rewrite paths with the same expression; \<open>Compile_Cli\<close> shows that a refused stage is
  loaded too. \<open>ohnc.js\<close> runs the layout plugin before the CBOR plugin; the property below says how
  they share the properties of a class.

  \<^bold>\<open>Parameters.\<close> Code outside the JavaScript sources is an argument: the parser and the transformation
  of Babel, which keys \<open>template\<close> accepts, \<open>crypto.randomFillSync\<close> (the stream of pools), the hash,
  the module loader and the loaded compilers (the record \<open>toolchain\<close>), \<open>JSON.parse\<close>,
  \<open>toUpperCase\<close>, and the object of \<open>new this()\<close>. Hypotheses about them are definitions with a
  name: \<open>fills_pool\<close>, \<open>collision_free\<close>, \<open>reads_types\<close>.

  \<^bold>\<open>Not modelled.\<close> The compiler's own sources, the kernel and the native packages are written in
  Ohnrscript, C and LLVM; \<open>packages/ohn-zod\<close> consists of three empty functions; benchmarks, tests
  and the script \<open>scripts/generate-copyright-deposit.js\<close> only launch processes and copy
  text. Within the modelled files, console output, file permissions, directories given as input, and
  properties inherited from \<open>Object.prototype\<close> (a type named \<open>constructor\<close>, say) are left out.
  Arrays of the program's data are arrays of the numbers their elements coerce to.
\<close>

section \<open>Both plugins on one class\<close>

definition sample_joint :: layout_class where
  "sample_joint =
     \<lparr>ldecorators = [BIdentifier ''binaryLayout'', BIdentifier ''cbor''],
      lbody = [Property \<lparr>pkey = ''gain'', pdecorators = [BCall ''type'' [ArgString ''float32'']],
                          pannotation = NotIndexed\<rparr>,
               Property \<lparr>pkey = ''name'', pdecorators = [], pannotation = NotIndexed\<rparr>]\<rparr>"

definition sample_reading :: "layout_property \<Rightarrow> class_property" where
  "sample_reading p = \<lparr>prop_key = KeyIdentifier (js (pkey p)), prop_decorators = [],
     type_annotation = Some TSStringKeyword\<rparr>"

text \<open>C35. The two plugins divide the properties of a class. On a class tagged with both
  decorators, \<open>ohnc\<close> gives each property with a layout type a getter, and the CBOR methods encode
  exactly the others: the generated code is that of the remaining properties, no property is left,
  and when every property has a layout type \<open>toCBOR\<close> returns the empty map for every object.\<close>
theorem plugins_partition_properties:
  assumes "BIdentifier ''binaryLayout'' \<in> set (ldecorators c)" and "BIdentifier ''cbor'' \<in> set (ldecorators c)"
    and "distinct (map f_key (fields_of (map reading (untyped (lbody c)))))"
    and "\<forall>f \<in> set (fields_of (map reading (untyped (lbody c)))). accepts (f_key f) \<and> f_type f \<noteq> FUnsupported"
  shows "(\<exists>c' kept. ohnc_class accepts reading c = Inr c' \<and> properties_of kept = [] \<and>
      cls_body c' = kept @ inject (generate (map reading (untyped (lbody c))))) \<and>
    (untyped (lbody c) = [] \<longrightarrow> (\<forall>obj. to_cbor (generate (map reading (untyped (lbody c)))) obj = Inr [0xa0])) \<and>
    (getters_of (lbody c) = [] \<longrightarrow>
      length (getters_of (lbody (layout_class_declaration c))) + length (untyped (lbody c)) = count_properties (lbody c))"
  by (rule toCBOR_of_both [OF assms])
    (auto simp: toCBOR_empty layout_getters [OF assms(1)] length_place partition_count)

theorem plugins_partition_properties_sample:
  "\<exists>c'. ohnc_class (\<lambda>k. True) sample_reading sample_joint = Inr c' \<and>
     (\<exists>kept. properties_of kept = [] \<and>
       cls_body c' = kept @ inject (generate [sample_reading \<lparr>pkey = ''name'', pdecorators = [], pannotation = NotIndexed\<rparr>]))"
proof -
  have left: "untyped (lbody sample_joint) = [\<lparr>pkey = ''name'', pdecorators = [], pannotation = NotIndexed\<rparr>]"
    by (simp add: sample_joint_def property_type_def type_of_name_def enum_elem_type_def)
  show ?thesis
    using plugins_partition_properties [of sample_joint sample_reading "\<lambda>k. True"]
    unfolding left
    by (simp add: sample_joint_def sample_reading_def fields_of_def map_filter_simps field_of_def field_type_of_def)
qed

end
